(* ===== verification/T4_Prelude.thy ===== *)
theory T4_Prelude
  imports Main "HOL-Library.Word" "HOL-Library.List_Lexorder" "HOL-Library.Sublist"
begin

unbundle bit_operations_syntax

text \<open>
  Shared vocabulary of the t4 development.

  \<^item> Bytes are 8-bit words; Go strings and byte slices are both byte lists, compared
    bytewise (the lexicographic order of lists), as Go's \<open><\<close> on strings does.
  \<^item> An \<open>int64\<close> is an \<^typ>\<open>int\<close> in the range \<open>is_i64\<close>; where the source adds or subtracts, the
    wrap-around is written out with \<open>wrap64\<close>. A \<open>uint64\<close> or \<open>uint32\<close> is a \<^typ>\<open>nat\<close>.
  \<^item> \<open>put_be\<close>/\<open>get_be\<close> and \<open>put_le\<close>/\<open>get_le\<close> are \<open>encoding/binary\<close>'s fixed-width encodings.
  \<^item> \<open>'a res\<close> is a Go result pair \<open>(value, error)\<close>: \<open>Inl\<close> of the error or \<open>Inr\<close> of the value.

  The lemmas are generic: round trips of the fixed-width encodings, their order, and the
  order of lists with a common prefix.
\<close>

section \<open>Bytes, strings, results\<close>

type_synonym byte = "8 word"
type_synonym bytes = "byte list"
type_synonym gostring = "byte list"

text \<open>The collections that the component proofs use.\<close>

named_theorems codec_simps \<open>round trips of fixed-width fields\<close>
named_theorems wrap_simps \<open>wrap-around that does not happen\<close>

definition str :: "string \<Rightarrow> gostring" where
  "str s = map of_char s"

lemma str_append [simp]: "str (s @ t) = str s @ str t"
  by (simp add: str_def)

lemma length_str [simp]: "length (str s) = length s"
  by (simp add: str_def)

lemma unat_of_char: "unat (of_char c :: byte) = of_char c"
proof -
  have "(of_nat (of_char c) :: byte) = of_char c" by (rule of_nat_of_char)
  moreover have "unat (of_nat (of_char c) :: byte) = of_char c" by (simp add: unat_of_nat take_bit_nat_def)
  ultimately show ?thesis by simp
qed

lemma str_inject: "str s = str t \<longleftrightarrow> s = t"
proof -
  have "inj (of_char :: char \<Rightarrow> byte)" by (metis injI of_char_eq_iff unat_of_char)
  then show ?thesis by (simp add: str_def inj_map_eq_map)
qed

datatype goerr =
    IoEOF
  | Err string
  | ErrNotExist
  | ErrNotFound
  | ErrPreconditionFailed
  | ErrClosed
  | ErrCompacted
  | ErrFutureRevision
  | ErrKeyExists
  | ErrNoLeader
  | ErrCanceled
  | ErrIO nat

type_synonym 'a res = "goerr + 'a"

section \<open>Machine integers\<close>

definition wrap64 :: "int \<Rightarrow> int" where
  "wrap64 x = (x + 2 ^ 63) mod 2 ^ 64 - 2 ^ 63"

definition is_i64 :: "int \<Rightarrow> bool" where
  "is_i64 x \<longleftrightarrow> - (2 ^ 63) \<le> x \<and> x < 2 ^ 63"

definition is_u64 :: "nat \<Rightarrow> bool" where
  "is_u64 x \<longleftrightarrow> x < 2 ^ 64"

definition max_i64 :: int where
  "max_i64 = 9223372036854775807"

lemma wrap64_id [wrap_simps]: "is_i64 x \<Longrightarrow> wrap64 x = x"
  by (simp add: wrap64_def is_i64_def)

lemma wrap64_pos [wrap_simps]: "- 9223372036854775808 \<le> x \<Longrightarrow> x \<le> 9223372036854775807 \<Longrightarrow> wrap64 x = x"
  by (simp add: wrap64_def)

lemma is_i64_wrap64 [simp]: "is_i64 (wrap64 x)"
proof -
  have "(x + 2 ^ 63) mod 2 ^ 64 < 2 ^ 64" and "0 \<le> (x + 2 ^ 63) mod 2 ^ 64"
    by simp_all
  then show ?thesis
    unfolding wrap64_def is_i64_def by simp
qed

lemma wrap64_mod: "is_i64 x \<Longrightarrow> wrap64 (x mod 2 ^ 64) = x"
  by (simp add: wrap64_def is_i64_def mod_add_left_eq)

section \<open>Slices\<close>

text \<open>\<open>gslice b i j\<close> is \<open>b[i:j]\<close> for \<open>i \<le> j \<le> len(b)\<close>; every use is guarded by a length check.\<close>

definition gslice :: "'a list \<Rightarrow> nat \<Rightarrow> nat \<Rightarrow> 'a list" where
  "gslice b i j = take (j - i) (drop i b)"

lemma gslice_append_skip:
  "length p \<le> i \<Longrightarrow> gslice (p @ b) i j = gslice b (i - length p) (j - length p)"
  by (simp add: gslice_def)

lemma gslice_append_take:
  "j \<le> length p \<Longrightarrow> gslice (p @ b) i j = gslice p i j"
  by (cases "i \<le> j") (auto simp add: gslice_def)

lemma gslice_exact: "length p = j \<Longrightarrow> gslice p 0 j = p"
  by (simp add: gslice_def)

lemma length_gslice [simp]: "j \<le> length b \<Longrightarrow> length (gslice b i j) = j - i"
  by (auto simp: gslice_def)

lemma prefix_append_long:
  assumes "prefix q (h @ p)" and "length h \<le> length q"
  shows "\<exists>t. q = h @ t \<and> prefix t p"
proof -
  obtain zs where "h @ p = q @ zs" using assms(1) by (auto simp: prefix_def)
  with assms(2) show ?thesis by (auto simp: append_eq_append_conv2)
qed

lemma ex_nat_split: "(\<exists>i. P i) \<longleftrightarrow> P 0 \<or> (\<exists>i. P (Suc i))"
  by (metis not0_implies_Suc)

section \<open>Fixed-width encodings\<close>

definition put_be :: "nat \<Rightarrow> nat \<Rightarrow> bytes" where
  "put_be n x = map (\<lambda>i. of_nat (x div 256 ^ i)) (rev [0..<n])"

definition get_be :: "bytes \<Rightarrow> nat" where
  "get_be bs = foldl (\<lambda>a b. a * 256 + unat b) 0 bs"

definition put_le :: "nat \<Rightarrow> nat \<Rightarrow> bytes" where
  "put_le n x = rev (put_be n x)"

definition get_le :: "bytes \<Rightarrow> nat" where
  "get_le bs = get_be (rev bs)"

text \<open>\<open>PutUint64(b, uint64(x))\<close> and \<open>int64(Uint64(b))\<close> for a signed \<open>x\<close>.\<close>

definition put_i64 :: "int \<Rightarrow> bytes" where
  "put_i64 x = put_be 8 (nat (x mod 2 ^ 64))"

definition get_i64 :: "bytes \<Rightarrow> int" where
  "get_i64 b = wrap64 (int (get_be b))"

definition put_i64_le :: "int \<Rightarrow> bytes" where
  "put_i64_le x = put_le 8 (nat (x mod 2 ^ 64))"

definition get_i64_le :: "bytes \<Rightarrow> int" where
  "get_i64_le b = wrap64 (int (get_le b))"

lemma length_put_be [simp]: "length (put_be n x) = n"
  by (simp add: put_be_def)

lemma length_put_le [simp]: "length (put_le n x) = n"
  by (simp add: put_le_def)

lemma length_put_i64 [simp]: "length (put_i64 x) = 8" "length (put_i64_le x) = 8"
  by (simp_all add: put_i64_def put_i64_le_def)

lemma put_be_0 [simp]: "put_be 0 x = []"
  by (simp add: put_be_def)

lemma put_be_Suc: "put_be (Suc n) x = of_nat (x div 256 ^ n) # put_be n x"
  by (simp add: put_be_def)

lemma get_be_Nil [simp]: "get_be [] = 0"
  by (simp add: get_be_def)

lemma foldl_get_be:
  "foldl (\<lambda>a b. a * 256 + unat (b::byte)) a bs = a * 256 ^ length bs + get_be bs"
proof (induction bs arbitrary: a)
  case Nil
  then show ?case by simp
next
  case (Cons b bs)
  show ?case
    unfolding get_be_def foldl_Cons Cons [of "a * 256 + unat b"] Cons [of "0 * 256 + unat b"]
    by (simp add: algebra_simps)
qed

lemma get_be_Cons: "get_be (b # bs) = unat b * 256 ^ length bs + get_be bs"
  unfolding get_be_def [of "b # bs"] foldl_Cons by (subst foldl_get_be) simp

lemma get_be_bound: "get_be bs < 256 ^ length bs"
proof (induction bs)
  case Nil
  then show ?case by simp
next
  case (Cons b bs)
  have "unat b \<le> 255" using unsigned_less [of b, where ?'a = nat] by simp
  then have "unat b * 256 ^ length bs \<le> 255 * 256 ^ length bs" by (rule mult_right_mono) simp
  with Cons have "unat b * 256 ^ length bs + get_be bs < 256 * 256 ^ length bs" by linarith
  then show ?case by (simp add: get_be_Cons)
qed

lemma get_put_be [codec_simps]: "get_be (put_be n x) = x mod 256 ^ n"
proof (induction n)
  case 0
  then show ?case by simp
next
  case (Suc n)
  have "x mod 256 ^ Suc n = x div 256 ^ n mod 256 * 256 ^ n + x mod 256 ^ n"
    by (metis add.commute mod_mult2_eq mult.commute power_Suc)
  with Suc show ?case by (simp add: put_be_Suc get_be_Cons unat_of_nat)
qed

lemma get_put_le [codec_simps]: "get_le (put_le n x) = x mod 256 ^ n"
  by (simp add: get_le_def put_le_def get_put_be)

lemma put_get_be: "length bs = n \<Longrightarrow> put_be n (get_be bs) = bs"
proof (induction bs arbitrary: n)
  case Nil
  then show ?case by simp
next
  case (Cons b bs)
  then obtain m where n: "n = Suc m" and m: "length bs = m" by auto
  have "put_be m (unat b * 256 ^ m + get_be bs) = put_be m (get_be bs)"
  proof -
    have "of_nat ((unat b * 256 ^ m + get_be bs) div 256 ^ i) = (of_nat (get_be bs div 256 ^ i) :: byte)"
      if "i < m" for i
    proof -
      obtain k where k: "m = i + Suc k" using \<open>i < m\<close> less_iff_Suc_add by auto
      have e: "unat b * 256 ^ m + get_be bs = get_be bs + 256 ^ i * (unat b * (256 * 256 ^ k))"
        by (simp add: k power_add ac_simps)
      have "(unat b * 256 ^ m + get_be bs) div 256 ^ i =
            unat b * (256 * 256 ^ k) + get_be bs div 256 ^ i"
        unfolding e by (rule div_mult_self2) simp
      then have "of_nat ((unat b * 256 ^ m + get_be bs) div 256 ^ i) =
            (of_nat (unat b) :: byte) * (of_nat 256 * of_nat (256 ^ k)) + of_nat (get_be bs div 256 ^ i)"
        by (simp only: of_nat_add of_nat_mult)
      moreover have "(of_nat 256 :: byte) = 0" by simp
      ultimately show ?thesis by (simp only: mult_zero_left mult_zero_right add_0)
    qed
    then show ?thesis by (auto simp: put_be_def)
  qed
  moreover have "(unat b * 256 ^ m + get_be bs) div 256 ^ m = unat b"
    using get_be_bound [of bs] m by simp
  ultimately show ?case
    using Cons.IH [OF m] by (simp add: n put_be_Suc get_be_Cons m)
qed

lemma get_put_i64 [codec_simps]: "is_i64 x \<Longrightarrow> get_i64 (put_i64 x) = x"
proof -
  assume x: "is_i64 x"
  have "nat (x mod 2 ^ 64) mod 256 ^ 8 = nat (x mod 2 ^ 64)"
    by (simp add: nat_mod_distrib)
  with wrap64_mod [OF x] show ?thesis
    by (simp add: get_i64_def put_i64_def get_put_be)
qed

lemma get_put_i64_le [codec_simps]: "is_i64 x \<Longrightarrow> get_i64_le (put_i64_le x) = x"
  using get_put_i64 [of x]
  by (simp add: get_i64_le_def put_i64_le_def get_i64_def put_i64_def get_put_be get_put_le)

lemma is_i64_get_i64 [simp]: "is_i64 (get_i64 b)"
  by (simp add: get_i64_def)

lemma length_get_be_less:
  "length xs = length ys \<Longrightarrow> xs < ys \<longleftrightarrow> get_be xs < get_be ys"
proof (induction xs ys rule: list_induct2)
  case Nil
  then show ?case by simp
next
  case (Cons x xs y ys)
  let ?p = "256 ^ length ys :: nat"
  have b: "get_be xs < ?p" "get_be ys < ?p"
    using get_be_bound [of xs] get_be_bound [of ys] Cons.hyps by simp_all
  have lt: "u * ?p + get_be us < v * ?p + get_be vs"
    if "u < v" "get_be us < ?p" for u v :: nat and us vs
  proof -
    have "u * ?p + get_be us < Suc u * ?p" using that by simp
    also have "\<dots> \<le> v * ?p" using that by (intro mult_right_mono) auto
    finally show ?thesis by simp
  qed
  consider "x < y" | "x = y" | "y < x" by fastforce
  then show ?case
  proof cases
    case 1
    with lt [of "unat x" "unat y" xs ys] b show ?thesis
      by (simp add: get_be_Cons Cons.hyps word_less_nat_alt)
  next
    case 2
    with Cons show ?thesis by (simp add: get_be_Cons)
  next
    case 3
    with lt [of "unat y" "unat x" ys xs] b show ?thesis
      by (auto simp add: get_be_Cons Cons.hyps word_less_nat_alt)
  qed
qed

lemma put_be_less_iff:
  "x < 256 ^ n \<Longrightarrow> y < 256 ^ n \<Longrightarrow> put_be n x < put_be n y \<longleftrightarrow> x < y"
  by (simp add: length_get_be_less get_put_be)

lemma put_be_inject:
  "x < 256 ^ n \<Longrightarrow> y < 256 ^ n \<Longrightarrow> put_be n x = put_be n y \<longleftrightarrow> x = y"
  by (metis get_put_be mod_less)

lemma append_less_append:
  "length xs = length ys \<Longrightarrow>
   xs @ us < ys @ vs \<longleftrightarrow> xs < ys \<or> xs = ys \<and> us < (vs :: 'a::linorder list)"
  by (induction xs ys rule: list_induct2) auto

lemma append_le_append:
  "length xs = length ys \<Longrightarrow>
   xs @ us \<le> ys @ vs \<longleftrightarrow> xs < ys \<or> xs = ys \<and> us \<le> (vs :: 'a::linorder list)"
  by (induction xs ys rule: list_induct2) auto

lemma put_i64_less_iff:
  "0 \<le> x \<Longrightarrow> is_i64 x \<Longrightarrow> 0 \<le> y \<Longrightarrow> is_i64 y \<Longrightarrow> put_i64 x < put_i64 y \<longleftrightarrow> x < y"
  by (auto simp add: put_i64_def is_i64_def put_be_less_iff)

lemma put_i64_inject: "is_i64 x \<Longrightarrow> is_i64 y \<Longrightarrow> put_i64 x = put_i64 y \<longleftrightarrow> x = y"
  by (metis get_put_i64)

end
