(* ===== verification/Wal_Entry.thy ===== *)
theory Wal_Entry
  imports T4_Prelude
begin

text \<open>
  The write-ahead log's record format, \<open>src/internal/wal/entry.go\<close>: the entry and transaction
  sub-operation structures, their byte encodings, the CRC-framed record and its reader.
  A buffer filled at fixed offsets is written as the concatenation of its fields, whose widths
  tile the buffer. A reader is the list of bytes still to be read; \<open>io.ReadFull\<close> on it fails
  exactly when fewer bytes remain than were asked for. A nil and an empty value are the same list.

  Lemmas: the encodings round-trip, a torn frame reads as end of file, and a corrupted
  payload byte is always caught by the checksum.
\<close>

section \<open>Entries\<close>

type_synonym op = byte

definition OpCreate :: op where "OpCreate = 1"
definition OpUpdate :: op where "OpUpdate = 2"
definition OpDelete :: op where "OpDelete = 3"
definition OpCompact :: op where "OpCompact = 4"
definition OpTxn :: op where "OpTxn = 5"

lemmas op_defs = OpCreate_def OpUpdate_def OpDelete_def OpCompact_def OpTxn_def

record entry =
  e_ID :: int
  e_Revision :: int
  e_Term :: nat
  e_Op :: op
  e_Key :: gostring
  e_Value :: bytes
  e_Lease :: int
  e_CreateRevision :: int
  e_PrevRevision :: int
  e_Version :: int

definition entry0 :: entry where
  "entry0 = \<lparr>e_ID = 0, e_Revision = 0, e_Term = 0, e_Op = 0, e_Key = [], e_Value = [], e_Lease = 0,
     e_CreateRevision = 0, e_PrevRevision = 0, e_Version = 0\<rparr>"

definition Sequence :: "entry \<Rightarrow> int" where
  "Sequence e = (if e_ID e \<noteq> 0 then e_ID e else e_Revision e)"

record txn_subop =
  so_Op :: op
  so_Key :: gostring
  so_Value :: bytes
  so_Lease :: int
  so_CreateRevision :: int
  so_PrevRevision :: int
  so_Version :: int

section \<open>Transaction payloads\<close>

definition txnOpsVersionedFlag :: "32 word" where
  "txnOpsVersionedFlag = 2147483648"

definition txnSubOpFixedSizeV1 :: nat where "txnSubOpFixedSizeV1 = 33"
definition txnSubOpFixedSize :: nat where "txnSubOpFixedSize = txnSubOpFixedSizeV1 + 8"

definition encodeSubOp :: "txn_subop \<Rightarrow> bytes" where
  "encodeSubOp s = [so_Op s] @ put_i64 (so_Lease s) @ put_i64 (so_CreateRevision s) @
     put_i64 (so_PrevRevision s) @ put_i64 (so_Version s) @
     put_be 4 (length (so_Key s)) @ put_be 4 (length (so_Value s)) @ so_Key s @ so_Value s"

definition EncodeTxnOps :: "txn_subop list \<Rightarrow> bytes" where
  "EncodeTxnOps ops =
     put_be 4 (unat (txnOpsVersionedFlag OR of_nat (length ops))) @ concat (map encodeSubOp ops)"

fun decodeSubOps :: "bool \<Rightarrow> nat \<Rightarrow> bytes \<Rightarrow> txn_subop list res" where
  "decodeSubOps versioned 0 r = Inr []"
| "decodeSubOps versioned (Suc n) r =
     (let fixedSize = (if versioned then txnSubOpFixedSize else txnSubOpFixedSizeV1) in
      if length r < fixedSize then Inl (Err ''wal: txn sub-op header truncated'')
      else
        let keyLenOffset = (if versioned then 33 else 25);
            keyLen = get_be (gslice r keyLenOffset (keyLenOffset + 4));
            valLen = get_be (gslice r (keyLenOffset + 4) (keyLenOffset + 8));
            p = drop fixedSize r
        in if length p < keyLen + valLen then Inl (Err ''wal: txn sub-op payload truncated'')
           else (case decodeSubOps versioned n (drop (keyLen + valLen) p) of
                   Inl e \<Rightarrow> Inl e
                 | Inr ops \<Rightarrow> Inr (\<lparr>so_Op = r ! 0,
                     so_Key = take keyLen p,
                     so_Value = gslice p keyLen (keyLen + valLen),
                     so_Lease = get_i64 (gslice r 1 9),
                     so_CreateRevision = get_i64 (gslice r 9 17),
                     so_PrevRevision = get_i64 (gslice r 17 25),
                     so_Version = (if versioned then get_i64 (gslice r 25 33) else 0)\<rparr> # ops)))"

definition DecodeTxnOps :: "bytes \<Rightarrow> txn_subop list res" where
  "DecodeTxnOps b =
     (if length b < 4 then Inl (Err ''wal: txn ops payload too short'')
      else let rawCount = (of_nat (get_be (gslice b 0 4)) :: 32 word);
               versioned = (rawCount AND txnOpsVersionedFlag \<noteq> 0);
               count = unat (rawCount AND NOT txnOpsVersionedFlag)
           in decodeSubOps versioned count (drop 4 b))"

section \<open>Checksum\<close>

text \<open>\<open>hash/crc32\<close> with the Castagnoli polynomial, bit by bit (the reflected algorithm).\<close>

definition crc_bit :: "32 word \<Rightarrow> 32 word" where
  "crc_bit c = (if bit c 0 then drop_bit 1 c XOR 2197175160 else drop_bit 1 c)"

definition crc_byte :: "32 word \<Rightarrow> byte \<Rightarrow> 32 word" where
  "crc_byte c b = (crc_bit ^^ 8) (c XOR ucast b)"

definition crc32c :: "bytes \<Rightarrow> 32 word" where
  "crc32c bs = NOT (foldl crc_byte (NOT 0) bs)"

section \<open>Records\<close>

definition entryFixedSizeV1 :: nat where "entryFixedSizeV1 = 49"
definition entryFixedSizeV3 :: nat where "entryFixedSizeV3 = 65"
definition WALFormatVersion :: int where "WALFormatVersion = 2"

definition marshalEntry :: "entry \<Rightarrow> bytes" where
  "marshalEntry e = [e_Op e] @ put_i64 (e_Revision e) @ put_be 8 (e_Term e) @ put_i64 (e_Lease e) @
     put_i64 (e_CreateRevision e) @ put_i64 (e_PrevRevision e) @ put_i64 (Sequence e) @
     put_i64 (e_Version e) @ put_be 4 (length (e_Key e)) @ put_be 4 (length (e_Value e)) @
     e_Key e @ e_Value e"

definition unmarshalEntryVersion :: "bytes \<Rightarrow> int \<Rightarrow> entry res" where
  "unmarshalEntryVersion b version =
     (if length b < entryFixedSizeV1 then Inl (Err ''wal: entry too short'')
      else if version \<ge> 2 \<and> length b < entryFixedSizeV3 then Inl (Err ''wal: v2 entry too short'')
      else
        let fixedSize = (if version \<ge> 2 then entryFixedSizeV3 else entryFixedSizeV1);
            keyLen = get_be (gslice b (fixedSize - 8) (fixedSize - 4));
            valLen = get_be (gslice b (fixedSize - 4) fixedSize);
            tail = drop fixedSize b
        in if length tail < keyLen + valLen then Inl (Err ''wal: entry payload truncated'')
           else Inr \<lparr>e_ID = (if version \<ge> 2 then get_i64 (gslice b 41 49) else 0),
             e_Revision = get_i64 (gslice b 1 9),
             e_Term = get_be (gslice b 9 17),
             e_Op = b ! 0,
             e_Key = take keyLen tail,
             e_Value = gslice tail keyLen (keyLen + valLen),
             e_Lease = get_i64 (gslice b 17 25),
             e_CreateRevision = get_i64 (gslice b 25 33),
             e_PrevRevision = get_i64 (gslice b 33 41),
             e_Version = (if version \<ge> 2 then get_i64 (gslice b 49 57) else 0)\<rparr>)"

definition AppendEntry :: "bytes \<Rightarrow> entry \<Rightarrow> bytes" where
  "AppendEntry w e =
     (let payload = marshalEntry e
      in w @ put_be 4 (length payload) @ put_be 4 (unat (crc32c payload)) @ payload)"

definition ReadEntryVersion :: "bytes \<Rightarrow> int \<Rightarrow> (entry \<times> bytes) res" where
  "ReadEntryVersion r version =
     (if length r < 8 then Inl IoEOF
      else
        let payloadLen = get_be (gslice r 0 4);
            wantCRC = get_be (gslice r 4 8);
            rest = drop 8 r
        in if length rest < payloadLen then Inl IoEOF
           else
             let payload = take payloadLen rest in
             if unat (crc32c payload) \<noteq> wantCRC then Inl (Err ''wal: CRC mismatch'')
             else (case unmarshalEntryVersion payload version of
                     Inl e \<Rightarrow> Inl e
                   | Inr e \<Rightarrow> Inr (e, drop payloadLen rest)))"

definition ReadEntry :: "bytes \<Rightarrow> (entry \<times> bytes) res" where
  "ReadEntry r = ReadEntryVersion r WALFormatVersion"

section \<open>Well-formed records\<close>

text \<open>The field ranges that Go's types impose, and frames shorter than 4 GiB (lengths are \<open>uint32\<close>).\<close>

definition entry_ok :: "entry \<Rightarrow> bool" where
  "entry_ok e \<longleftrightarrow> is_i64 (e_ID e) \<and> is_i64 (e_Revision e) \<and> is_u64 (e_Term e) \<and> is_i64 (e_Lease e) \<and>
     is_i64 (e_CreateRevision e) \<and> is_i64 (e_PrevRevision e) \<and> is_i64 (e_Version e) \<and>
     65 + length (e_Key e) + length (e_Value e) < 2 ^ 32"

definition subop_ok :: "txn_subop \<Rightarrow> bool" where
  "subop_ok s \<longleftrightarrow> is_i64 (so_Lease s) \<and> is_i64 (so_CreateRevision s) \<and> is_i64 (so_PrevRevision s) \<and>
     is_i64 (so_Version s) \<and> length (so_Key s) < 2 ^ 32 \<and> length (so_Value s) < 2 ^ 32"

section \<open>Record round trips\<close>

lemmas gslice_simps = gslice_append_skip gslice_append_take gslice_exact

lemma length_marshalEntry [simp]:
  "length (marshalEntry e) = 65 + length (e_Key e) + length (e_Value e)"
  by (simp add: marshalEntry_def)

lemma is_i64_Sequence: "entry_ok e \<Longrightarrow> is_i64 (Sequence e)"
  by (simp add: entry_ok_def Sequence_def)

lemma unmarshal_marshal_entry:
  assumes "entry_ok e"
  shows "unmarshalEntryVersion (marshalEntry e) 2 = Inr (e\<lparr>e_ID := Sequence e\<rparr>)"
proof -
  let ?b = "marshalEntry e"
  have kv: "length (e_Key e) < 4294967296" "length (e_Value e) < 4294967296"
    using assms by (simp_all add: entry_ok_def)
  note seq = is_i64_Sequence [OF assms]
  have f: "gslice ?b (Suc 0) 9 = put_i64 (e_Revision e)" "gslice ?b 9 17 = put_be 8 (e_Term e)"
    "gslice ?b 17 25 = put_i64 (e_Lease e)" "gslice ?b 25 33 = put_i64 (e_CreateRevision e)"
    "gslice ?b 33 41 = put_i64 (e_PrevRevision e)" "gslice ?b 41 49 = put_i64 (Sequence e)"
    "gslice ?b 49 57 = put_i64 (e_Version e)" "gslice ?b 57 61 = put_be 4 (length (e_Key e))"
    "gslice ?b 61 65 = put_be 4 (length (e_Value e))" "drop 65 ?b = e_Key e @ e_Value e"
    unfolding marshalEntry_def by (simp_all add: gslice_simps del: append_Cons)
  have o: "?b ! 0 = e_Op e" by (simp add: marshalEntry_def)
  show ?thesis
    using assms kv seq
    by (simp add: unmarshalEntryVersion_def f o entryFixedSizeV1_def entryFixedSizeV3_def codec_simps
        entry_ok_def is_u64_def gslice_simps)
qed

lemma length_encodeSubOp [simp]: "length (encodeSubOp s) = 41 + length (so_Key s) + length (so_Value s)"
  by (simp add: encodeSubOp_def)

lemma decodeSubOps_encode:
  "\<forall>s \<in> set ops. subop_ok s \<Longrightarrow> decodeSubOps True (length ops) (concat (map encodeSubOp ops) @ rest) = Inr ops"
proof (induction ops)
  case Nil
  then show ?case by simp
next
  case (Cons s ops)
  let ?t = "concat (map encodeSubOp ops) @ rest"
  let ?b = "encodeSubOp s @ ?t"
  have f: "gslice ?b (Suc 0) 9 = put_i64 (so_Lease s)" "gslice ?b 9 17 = put_i64 (so_CreateRevision s)"
    "gslice ?b 17 25 = put_i64 (so_PrevRevision s)" "gslice ?b 25 33 = put_i64 (so_Version s)"
    "gslice ?b 33 37 = put_be 4 (length (so_Key s))" "gslice ?b 37 41 = put_be 4 (length (so_Value s))"
    "drop 41 ?b = so_Key s @ so_Value s @ ?t"
    unfolding encodeSubOp_def [of s] by (simp_all add: gslice_simps del: append_Cons)
  have o: "?b ! 0 = so_Op s" by (simp add: encodeSubOp_def)
  have d: "drop 41 (encodeSubOp s) = so_Key s @ so_Value s"
    by (simp add: encodeSubOp_def)
  from Cons show ?case
    by (simp add: f o d txnSubOpFixedSize_def txnSubOpFixedSizeV1_def codec_simps subop_ok_def Let_def gslice_simps)
qed

lemma txn_flag_bits:
  assumes "n < 2147483648"
  shows "(txnOpsVersionedFlag OR of_nat n) AND NOT txnOpsVersionedFlag = (of_nat n :: 32 word)"
    and "(txnOpsVersionedFlag OR of_nat n) AND txnOpsVersionedFlag \<noteq> (0 :: 32 word)"
proof -
  have p: "txnOpsVersionedFlag = push_bit 31 1" by (simp add: txnOpsVersionedFlag_def)
  have f: "bit txnOpsVersionedFlag k \<longleftrightarrow> k = 31" for k
    unfolding p bit_push_bit_iff bit_1_iff by auto
  have b: "\<not> bit (of_nat n :: 32 word) 31"
  proof -
    have "bit (of_nat n :: 32 word) 31 = bit (unat (of_nat n :: 32 word)) 31"
      by (simp add: bit_unsigned_iff)
    also have "\<dots> = odd (n div 2147483648)"
      using assms by (simp add: unat_of_nat bit_iff_odd)
    finally show ?thesis using assms by simp
  qed
  show "(txnOpsVersionedFlag OR of_nat n) AND NOT txnOpsVersionedFlag = (of_nat n :: 32 word)"
    by (rule bit_eqI) (use b in \<open>auto simp: f bit_simps\<close>)
  have "bit ((txnOpsVersionedFlag OR of_nat n) AND txnOpsVersionedFlag :: 32 word) 31"
    by (simp add: f bit_simps)
  then show "(txnOpsVersionedFlag OR of_nat n) AND txnOpsVersionedFlag \<noteq> (0 :: 32 word)"
    by auto
qed

lemma DecodeTxnOps_EncodeTxnOps:
  assumes "length ops < 2 ^ 31" and "\<forall>s \<in> set ops. subop_ok s"
  shows "DecodeTxnOps (EncodeTxnOps ops) = Inr ops"
proof -
  have u: "unat (w :: 32 word) mod 4294967296 = unat w" for w
    using unsigned_less [of w, where ?'a = nat] by simp
  show ?thesis
    using assms decodeSubOps_encode [of ops "[]"] txn_flag_bits [of "length ops"]
    by (simp add: DecodeTxnOps_def EncodeTxnOps_def gslice_simps codec_simps u Let_def unat_of_nat)
qed

section \<open>Framing\<close>

lemma AppendEntry_split: "AppendEntry w e = w @ AppendEntry [] e"
  by (simp add: AppendEntry_def Let_def)

lemma length_AppendEntry: "length (AppendEntry [] e) = 73 + length (e_Key e) + length (e_Value e)"
  by (simp add: AppendEntry_def Let_def)

lemma ReadEntry_frame:
  assumes "length p < 2 ^ 32"
  shows "ReadEntryVersion (put_be 4 (length p) @ put_be 4 c @ p @ rest) v =
    (if unat (crc32c p) \<noteq> c mod 2 ^ 32 then Inl (Err ''wal: CRC mismatch'')
     else (case unmarshalEntryVersion p v of Inl e \<Rightarrow> Inl e | Inr e \<Rightarrow> Inr (e, rest)))"
  using assms by (simp add: ReadEntryVersion_def gslice_simps codec_simps Let_def split: sum.split)

lemma ReadEntry_AppendEntry:
  assumes "entry_ok e"
  shows "ReadEntryVersion (AppendEntry [] e @ rest) 2 = Inr (e\<lparr>e_ID := Sequence e\<rparr>, rest)"
proof -
  have "length (marshalEntry e) < 2 ^ 32" using assms by (simp add: entry_ok_def)
  note R = ReadEntry_frame [OF this]
  have "unat (crc32c (marshalEntry e)) < 4294967296"
    using unsigned_less [of "crc32c (marshalEntry e)", where ?'a = nat] by simp
  then show ?thesis
    by (simp add: AppendEntry_def Let_def R unmarshal_marshal_entry [OF assms] del: length_marshalEntry)
qed

lemma ReadEntry_torn:
  assumes "entry_ok e" and "strict_prefix q (AppendEntry [] e)"
  shows "ReadEntryVersion q v = Inl IoEOF"
proof (cases "length q < 8")
  case True
  then show ?thesis by (simp add: ReadEntryVersion_def)
next
  case False
  let ?p = "marshalEntry e" and ?h = "put_be 4 (length (marshalEntry e)) @ put_be 4 (unat (crc32c (marshalEntry e)))"
  have l: "length ?p < 2 ^ 32" using assms(1) by (simp add: entry_ok_def)
  have "prefix q (?h @ ?p)" using assms(2) by (simp add: AppendEntry_def Let_def strict_prefix_def)
  from prefix_append_long [OF this] False obtain t where q: "q = ?h @ t" by fastforce
  from assms(2) q have "length t < length ?p"
    using prefix_length_less [OF assms(2)] by (simp add: AppendEntry_def Let_def)
  with l q show ?thesis
    by (simp add: ReadEntryVersion_def gslice_simps codec_simps Let_def)
qed

section \<open>The checksum catches a corrupted byte\<close>

lemma crc_bit_inject: "crc_bit c = crc_bit d \<Longrightarrow> c = d"
proof -
  assume eq: "crc_bit c = crc_bit d"
  have top: "bit (crc_bit x) 31 \<longleftrightarrow> bit x 0" for x :: "32 word"
    by (auto simp add: crc_bit_def bit_simps dest: bit_imp_le_length)
  have low: "bit c 0 = bit d 0" using eq top by metis
  have "drop_bit 1 c = drop_bit 1 d"
  proof (cases "bit c 0")
    case True
    with eq low have "drop_bit 1 c XOR 2197175160 = drop_bit 1 d XOR (2197175160 :: 32 word)"
      by (simp add: crc_bit_def)
    then have "(drop_bit 1 c XOR 2197175160) XOR 2197175160 = (drop_bit 1 d XOR 2197175160) XOR (2197175160 :: 32 word)"
      by simp
    then show ?thesis by (simp add: xor.assoc)
  next
    case False
    with eq low show ?thesis by (simp add: crc_bit_def)
  qed
  then have h: "bit c (Suc n) = bit d (Suc n)" if "Suc n < 32" for n
    using that by (metis bit_drop_bit_eq comp_apply plus_1_eq_Suc)
  show "c = d"
  proof (rule bit_word_eqI)
    fix n assume "n < LENGTH(32)"
    then show "bit c n = bit d n" using h low by (cases n) auto
  qed
qed

lemma crc_byte_inject: "crc_byte c a = crc_byte d b \<Longrightarrow> c XOR ucast a = d XOR ucast b"
proof -
  have "(crc_bit ^^ n) x = (crc_bit ^^ n) y \<Longrightarrow> x = y" for n x y
    by (induction n) (auto dest: crc_bit_inject)
  then show "crc_byte c a = crc_byte d b \<Longrightarrow> c XOR ucast a = d XOR ucast b"
    unfolding crc_byte_def by blast
qed

lemma xor_cancel_right: "x XOR z = y XOR z \<Longrightarrow> x = (y :: 'a::len word)"
  by (metis xor.assoc xor.right_neutral xor_self_eq)

lemma crc_foldl_inject: "foldl crc_byte c s = foldl crc_byte d s \<Longrightarrow> c = d"
  by (induction s arbitrary: c d) (auto dest!: crc_byte_inject xor_cancel_right)

lemma crc32c_single_byte:
  assumes "a \<noteq> b"
  shows "crc32c (p @ a # s) \<noteq> crc32c (p @ b # s)"
proof
  assume "crc32c (p @ a # s) = crc32c (p @ b # s)"
  then have "NOT (crc32c (p @ a # s)) = NOT (crc32c (p @ b # s))" by simp
  then have "foldl crc_byte (crc_byte (foldl crc_byte (NOT 0) p) a) s =
        foldl crc_byte (crc_byte (foldl crc_byte (NOT 0) p) b) s"
    by (simp add: crc32c_def)
  then have "ucast a = (ucast b :: 32 word)"
    by (metis crc_foldl_inject crc_byte_inject xor_cancel_right xor.commute)
  then have "bit (ucast a :: 32 word) n = bit (ucast b :: 32 word) n" for n by simp
  then have "a = b" by (intro bit_word_eqI) (fastforce simp: bit_ucast_iff)
  with assms show False by simp
qed

lemma frame_update:
  assumes "entry_ok e" and "4 \<le> i" and "i < length (AppendEntry [] e)"
    and "b \<noteq> AppendEntry [] e ! i"
  obtains c p where "(AppendEntry [] e)[i := b] = put_be 4 (length (marshalEntry e)) @ put_be 4 c @ p"
    and "length p = length (marshalEntry e)" and "unat (crc32c p) \<noteq> c mod 2 ^ 32"
proof -
  let ?m = "marshalEntry e" and ?c = "unat (crc32c (marshalEntry e))"
  have F: "AppendEntry [] e = put_be 4 (length ?m) @ put_be 4 ?c @ ?m"
    by (simp add: AppendEntry_def Let_def)
  have cb: "?c < 4294967296" using unsigned_less [of "crc32c ?m", where ?'a = nat] by simp
  show ?thesis
  proof (cases "i < 8")
    case True
    define j where "j = i - 4"
    have j: "i = 4 + j" "j < 4" using True assms(2) by (simp_all add: j_def)
    let ?q = "(put_be 4 ?c)[j := b]"
    have q: "put_be 4 (get_be ?q) = ?q" by (rule put_get_be) simp
    have "put_be 4 ?c ! j \<noteq> ?q ! j"
      using assms(4) by (simp add: F nth_append j)
    then have "get_be ?q \<noteq> ?c" using q by metis
    moreover have "get_be ?q < 4294967296" using get_be_bound [of ?q] by simp
    ultimately show ?thesis using that [of "get_be ?q" ?m] j(2) by (simp add: F list_update_append q j(1))
  next
    case False
    define k where "k = i - 8"
    have k: "i = 8 + k" using False by (simp add: k_def)
    have l: "k < length ?m" using assms(3) by (simp add: F k)
    have b: "b \<noteq> ?m ! k" using assms(4) by (simp add: F nth_append k)
    have "?m = take k ?m @ ?m ! k # drop (Suc k) ?m" by (rule id_take_nth_drop [OF l])
    moreover have "?m[k := b] = take k ?m @ b # drop (Suc k) ?m" by (rule upd_conv_take_nth_drop [OF l])
    ultimately have "crc32c ?m \<noteq> crc32c (?m[k := b])" using crc32c_single_byte [OF b [symmetric]] by metis
    then have "unat (crc32c (?m[k := b])) \<noteq> ?c" by (metis word_unat_eq_iff)
    with cb that [of ?c "?m[k := b]"] show ?thesis
      by (simp add: F list_update_append k)
  qed
qed

section \<open>Properties\<close>

text \<open>C28: what \<open>AppendEntry\<close> writes, \<open>ReadEntry\<close> reads back: the same entry with its sequence number
  made explicit, and the reader stands just behind the frame whatever follows it.\<close>

theorem wal_entry_roundtrip:
  assumes "entry_ok e"
  shows "ReadEntry (AppendEntry [] e @ rest) = Inr (e\<lparr>e_ID := Sequence e\<rparr>, rest)"
  using ReadEntry_AppendEntry [OF assms] by (simp add: ReadEntry_def WALFormatVersion_def)

theorem wal_entry_roundtrip_witness:
  "ReadEntry (AppendEntry [] (entry0\<lparr>e_Revision := 7, e_Key := [1, 2], e_Value := [3]\<rparr>) @ [9]) =
     Inr (entry0\<lparr>e_ID := 7, e_Revision := 7, e_Key := [1, 2], e_Value := [3]\<rparr>, [9])"
  using wal_entry_roundtrip [of "entry0\<lparr>e_Revision := 7, e_Key := [1, 2], e_Value := [3]\<rparr>" "[9]"]
  by (simp add: entry_ok_def entry0_def is_i64_def is_u64_def Sequence_def)

text \<open>C29: a single corrupted byte anywhere behind the length field of a frame (in the stored checksum or
  in the payload) is reported as a checksum mismatch and never decoded into an entry.\<close>

theorem wal_corruption_detected:
  assumes "entry_ok e" and "4 \<le> i" and "i < length (AppendEntry [] e)"
    and "b \<noteq> AppendEntry [] e ! i"
  shows "ReadEntry ((AppendEntry [] e)[i := b] @ rest) = Inl (Err ''wal: CRC mismatch'')"
proof -
  obtain c p where f: "(AppendEntry [] e)[i := b] = put_be 4 (length (marshalEntry e)) @ put_be 4 c @ p"
    and l: "length p = length (marshalEntry e)" and c: "unat (crc32c p) \<noteq> c mod 2 ^ 32"
    using frame_update [OF assms] by blast
  have "length p < 2 ^ 32" using assms(1) l by (simp add: entry_ok_def)
  from ReadEntry_frame [OF this, of c rest] c show ?thesis
    by (simp add: f l ReadEntry_def del: length_marshalEntry)
qed

theorem wal_corruption_detected_witness:
  "ReadEntry ((AppendEntry [] entry0)[8 := 1] @ []) = Inl (Err ''wal: CRC mismatch'')"
  by (rule wal_corruption_detected)
    (simp_all add: entry_ok_def entry0_def is_i64_def is_u64_def AppendEntry_def Let_def marshalEntry_def nth_append)

text \<open>The payload of a transaction entry decodes to the sub-operations it was encoded from.\<close>

theorem wal_txn_roundtrip:
  assumes "length ops < 2 ^ 31" and "\<forall>s \<in> set ops. subop_ok s"
  shows "DecodeTxnOps (EncodeTxnOps ops) = Inr ops"
  using assms by (rule DecodeTxnOps_EncodeTxnOps)

theorem wal_txn_roundtrip_witness:
  "DecodeTxnOps (EncodeTxnOps [\<lparr>so_Op = OpDelete, so_Key = [5], so_Value = [], so_Lease = -1,
     so_CreateRevision = 2, so_PrevRevision = 3, so_Version = 4\<rparr>]) =
   Inr [\<lparr>so_Op = OpDelete, so_Key = [5], so_Value = [], so_Lease = -1,
     so_CreateRevision = 2, so_PrevRevision = 3, so_Version = 4\<rparr>]"
  by (rule wal_txn_roundtrip) (simp_all add: subop_ok_def is_i64_def)

end
