(* ===== verification/Go_Strings.thy ===== *)
theory Go_Strings
  imports T4_Prelude
begin

text \<open>
  The parts of Go's \<open>strings\<close>, \<open>fmt\<close> and \<open>strconv\<close> packages that the source uses to build and
  take apart segment names and object keys: splitting at a byte, trimming, zero-padded decimals
  (\<open>%0Nd\<close>) and the base-10 parsers with their 64-bit range checks.

  Lemmas: padded decimals parse back, order lexicographically as the numbers do, and never
  contain a separator.
\<close>

section \<open>Strings\<close>

definition HasPrefix :: "gostring \<Rightarrow> gostring \<Rightarrow> bool" where
  "HasPrefix s p = (take (length p) s = p)"

definition HasSuffix :: "gostring \<Rightarrow> gostring \<Rightarrow> bool" where
  "HasSuffix s p = (length p \<le> length s \<and> drop (length s - length p) s = p)"

definition TrimSuffix :: "gostring \<Rightarrow> gostring \<Rightarrow> gostring" where
  "TrimSuffix s p = (if HasSuffix s p then take (length s - length p) s else s)"

definition TrimPrefix :: "gostring \<Rightarrow> gostring \<Rightarrow> gostring" where
  "TrimPrefix s p = (if HasPrefix s p then drop (length p) s else s)"

text \<open>\<open>strings.TrimLeft(s, "0")\<close>.\<close>

definition TrimLeft0 :: "gostring \<Rightarrow> gostring" where
  "TrimLeft0 s = dropWhile (\<lambda>c. c = 48) s"

fun IndexByte :: "gostring \<Rightarrow> byte \<Rightarrow> nat option" where
  "IndexByte [] c = None"
| "IndexByte (x # xs) c = (if x = c then Some 0 else map_option Suc (IndexByte xs c))"

text \<open>\<open>strings.Split\<close> and \<open>strings.SplitN\<close> at a one-byte separator.\<close>

fun SplitByte :: "gostring \<Rightarrow> byte \<Rightarrow> gostring list" where
  "SplitByte [] c = [[]]"
| "SplitByte (x # xs) c =
     (if x = c then [] # SplitByte xs c
      else case SplitByte xs c of [] \<Rightarrow> [[x]] | y # ys \<Rightarrow> (x # y) # ys)"

fun SplitNByte :: "gostring \<Rightarrow> byte \<Rightarrow> nat \<Rightarrow> gostring list" where
  "SplitNByte s c 0 = []"
| "SplitNByte s c (Suc 0) = [s]"
| "SplitNByte s c (Suc (Suc n)) =
     (if c \<in> set s
      then takeWhile (\<lambda>x. x \<noteq> c) s # SplitNByte (tl (dropWhile (\<lambda>x. x \<noteq> c) s)) c (Suc n)
      else [s])"

section \<open>Decimals\<close>

definition put_dec :: "nat \<Rightarrow> nat \<Rightarrow> gostring" where
  "put_dec w n = map (\<lambda>i. 48 + of_nat (n div 10 ^ i mod 10)) (rev [0..<w])"

fun ndigits :: "nat \<Rightarrow> nat" where
  "ndigits n = (if n < 10 then 1 else Suc (ndigits (n div 10)))"

declare ndigits.simps [simp del]

text \<open>\<open>%0wd\<close> of an unsigned and of a signed integer; the sign counts in the width.\<close>

definition fmt_0u :: "nat \<Rightarrow> nat \<Rightarrow> gostring" where
  "fmt_0u w n = put_dec (max w (ndigits n)) n"

definition fmt_0d :: "nat \<Rightarrow> int \<Rightarrow> gostring" where
  "fmt_0d w x = (if x < 0 then 45 # fmt_0u (w - 1) (nat (- x)) else fmt_0u w (nat x))"

definition err_syntax :: goerr where "err_syntax = Err ''invalid syntax''"
definition err_range :: goerr where "err_range = Err ''value out of range''"

fun parse_digits :: "nat \<Rightarrow> gostring \<Rightarrow> nat \<times> goerr option" where
  "parse_digits n [] = (n, None)"
| "parse_digits n (c # cs) =
     (if c < 48 \<or> 57 < c then (0, Some err_syntax)
      else if n \<ge> 1844674407370955162 then (2 ^ 64 - 1, Some err_range)
      else let n1 = n * 10 + unat (c - 48)
           in if n1 \<ge> 2 ^ 64 then (2 ^ 64 - 1, Some err_range) else parse_digits n1 cs)"

definition ParseUint :: "gostring \<Rightarrow> nat \<times> goerr option" where
  "ParseUint s = (if s = [] then (0, Some err_syntax) else parse_digits 0 s)"

definition ParseInt :: "gostring \<Rightarrow> int \<times> goerr option" where
  "ParseInt s =
     (if s = [] then (0, Some err_syntax)
      else
        let neg = (hd s = 45);
            s' = (if hd s = 43 \<or> hd s = 45 then tl s else s)
        in case ParseUint s' of (un, err) \<Rightarrow>
             if err \<noteq> None \<and> err \<noteq> Some err_range then (0, err)
             else if \<not> neg \<and> un \<ge> 2 ^ 63 then (2 ^ 63 - 1, Some err_range)
             else if neg \<and> un > 2 ^ 63 then (- (2 ^ 63), Some err_range)
             else (if neg then - int un else int un, None))"

section \<open>Lemmas on strings\<close>

lemma HasPrefix_iff: "HasPrefix s p \<longleftrightarrow> prefix p s"
  by (metis HasPrefix_def append_eq_conv_conj prefix_def append_take_drop_id)

lemma HasSuffix_append [simp]: "HasSuffix (s @ p) p"
  by (simp add: HasSuffix_def)

lemma TrimSuffix_append [simp]: "TrimSuffix (s @ p) p = s"
  by (simp add: TrimSuffix_def)

lemma IndexByte_append: "c \<notin> set s \<Longrightarrow> IndexByte (s @ c # t) c = Some (length s)"
  by (induction s) auto

lemma SplitByte_none: "c \<notin> set s \<Longrightarrow> SplitByte s c = [s]"
  by (induction s) auto

lemma SplitByte_append: "c \<notin> set s \<Longrightarrow> SplitByte (s @ c # t) c = s # SplitByte t c"
  by (induction s) auto

lemma SplitNByte_append:
  "c \<notin> set s \<Longrightarrow> SplitNByte (s @ c # t) c (Suc (Suc n)) = s # SplitNByte t c (Suc n)"
  by (auto simp: takeWhile_append dropWhile_append)

section \<open>Lemmas on decimals\<close>

lemma length_put_dec [simp]: "length (put_dec w n) = w"
  by (simp add: put_dec_def)

lemma put_dec_0 [simp]: "put_dec 0 n = []"
  by (simp add: put_dec_def)

lemma put_dec_Suc: "put_dec (Suc w) n = (48 + of_nat (n div 10 ^ w mod 10)) # put_dec w n"
  by (simp add: put_dec_def)

lemma ndigits_pos [simp]: "0 < ndigits n"
  by (subst ndigits.simps) simp

lemma ndigits_bound: "n < 10 ^ ndigits n"
proof (induction n rule: ndigits.induct)
  case (1 n)
  show ?case
  proof (cases "n < 10")
    case True
    then show ?thesis by (subst ndigits.simps) simp
  next
    case False
    with 1 have "n div 10 < 10 ^ ndigits (n div 10)" by simp
    then have "n < 10 * 10 ^ ndigits (n div 10)" by linarith
    with False show ?thesis by (subst ndigits.simps) simp
  qed
qed

lemma fmt_0u_bound: "n < 10 ^ max w (ndigits n)"
  by (meson less_le_trans max.cobounded2 ndigits_bound one_le_numeral power_increasing)

lemma digit_props:
  assumes "d < 10"
  shows "unat (48 + of_nat d :: byte) = 48 + d"
proof -
  have "unat (of_nat (48 + d) :: byte) = 48 + d" using assms by (simp only: unat_of_nat) simp
  then show ?thesis by simp
qed

lemma put_dec_chars: "c \<in> set (put_dec w n) \<Longrightarrow> 48 \<le> c \<and> c \<le> 57"
proof -
  assume "c \<in> set (put_dec w n)"
  then obtain d where "c = 48 + of_nat d" "d < 10" by (auto simp: put_dec_def)
  with digit_props [of d] show ?thesis by (simp add: word_le_nat_alt)
qed

lemma mod_Suc_power10: "x mod 10 ^ Suc w = x div 10 ^ w mod 10 * 10 ^ w + x mod (10 ^ w :: nat)"
  by (metis add.commute mod_mult2_eq mult.commute power_Suc)

lemma parse_put_dec:
  "n * 10 ^ w + x mod 10 ^ w < 2 ^ 64 \<Longrightarrow> parse_digits n (put_dec w x) = (n * 10 ^ w + x mod 10 ^ w, None)"
proof (induction w arbitrary: n)
  case 0
  then show ?case by simp
next
  case (Suc w)
  let ?d = "x div 10 ^ w mod 10"
  have e: "n * 10 ^ Suc w + x mod 10 ^ Suc w = (n * 10 + ?d) * 10 ^ w + x mod 10 ^ w"
    by (simp only: mod_Suc_power10) (simp add: algebra_simps)
  have u: "unat (48 + of_nat ?d :: byte) = 48 + ?d" by (rule digit_props) simp
  then have c: "\<not> (48 + of_nat ?d :: byte) < 48" "\<not> 57 < (48 + of_nat ?d :: byte)"
    by (simp_all add: word_less_nat_alt)
  have v: "unat (of_nat ?d :: byte) = ?d" by (simp add: unat_of_nat)
  have "n * 10 + ?d \<le> (n * 10 + ?d) * 10 ^ w" by simp
  also have "\<dots> \<le> (n * 10 + ?d) * 10 ^ w + x mod 10 ^ w" by (rule le_add1)
  also have "\<dots> < 2 ^ 64" using Suc.prems unfolding e .
  finally have b: "n * 10 + ?d < 2 ^ 64" .
  then have "n < 1844674407370955162" by simp
  with b c v Suc.IH [of "n * 10 + ?d"] Suc.prems show ?case
    unfolding e by (simp add: put_dec_Suc del: power_Suc)
qed

lemma ParseUint_fmt [simp]: "n < 2 ^ 64 \<Longrightarrow> ParseUint (fmt_0u w n) = (n, None)"
  using parse_put_dec [of 0 "max w (ndigits n)" n] fmt_0u_bound [of n w]
  by (auto simp: ParseUint_def fmt_0u_def simp flip: length_0_conv simp: max_def)

lemma fmt_0u_chars: "c \<in> set (fmt_0u w n) \<Longrightarrow> 48 \<le> c \<and> c \<le> 57"
  unfolding fmt_0u_def by (rule put_dec_chars)

lemma fmt_0u_nonempty [simp]: "fmt_0u w n \<noteq> []"
  by (simp add: fmt_0u_def max_def flip: length_0_conv)

lemma hd_fmt_0u: "hd (fmt_0u w n) \<noteq> 45" "hd (fmt_0u w n) \<noteq> 43"
  using fmt_0u_chars [OF hd_in_set [OF fmt_0u_nonempty [of w n]]] by auto

lemma ParseInt_fmt [simp]: "is_i64 x \<Longrightarrow> ParseInt (fmt_0d w x) = (x, None)"
  using hd_fmt_0u [of w "nat x"]
  by (auto simp: ParseInt_def fmt_0d_def is_i64_def Let_def)

lemma fmt_0d_chars: "c \<in> set (fmt_0d w x) \<Longrightarrow> c = 45 \<or> 48 \<le> c \<and> c \<le> 57"
  by (auto simp: fmt_0d_def split: if_splits dest: fmt_0u_chars)

lemma fmt_0d_nonempty [simp]: "fmt_0d w n \<noteq> []"
  by (simp add: fmt_0d_def)

lemma put_dec_mod: "put_dec w (n mod 10 ^ w) = put_dec w n"
proof -
  have "n mod 10 ^ w div 10 ^ i mod 10 = n div 10 ^ i mod 10" if "i < w" for i
  proof -
    obtain k where k: "w = i + Suc k" using \<open>i < w\<close> by (auto dest: less_imp_Suc_add)
    have "n mod 10 ^ w div 10 ^ i = n div 10 ^ i mod 10 ^ Suc k"
      unfolding k power_add by (simp add: mod_mult2_eq)
    moreover have "(10 :: nat) dvd 10 ^ Suc k" by simp
    ultimately show ?thesis by (simp only: mod_mod_cancel)
  qed
  then show ?thesis by (auto simp: put_dec_def)
qed

lemma less_div_mod:
  "m < n \<longleftrightarrow> m div p < n div p \<or> m div p = n div p \<and> m mod p < n mod (p :: nat)"
proof (cases "m div p" "n div p" rule: linorder_cases)
  case less
  moreover have "m < n" using less div_le_mono [of n m p] by linarith
  ultimately show ?thesis by simp
next
  case equal
  then show ?thesis
    using div_mult_mod_eq [of m p] div_mult_mod_eq [of n p] by (metis nat_add_left_cancel_less less_irrefl)
next
  case greater
  moreover have "n < m" using greater div_le_mono [of m n p] by linarith
  ultimately show ?thesis by simp
qed

text \<open>Equally wide decimals compare as strings the way the numbers do.\<close>

lemma put_dec_less_iff:
  "m < 10 ^ w \<Longrightarrow> n < 10 ^ w \<Longrightarrow> put_dec w m < put_dec w n \<longleftrightarrow> m < n"
proof (induction w arbitrary: m n)
  case 0
  then show ?case by simp
next
  case (Suc w)
  let ?p = "10 ^ w :: nat"
  have d: "m div ?p < 10" "n div ?p < 10"
    using Suc.prems by (simp_all add: less_mult_imp_div_less mult.commute)
  have IH: "put_dec w m < put_dec w n \<longleftrightarrow> m mod ?p < n mod ?p"
    using Suc.IH [of "m mod ?p" "n mod ?p"] by (simp add: put_dec_mod)
  have lt: "(48 + of_nat x < (48 + of_nat y :: byte)) = (x < y)" if "x < 10" "y < 10" for x y
    using that by (simp add: word_less_nat_alt digit_props)
  have eq: "(of_nat x = (of_nat y :: byte)) = (x = y)" if "x < 10" "y < 10" for x y
    using digit_props [OF that(1)] digit_props [OF that(2)] by (metis add_left_cancel)
  note less_div_mod [of m n ?p]
  with d show ?case by (simp add: put_dec_Suc lt eq IH)
qed

lemma put_dec_inject: "m < 10 ^ w \<Longrightarrow> n < 10 ^ w \<Longrightarrow> put_dec w m = put_dec w n \<longleftrightarrow> m = n"
  using put_dec_less_iff [of m w n] put_dec_less_iff [of n w m] by (metis less_irrefl linorder_neqE_nat)

lemma fmt_0u_width: "0 < w \<Longrightarrow> n < 10 ^ w \<Longrightarrow> fmt_0u w n = put_dec w n"
proof -
  have "n < 10 ^ w \<Longrightarrow> 0 < w \<Longrightarrow> ndigits n \<le> w" for w
  proof (induction n arbitrary: w rule: ndigits.induct)
    case (1 n)
    then obtain v where w: "w = Suc v" using gr0_conv_Suc by blast
    show ?case
    proof (cases "n < 10")
      case True
      with w show ?thesis by (subst ndigits.simps) simp
    next
      case False
      with 1(2) w have "n div 10 < 10 ^ v" "0 < v" by (auto intro: Nat.gr0I)
      with 1(1) False w show ?thesis by (subst ndigits.simps) simp
    qed
  qed
  then show "0 < w \<Longrightarrow> n < 10 ^ w \<Longrightarrow> fmt_0u w n = put_dec w n"
    by (simp add: fmt_0u_def max_absorb1)
qed

lemma parse_digits_TrimLeft0: "parse_digits 0 (TrimLeft0 s) = parse_digits 0 s"
  by (induction s) (auto simp: TrimLeft0_def)

lemma ParseUint_TrimLeft0_fmt [simp]: "n < 2 ^ 64 \<Longrightarrow> fst (ParseUint (TrimLeft0 (fmt_0u w n))) = n"
  using ParseUint_fmt [of n w] parse_digits_TrimLeft0 [of "fmt_0u w n"]
  by (auto simp: ParseUint_def split: if_splits)

lemma TrimLeft0_chars: "c \<in> set (TrimLeft0 s) \<Longrightarrow> c \<in> set s"
  unfolding TrimLeft0_def by (rule set_dropWhileD)

lemma ParseInt_TrimLeft0_fmt [simp]: "is_i64 x \<Longrightarrow> fst (ParseInt (TrimLeft0 (fmt_0d w x))) = x"
proof (cases "x < 0")
  case True
  assume "is_i64 x"
  moreover have "TrimLeft0 (fmt_0d w x) = fmt_0d w x" using True by (simp add: fmt_0d_def TrimLeft0_def)
  ultimately show ?thesis by simp
next
  case False
  assume x: "is_i64 x"
  let ?s = "TrimLeft0 (fmt_0u w (nat x))"
  have n: "nat x < 2 ^ 64" "nat x < 2 ^ 63" using x False by (simp_all add: is_i64_def nat_less_iff)
  have p: "parse_digits 0 ?s = (nat x, None)"
    using ParseUint_fmt [OF n(1), of w] by (simp add: ParseUint_def parse_digits_TrimLeft0)
  have "?s \<noteq> [] \<Longrightarrow> hd ?s \<noteq> 45 \<and> hd ?s \<noteq> 43"
    using fmt_0u_chars [OF TrimLeft0_chars [OF hd_in_set]] by fastforce
  with False p n(2) show ?thesis
    by (cases "?s = []") (auto simp: fmt_0d_def ParseInt_def ParseUint_def Let_def)
qed

end
