(* ===== verification/Store_Keys.thy ===== *)
theory Store_Keys
  imports Wal_Entry Go_Strings
begin

text \<open>
  The key space and the record format of the state machine, \<open>src/internal/store/keys.go\<close>: log keys
  (a revision, with a sub-index inside a transaction), index keys (a user key), the meta keys, the
  exclusive upper bound of a key prefix, and the log record's encoding in both its formats.

  Lemmas: log keys order as their revisions, the index range of a prefix holds exactly the keys
  with that prefix, and both record formats decode to what was written.
\<close>

section \<open>Key space\<close>

definition prefixLog :: byte where "prefixLog = 108"
definition prefixIdx :: byte where "prefixIdx = 105"
definition prefixMeta :: byte where "prefixMeta = 109"

definition metaCompactKey :: bytes where "metaCompactKey = prefixMeta # str ''compact''"
definition metaCurrentRevKey :: bytes where "metaCurrentRevKey = prefixMeta # str ''rev''"
definition metaLastSeqKey :: bytes where "metaLastSeqKey = prefixMeta # str ''seq''"

definition logLower :: bytes where "logLower = [prefixLog, 0, 0, 0, 0, 0, 0, 0, 0]"
definition logUpper :: bytes where "logUpper = [prefixLog + 1]"
definition idxUpper :: bytes where "idxUpper = [prefixIdx + 1]"

definition flagCreate :: byte where "flagCreate = 1"
definition flagDelete :: byte where "flagDelete = 2"

record srecord =
  r_key :: gostring
  r_value :: bytes
  r_createRevision :: int
  r_prevRevision :: int
  r_version :: int
  r_lease :: int
  r_create :: bool
  r_delete :: bool

definition logKey :: "int \<Rightarrow> bytes" where
  "logKey rv = prefixLog # put_i64 rv"

definition logKeyWithSub :: "int \<Rightarrow> nat \<Rightarrow> bytes" where
  "logKeyWithSub rv sub = prefixLog # put_i64 rv @ put_be 2 sub"

definition decodeLogKey :: "bytes \<Rightarrow> int" where
  "decodeLogKey k = get_i64 (gslice k 1 9)"

definition idxKey :: "gostring \<Rightarrow> bytes" where
  "idxKey key = prefixIdx # key"

text \<open>The loop of \<open>upperBound\<close> runs from the last byte to the first: the bytes are taken in
  reverse, and a byte that wraps to zero is dropped.\<close>

fun upper_loop :: "bytes \<Rightarrow> bytes option" where
  "upper_loop [] = None"
| "upper_loop (b # bs) = (if b + 1 \<noteq> 0 then Some (rev ((b + 1) # bs)) else upper_loop bs)"

definition upperBound :: "bytes \<Rightarrow> bytes option" where
  "upperBound pfx = upper_loop (rev pfx)"

definition idxKeyUpper :: "gostring \<Rightarrow> bytes" where
  "idxKeyUpper pfx = (case upperBound pfx of None \<Rightarrow> idxUpper | Some ub \<Rightarrow> prefixIdx # ub)"

definition encodeRev :: "int \<Rightarrow> bytes" where
  "encodeRev rv = put_i64 rv"

definition decodeRev :: "bytes \<Rightarrow> int" where
  "decodeRev b = get_i64 (gslice b 0 8)"

section \<open>Records\<close>

definition entryHeaderSizeV1 :: nat where "entryHeaderSizeV1 = 29"
definition entryHeaderSize :: nat where "entryHeaderSize = entryHeaderSizeV1 + 8"

definition marshalRecord :: "srecord \<Rightarrow> bytes" where
  "marshalRecord r =
     (let flags = (if r_create r then flagCreate else 0) OR (if r_delete r then flagDelete else 0)
      in [flags] @ put_i64 (r_createRevision r) @ put_i64 (r_prevRevision r) @ put_i64 (r_lease r) @
         put_i64 (r_version r) @ put_be 4 (length (r_key r)) @ r_key r @ r_value r)"

definition versionRecordHeaderLooksValid :: "int \<Rightarrow> int \<Rightarrow> int \<Rightarrow> bool \<Rightarrow> bool" where
  "versionRecordHeaderLooksValid version createRev prevRev deleted =
     (if version \<le> 0 then False
      else if prevRev = 0 then version = 1
      else let maxVersion = wrap64 (prevRev - createRev + 1);
               maxVersion' = (if \<not> deleted then wrap64 (maxVersion + 1) else maxVersion)
           in maxVersion' > 0 \<and> version \<le> maxVersion')"

definition unmarshalRecord :: "bytes \<Rightarrow> srecord res" where
  "unmarshalRecord b =
     (if length b < entryHeaderSizeV1 then Inl (Err ''store: record too short'')
      else
        let flags = b ! 0;
            createRev = get_i64 (gslice b 1 9);
            prevRev = get_i64 (gslice b 9 17);
            del = (flags AND flagDelete \<noteq> 0);
            version = get_i64 (gslice b 25 33);
            versioned = (length b \<ge> entryHeaderSize \<and>
              versionRecordHeaderLooksValid version createRev prevRev del \<and>
              length b \<ge> entryHeaderSize + get_be (gslice b 33 37));
            headerSize = (if versioned then entryHeaderSize else entryHeaderSizeV1);
            klen = get_be (gslice b (headerSize - 4) headerSize)
        in if length b < headerSize + klen then Inl (Err ''store: record key truncated'')
           else Inr \<lparr>r_key = gslice b headerSize (headerSize + klen),
                     r_value = drop (headerSize + klen) b,
                     r_createRevision = createRev, r_prevRevision = prevRev,
                     r_version = (if versioned then version else 0),
                     r_lease = get_i64 (gslice b 17 25),
                     r_create = (flags AND flagCreate \<noteq> 0), r_delete = del\<rparr>)"

definition recordVersion :: "srecord \<Rightarrow> int" where
  "recordVersion r = (if r_version r > 0 then r_version r else if r_delete r then 0 else 1)"

definition entryVersion :: "int \<Rightarrow> int" where
  "entryVersion version = (if version > 0 then version else 1)"

section \<open>Order of the keys\<close>

lemmas prefix_defs = prefixLog_def prefixIdx_def prefixMeta_def

lemma length_logKey [simp]: "length (logKey rv) = 9" "length (logKeyWithSub rv sub) = 11"
  by (simp_all add: logKey_def logKeyWithSub_def)

lemma decodeLogKey_logKey [simp]:
  "is_i64 rv \<Longrightarrow> decodeLogKey (logKey rv) = rv"
  "is_i64 rv \<Longrightarrow> decodeLogKey (logKeyWithSub rv sub) = rv"
  by (simp_all add: decodeLogKey_def logKey_def logKeyWithSub_def gslice_def codec_simps)

lemma decodeRev_encodeRev [simp]: "is_i64 rv \<Longrightarrow> decodeRev (encodeRev rv) = rv"
  by (simp add: decodeRev_def encodeRev_def gslice_def codec_simps)

lemma logKey_logLower: "logKey 0 = logLower"
  by (simp add: logKey_def logLower_def put_i64_def put_be_def numeral_eq_Suc)

text \<open>A key of the log range, split into its revision and sub-index bytes.\<close>

definition is_rev :: "int \<Rightarrow> bool" where
  "is_rev rv \<longleftrightarrow> 0 \<le> rv \<and> rv < max_i64"

lemma is_revD: "is_rev rv \<Longrightarrow> is_i64 rv" "is_rev rv \<Longrightarrow> is_i64 (rv + 1)" "is_rev rv \<Longrightarrow> wrap64 (rv + 1) = rv + 1"
  "is_rev rv \<Longrightarrow> 0 \<le> rv"
  by (auto simp: is_rev_def is_i64_def max_i64_def intro!: wrap64_pos)

lemma log_less_iff:
  assumes "0 \<le> r" "is_i64 r" "0 \<le> s" "is_i64 s"
  shows "prefixLog # put_i64 r @ t < prefixLog # put_i64 s @ u \<longleftrightarrow> r < s \<or> r = s \<and> t < u"
    and "prefixLog # put_i64 r @ t \<le> prefixLog # put_i64 s @ u \<longleftrightarrow> r < s \<or> r = s \<and> t \<le> u"
  using assms by (auto simp: append_less_append append_le_append put_i64_less_iff put_i64_inject)

lemma logKey_le_iff:
  assumes "0 \<le> r" "is_i64 r" "0 \<le> s" "is_i64 s"
  shows "logKey r \<le> prefixLog # put_i64 s @ u \<longleftrightarrow> r \<le> s"
    and "prefixLog # put_i64 s @ u < logKey r \<longleftrightarrow> s < r"
  using log_less_iff [of r s "[]" u] log_less_iff [of s r u "[]"] assms by (auto simp: logKey_def)

section \<open>The range of a prefix\<close>

lemma upperBound_snoc:
  "upperBound (q @ [b]) = (if b + 1 \<noteq> 0 then Some (q @ [b + 1]) else upperBound q)"
  by (simp add: upperBound_def)

lemma upperBound_Nil [simp]: "upperBound [] = None"
  by (simp add: upperBound_def)

lemma byte_Suc_less: "(b :: byte) + 1 \<noteq> 0 \<Longrightarrow> x < b + 1 \<longleftrightarrow> x \<le> b"
proof -
  assume "b + 1 \<noteq> 0"
  then have "unat (b + 1) \<noteq> 0" using unat_eq_zero by blast
  moreover have "unat (b + 1) = (unat b + 1) mod 256" by (simp add: unat_word_ariths)
  moreover have "unat b < 256" using unsigned_less [of b, where ?'a = nat] by simp
  ultimately have "unat (b + 1) = Suc (unat b)" by (cases "unat b = 255") auto
  then show ?thesis by (simp add: word_less_nat_alt word_le_nat_alt less_Suc_eq_le)
qed

lemma byte_max_le: "(b :: byte) + 1 = 0 \<Longrightarrow> b \<le> x \<longleftrightarrow> x = b"
proof -
  assume "b + 1 = 0"
  then have "b = - 1" by (simp add: eq_neg_iff_add_eq_0)
  then show ?thesis by (simp add: word_order.extremum_unique eq_commute)
qed

lemma prefix_snoc_range:
  "(b :: byte) + 1 \<noteq> 0 \<Longrightarrow> q @ [b] \<le> x \<and> x < q @ [b + 1] \<longleftrightarrow> prefix (q @ [b]) x"
proof (induction q arbitrary: x)
  case Nil
  then show ?case by (cases x) (auto simp: byte_Suc_less)
next
  case (Cons a q)
  show ?case
  proof (cases x)
    case (Cons y ys)
    with Cons.IH [OF Cons.prems, of ys] show ?thesis by (cases "a = y") auto
  qed simp
qed

lemma le_snoc_iff: "(b :: byte) + 1 = 0 \<Longrightarrow> q @ [b] \<le> x \<and> prefix q x \<longleftrightarrow> prefix (q @ [b]) x"
proof (induction q arbitrary: x)
  case Nil
  then show ?case by (cases x) (auto simp: byte_max_le less_le)
next
  case (Cons a q)
  show ?case
  proof (cases x)
    case (Cons y ys)
    with Cons.IH [OF Cons.prems, of ys] show ?thesis by (cases "a = y") auto
  qed simp
qed

lemma le_snoc: "q \<le> q @ [b :: 'a :: linorder]"
  by (induction q) auto

lemma upperBound_range:
  "p \<le> x \<and> (case upperBound p of None \<Rightarrow> True | Some u \<Rightarrow> x < u) \<longleftrightarrow> prefix p x"
proof (induction p rule: rev_induct)
  case Nil
  then show ?case by simp
next
  case (snoc b q)
  show ?case
  proof (cases "b + 1 = 0")
    case True
    have "q @ [b] \<le> x \<Longrightarrow> q \<le> x" using le_snoc order_trans by blast
    with snoc le_snoc_iff [OF True, of q x] show ?thesis
      by (auto simp: upperBound_snoc True dest: append_prefixD)
  next
    case False
    then show ?thesis using prefix_snoc_range [OF False, of q x] by (simp add: upperBound_snoc)
  qed
qed

lemma idxKeyUpper_range: "idxKey p \<le> x \<and> x < idxKeyUpper p \<longleftrightarrow> (\<exists>k. x = idxKey k \<and> HasPrefix k p)"
proof (cases x)
  case Nil
  then show ?thesis by (auto simp: idxKey_def)
next
  case (Cons a k)
  have i: "prefixIdx + 1 \<noteq> 0" by (simp add: prefix_defs)
  from upperBound_range [of p k] Cons show ?thesis
    by (cases "upperBound p") (auto simp: idxKey_def idxKeyUpper_def idxUpper_def HasPrefix_iff byte_Suc_less [OF i])
qed

section \<open>Records\<close>

definition record_ok :: "srecord \<Rightarrow> bool" where
  "record_ok r \<longleftrightarrow> is_i64 (r_createRevision r) \<and> is_i64 (r_prevRevision r) \<and> is_i64 (r_version r) \<and> is_i64 (r_lease r) \<and>
     length (r_key r) < 2 ^ 32 \<and>
     versionRecordHeaderLooksValid (r_version r) (r_createRevision r) (r_prevRevision r) (r_delete r)"

text \<open>Both formats share the fields up to the lease.\<close>

definition record_flags :: "srecord \<Rightarrow> byte" where
  "record_flags r = (if r_create r then flagCreate else 0) OR (if r_delete r then flagDelete else 0)"

definition record_head :: "srecord \<Rightarrow> bytes" where
  "record_head r = record_flags r # put_i64 (r_createRevision r) @ put_i64 (r_prevRevision r) @ put_i64 (r_lease r)"

lemma record_flags: "(record_flags r AND flagCreate \<noteq> 0) = r_create r" "(record_flags r AND flagDelete \<noteq> 0) = r_delete r"
  by (simp_all add: record_flags_def flagCreate_def flagDelete_def)

lemma record_head_fields:
  "length (record_head r) = 25" "(record_head r @ t) ! 0 = record_flags r"
  "gslice (record_head r @ t) (Suc 0) 9 = put_i64 (r_createRevision r)"
  "gslice (record_head r @ t) 9 17 = put_i64 (r_prevRevision r)"
  "gslice (record_head r @ t) 17 25 = put_i64 (r_lease r)"
  by (simp_all add: record_head_def gslice_def)

lemma split_payload:
  "n = length h \<Longrightarrow> m = length k \<Longrightarrow> gslice (h @ k @ v) n (n + m) = k"
  "n = length h \<Longrightarrow> m = length k \<Longrightarrow> drop (n + m) (h @ k @ v) = v"
  by (simp_all add: gslice_def)

lemma unmarshal_marshal: "record_ok r \<Longrightarrow> unmarshalRecord (marshalRecord r) = Inr r"
proof -
  assume ok: "record_ok r"
  let ?v = "put_i64 (r_version r)" and ?n = "put_be 4 (length (r_key r))" and ?b = "marshalRecord r"
  have n: "get_be ?n = length (r_key r)" using ok by (simp add: record_ok_def codec_simps)
  have m: "marshalRecord r = record_head r @ ?v @ ?n @ r_key r @ r_value r"
    by (simp add: marshalRecord_def Let_def record_head_def record_flags_def)
  have v: "gslice (marshalRecord r) 25 33 = ?v"
    unfolding m using split_payload(1) [of 25 "record_head r" 8 ?v] by (simp add: record_head_fields)
  have k: "gslice (marshalRecord r) 33 37 = ?n"
    unfolding m using split_payload(1) [of 33 "record_head r @ ?v" 4 ?n] by (simp add: record_head_fields)
  have p: "gslice (marshalRecord r) 37 (37 + length (r_key r)) = r_key r" "drop (37 + length (r_key r)) (marshalRecord r) = r_value r"
    unfolding m using split_payload [of 37 "record_head r @ ?v @ ?n" _ "r_key r" "r_value r"] by (simp_all add: record_head_fields)
  have l: "length (marshalRecord r) = 37 + length (r_key r) + length (r_value r)" by (simp add: m record_head_fields)
  note h = record_head_fields(2-) [of r "?v @ ?n @ r_key r @ r_value r", folded m]
  have h2: "get_i64 (gslice ?b (Suc 0) 9) = r_createRevision r" "get_i64 (gslice ?b 9 17) = r_prevRevision r"
    "get_i64 (gslice ?b 17 25) = r_lease r" "get_i64 (gslice ?b 25 33) = r_version r"
    using ok by (simp_all add: h v record_ok_def codec_simps)
  have "versionRecordHeaderLooksValid (r_version r) (r_createRevision r) (r_prevRevision r) (r_delete r)"
    using ok by (simp add: record_ok_def)
  then show ?thesis
    unfolding unmarshalRecord_def Let_def entryHeaderSize_def entryHeaderSizeV1_def
    by (simp add: h(1) h2 k p l n record_flags [simplified])
qed

text \<open>The first record format, which had no version field.\<close>

definition marshalRecordV1 :: "srecord \<Rightarrow> bytes" where
  "marshalRecordV1 r =
     record_head r @ put_be 4 (length (r_key r)) @ r_key r @ r_value r"

text \<open>In a first-format record the bytes where the version would be hold the key length, so the version
  they spell is at least \<open>2^32\<close> times the length.\<close>

lemma get_be_append: "get_be (xs @ ys) = get_be xs * 256 ^ length ys + get_be ys"
  by (induction xs) (simp_all add: get_be_Cons algebra_simps power_add)

lemma version_of_V1:
  assumes "length k < 2 ^ 31" "4 \<le> length t"
  shows "get_i64 (put_be 4 (length k) @ take 4 t) \<ge> int (length k) * 2 ^ 32"
proof -
  let ?x = "get_be (put_be 4 (length k) @ take 4 t)"
  have l: "length (take 4 t) = 4" using assms(2) by simp
  have x: "?x = length k * 2 ^ 32 + get_be (take 4 t)"
    using assms(1) by (simp add: get_be_append l codec_simps del: length_take)
  have "get_be (take 4 t) < 2 ^ 32" using get_be_bound [of "take 4 t"] unfolding l by simp
  then have "int ?x < 2 ^ 63" using assms(1) unfolding x by simp
  then have "wrap64 (int ?x) = int ?x" by (intro wrap64_pos) simp_all
  then show ?thesis by (simp add: get_i64_def x)
qed

lemma not_versioned:
  assumes "int n * 2 ^ 32 \<le> v" "0 < n" "is_i64 p" "is_i64 c" "\<bar>p - c\<bar> < 2 ^ 32 - 2"
  shows "\<not> versionRecordHeaderLooksValid v c p d"
proof -
  have v: "2 ^ 32 \<le> v" using assms(1,2) mult_right_mono [of 1 "int n" "2 ^ 32"] by simp
  have "wrap64 (p - c + 1) = p - c + 1" "wrap64 (p - c + 1 + 1) = p - c + 2" using assms(5) by (simp_all add: wrap64_pos)
  with v assms(5) show ?thesis by (auto simp: versionRecordHeaderLooksValid_def Let_def)
qed

lemma unmarshal_marshalV1:
  assumes "is_i64 (r_createRevision r)" "is_i64 (r_prevRevision r)" "is_i64 (r_lease r)"
    and "r_key r \<noteq> []" "length (r_key r) < 2 ^ 31" "\<bar>r_prevRevision r - r_createRevision r\<bar> < 2 ^ 32 - 2"
  shows "unmarshalRecord (marshalRecordV1 r) = Inr (r\<lparr>r_version := 0\<rparr>)"
proof -
  let ?n = "put_be 4 (length (r_key r))" and ?b = "marshalRecordV1 r"
  have n: "get_be ?n = length (r_key r)" using assms(5) by (simp add: codec_simps)
  have m: "?b = record_head r @ ?n @ r_key r @ r_value r" by (simp add: marshalRecordV1_def)
  have k: "gslice ?b 25 29 = ?n"
    unfolding m using split_payload(1) [of 25 "record_head r" 4 ?n] by (simp add: record_head_fields)
  have p: "gslice ?b 29 (29 + length (r_key r)) = r_key r" "drop (29 + length (r_key r)) ?b = r_value r"
    unfolding m using split_payload [of 29 "record_head r @ ?n" _ "r_key r" "r_value r"] by (simp_all add: record_head_fields)
  have l: "length ?b = 29 + length (r_key r) + length (r_value r)" by (simp add: m record_head_fields)
  have nv: "\<not> versionRecordHeaderLooksValid (get_i64 (gslice ?b 25 33)) (r_createRevision r) (r_prevRevision r) (r_delete r)"
    if "37 \<le> length ?b"
  proof -
    have "gslice ?b 25 33 = ?n @ take 4 (r_key r @ r_value r)"
      unfolding m by (simp add: gslice_def record_head_fields)
    with version_of_V1 [OF assms(5), of "r_key r @ r_value r"] that l
    have "int (length (r_key r)) * 2 ^ 32 \<le> get_i64 (gslice ?b 25 33)" by simp
    then show ?thesis by (rule not_versioned) (use assms in simp_all)
  qed
  note h = record_head_fields(2-) [of r "?n @ r_key r @ r_value r", folded m]
  have h2: "get_i64 (gslice ?b (Suc 0) 9) = r_createRevision r" "get_i64 (gslice ?b 9 17) = r_prevRevision r"
    "get_i64 (gslice ?b 17 25) = r_lease r" using assms by (simp_all add: h codec_simps)
  show ?thesis
    using nv unfolding unmarshalRecord_def Let_def entryHeaderSize_def entryHeaderSizeV1_def
    by (auto simp: h(1) h2 k p l n record_flags [simplified])
qed

section \<open>Properties\<close>

text \<open>The keys that an iterator over the index range of a prefix meets are exactly the index keys of
  the user keys with that prefix, also when the prefix ends in bytes \<open>0xff\<close> or is empty.\<close>

theorem prefix_range: "{x. idxKey p \<le> x \<and> x < idxKeyUpper p} = idxKey ` {k. HasPrefix k p}"
  using idxKeyUpper_range [of p] by blast

text \<open>A log record decodes to what was encoded, when its fields are 64-bit, its key is shorter than
  \<open>2^32\<close> bytes and its version is one that the change history of the key allows.\<close>

theorem record_roundtrip: "record_ok r \<Longrightarrow> unmarshalRecord (marshalRecord r) = Inr r"
  by (rule unmarshal_marshal)

theorem record_roundtrip_witness:
  "unmarshalRecord (marshalRecord \<lparr>r_key = str ''k'', r_value = str ''v'', r_createRevision = 3, r_prevRevision = 4,
     r_version = 3, r_lease = 0, r_create = False, r_delete = False\<rparr>) =
   Inr \<lparr>r_key = str ''k'', r_value = str ''v'', r_createRevision = 3, r_prevRevision = 4,
     r_version = 3, r_lease = 0, r_create = False, r_delete = False\<rparr>"
  by (rule record_roundtrip)
    (simp add: record_ok_def is_i64_def versionRecordHeaderLooksValid_def Let_def wrap64_def)

text \<open>Records written in the first format, which has no version field, still decode to their fields and
  the version 0, provided the key is not empty and fewer than \<open>2^32 - 2\<close> revisions lie between the
  creation and the previous change of the key.\<close>

theorem record_v1_compat:
  assumes "is_i64 (r_createRevision r)" "is_i64 (r_prevRevision r)" "is_i64 (r_lease r)"
    and "r_key r \<noteq> []" "length (r_key r) < 2 ^ 31" "\<bar>r_prevRevision r - r_createRevision r\<bar> < 2 ^ 32 - 2"
  shows "unmarshalRecord (marshalRecordV1 r) = Inr (r\<lparr>r_version := 0\<rparr>)"
  using assms by (rule unmarshal_marshalV1)

theorem record_v1_compat_witness:
  "unmarshalRecord (marshalRecordV1 \<lparr>r_key = str ''key'', r_value = str ''some value'', r_createRevision = 3,
     r_prevRevision = 4, r_version = 2, r_lease = 0, r_create = False, r_delete = False\<rparr>) =
   Inr \<lparr>r_key = str ''key'', r_value = str ''some value'', r_createRevision = 3,
     r_prevRevision = 4, r_version = 0, r_lease = 0, r_create = False, r_delete = False\<rparr>"
  by (subst record_v1_compat) (simp_all add: is_i64_def str_def)

end
