(* ===== verification/Pebble_DB.thy ===== *)
theory Pebble_DB
  imports T4_Prelude
begin

text \<open>
  The embedded ordered key-value database (the third-party package \<open>pebble\<close>) that the state machine
  \<open>src/internal/store\<close> is built on. Its code is not part of the repository, so it is a parameter: a
  record of the operations the source calls. What the source relies on is the locale
  \<open>pebble_db\<close>: point reads, iteration in key order between bounds, atomic batches.
  A database in a \<open>healthy\<close> state does not fail; in any other state every operation may return
  an error, and what it returns without an error is still right.

  The locale is interpreted on a database that keeps its pairs in a sorted list and fails every
  operation once it is broken.
\<close>

section \<open>The interface\<close>

datatype batch_op = BSet bytes bytes | BDelete bytes

text \<open>An iterator is given by the pairs it meets between its bounds, forwards or backwards, and the
  error it reports at the end. A failed addition leaves the batch as it was.\<close>

record 'db pebble =
  p_Get :: "bytes \<Rightarrow> 'db \<Rightarrow> bytes res"
  p_Iter :: "bytes \<Rightarrow> bytes \<Rightarrow> 'db \<Rightarrow> ((bytes \<times> bytes) list \<times> goerr option) res"
  p_IterRev :: "bytes \<Rightarrow> bytes \<Rightarrow> 'db \<Rightarrow> ((bytes \<times> bytes) list \<times> goerr option) res"
  p_Add :: "batch_op \<Rightarrow> batch_op list \<Rightarrow> 'db \<Rightarrow> batch_op list res"
  p_Commit :: "batch_op list \<Rightarrow> bool \<Rightarrow> 'db \<Rightarrow> goerr option \<times> 'db"

section \<open>Sorted association lists\<close>

fun upd_sorted :: "'k::linorder \<Rightarrow> 'v \<Rightarrow> ('k \<times> 'v) list \<Rightarrow> ('k \<times> 'v) list" where
  "upd_sorted k v [] = [(k, v)]"
| "upd_sorted k v ((a, b) # xs) =
     (if k < a then (k, v) # (a, b) # xs else if k = a then (k, v) # xs else (a, b) # upd_sorted k v xs)"

definition del_sorted :: "'k::linorder \<Rightarrow> ('k \<times> 'v) list \<Rightarrow> ('k \<times> 'v) list" where
  "del_sorted k xs = filter (\<lambda>(a, b). a \<noteq> k) xs"

definition between :: "'k::linorder \<Rightarrow> 'k \<Rightarrow> ('k \<times> 'v) list \<Rightarrow> ('k \<times> 'v) list" where
  "between lo hi xs = filter (\<lambda>(a, b). lo \<le> a \<and> a < hi) xs"

fun apply_op :: "(bytes \<times> bytes) list \<Rightarrow> batch_op \<Rightarrow> (bytes \<times> bytes) list" where
  "apply_op xs (BSet k v) = upd_sorted k v xs"
| "apply_op xs (BDelete k) = del_sorted k xs"

definition apply_batch :: "batch_op list \<Rightarrow> (bytes \<times> bytes) list \<Rightarrow> (bytes \<times> bytes) list" where
  "apply_batch ops xs = foldl apply_op xs ops"

abbreviation sorted_keys :: "('k::linorder \<times> 'v) list \<Rightarrow> bool" where
  "sorted_keys xs \<equiv> sorted_wrt (<) (map fst xs)"

lemma set_upd_sorted: "fst ` set (upd_sorted k v xs) = insert k (fst ` set xs)"
  by (induction xs rule: upd_sorted.induct) auto

lemma sorted_upd [simp]: "sorted_keys xs \<Longrightarrow> sorted_keys (upd_sorted k v xs)"
proof (induction k v xs rule: upd_sorted.induct)
  case (2 k v a b xs)
  then show ?case using set_upd_sorted [of k v xs] by (auto intro: less_trans)
qed simp

lemma sorted_filter_keys [simp]: "sorted_keys xs \<Longrightarrow> sorted_keys (filter P xs)"
  by (induction xs) auto

lemma sorted_del [simp]: "sorted_keys xs \<Longrightarrow> sorted_keys (del_sorted k xs)"
  by (simp add: del_sorted_def)

lemma sorted_apply [simp]: "sorted_keys xs \<Longrightarrow> sorted_keys (apply_op xs op)"
  by (cases op) simp_all

lemma apply_batch_Nil [simp]: "apply_batch [] xs = xs"
  by (simp add: apply_batch_def)

lemma apply_batch_append [simp]: "apply_batch (b @ c) xs = apply_batch c (apply_batch b xs)"
  by (simp add: apply_batch_def)

lemma apply_batch_Cons [simp]: "apply_batch (op # b) xs = apply_batch b (apply_op xs op)"
  by (simp add: apply_batch_def)

lemma sorted_apply_batch [simp]: "sorted_keys xs \<Longrightarrow> sorted_keys (apply_batch b xs)"
  by (induction b arbitrary: xs) simp_all

lemma sorted_keys_distinct: "sorted_keys xs \<Longrightarrow> distinct (map fst xs)"
  by (simp add: strict_sorted_iff)

lemma map_of_upd_sorted [simp]: "map_of (upd_sorted k v xs) = (map_of xs)(k \<mapsto> v)"
  by (induction xs rule: upd_sorted.induct) (auto simp: fun_eq_iff)

lemma map_of_del_sorted [simp]: "map_of (del_sorted k xs) = (map_of xs)(k := None)"
  by (induction xs) (auto simp: del_sorted_def fun_eq_iff)

lemma upd_sorted_last: "(\<forall>(a, b) \<in> set xs. a < k) \<Longrightarrow> upd_sorted k v xs = xs @ [(k, v)]"
  by (induction xs rule: upd_sorted.induct) auto

lemma filter_upd_sorted:
  "sorted_keys xs \<Longrightarrow> filter (\<lambda>(a, b). P a) (upd_sorted k v xs) =
     (if P k then upd_sorted k v (filter (\<lambda>(a, b). P a) xs) else filter (\<lambda>(a, b). P a) xs)"
proof (induction k v xs rule: upd_sorted.induct)
  case (2 k v a b xs)
  have "upd_sorted k v ys = (k, v) # ys" if "\<forall>x \<in> set ys. k < fst x" for ys
    using that by (cases ys) auto
  moreover have "\<forall>x \<in> set (filter (\<lambda>(a, b). P a) xs). k < fst x" if "k < a"
    using 2(2) that by fastforce
  ultimately show ?case using 2 by auto
qed simp

lemma filter_del_sorted:
  "filter (\<lambda>(a, b). P a) (del_sorted k xs) = del_sorted k (filter (\<lambda>(a, b). P a) xs)"
  unfolding del_sorted_def by (induction xs) auto

lemma del_sorted_absent: "k \<notin> fst ` set xs \<Longrightarrow> del_sorted k xs = xs"
  by (force simp: del_sorted_def filter_id_conv)

section \<open>What the source relies on\<close>

locale pebble_db =
  fixes P :: "'db pebble" and contents :: "'db \<Rightarrow> (bytes \<times> bytes) list" and healthy :: "'db \<Rightarrow> bool"
  assumes sorted: "sorted_keys (contents db)"
    and Get_ok: "p_Get P k db = Inr v \<Longrightarrow> map_of (contents db) k = Some v"
    and Get_missing: "p_Get P k db = Inl ErrNotFound \<Longrightarrow> map_of (contents db) k = None"
    and Iter_ok: "p_Iter P lo hi db = Inr (kvs, None) \<Longrightarrow> kvs = between lo hi (contents db)"
    and IterRev_ok: "p_IterRev P lo hi db = Inr (kvs, None) \<Longrightarrow> kvs = rev (between lo hi (contents db))"
    and Iter_err: "p_Iter P lo hi db = Inr (kvs, Some e) \<Longrightarrow> prefix kvs (between lo hi (contents db))"
    and IterRev_err: "p_IterRev P lo hi db = Inr (kvs, Some e) \<Longrightarrow> prefix kvs (rev (between lo hi (contents db)))"
    and Add_ok: "p_Add P op b db = Inr b' \<Longrightarrow> b' = b @ [op]"
    and Commit_ok: "p_Commit P b sync db = (None, db') \<Longrightarrow> contents db' = apply_batch b (contents db)"
    and Commit_err: "p_Commit P b sync db = (Some e, db') \<Longrightarrow>
      contents db' = contents db \<or> contents db' = apply_batch b (contents db)"
    and healthy_Get: "healthy db \<Longrightarrow> p_Get P k db = Inl e \<Longrightarrow> e = ErrNotFound"
    and healthy_Iter: "healthy db \<Longrightarrow> \<exists>kvs. p_Iter P lo hi db = Inr (kvs, None)"
    and healthy_IterRev: "healthy db \<Longrightarrow> \<exists>kvs. p_IterRev P lo hi db = Inr (kvs, None)"
    and healthy_Add: "healthy db \<Longrightarrow> \<exists>b'. p_Add P op b db = Inr b'"
    and healthy_Commit: "healthy db \<Longrightarrow> \<exists>db'. p_Commit P b sync db = (None, db') \<and> healthy db'"
begin

lemma Get_eq: "healthy db \<Longrightarrow> p_Get P k db = (case map_of (contents db) k of None \<Rightarrow> Inl ErrNotFound | Some v \<Rightarrow> Inr v)"
  using Get_ok [of k db] Get_missing [of k db] healthy_Get [of db k] by (cases "p_Get P k db") auto

lemma Iter_eq: "healthy db \<Longrightarrow> p_Iter P lo hi db = Inr (between lo hi (contents db), None)"
  using Iter_ok [of lo hi db] healthy_Iter [of db lo hi] by auto

lemma IterRev_eq: "healthy db \<Longrightarrow> p_IterRev P lo hi db = Inr (rev (between lo hi (contents db)), None)"
  using IterRev_ok [of lo hi db] healthy_IterRev [of db lo hi] by auto

lemma Add_eq: "healthy db \<Longrightarrow> p_Add P op b db = Inr (b @ [op])"
  using Add_ok [of op b db] healthy_Add [of db op b] by auto

lemma Commit_eq:
  assumes "healthy db"
  obtains db' where "p_Commit P b sync db = (None, db')" "healthy db'" "contents db' = apply_batch b (contents db)"
  using healthy_Commit [OF assms, of b sync] Commit_ok [of b sync db] by auto

end

section \<open>A database in memory\<close>

text \<open>The state is the sequence of all committed operations and the number of commits left before
  the database breaks (\<open>None\<close>: it never does). A broken database fails every operation.\<close>

type_synonym memdb = "batch_op list \<times> nat option"

definition mdb_contents :: "memdb \<Rightarrow> (bytes \<times> bytes) list" where
  "mdb_contents db = apply_batch (fst db) []"

definition mdb_healthy :: "memdb \<Rightarrow> bool" where
  "mdb_healthy db \<longleftrightarrow> snd db = None"

definition mdb_read :: "memdb \<Rightarrow> 'a res \<Rightarrow> 'a res" where
  "mdb_read db r = (if snd db = Some 0 then Inl (ErrIO 0) else r)"

definition mdb_commit :: "batch_op list \<Rightarrow> bool \<Rightarrow> memdb \<Rightarrow> goerr option \<times> memdb" where
  "mdb_commit b sync db = (case snd db of
       None \<Rightarrow> (None, (fst db @ b, None))
     | Some n \<Rightarrow> if n = 0 then (Some (ErrIO 0), db) else (None, (fst db @ b, Some (n - 1))))"

definition mem_pebble :: "memdb pebble" where
  "mem_pebble = \<lparr>
     p_Get = (\<lambda>k db. mdb_read db (case map_of (mdb_contents db) k of None \<Rightarrow> Inl ErrNotFound | Some v \<Rightarrow> Inr v)),
     p_Iter = (\<lambda>lo hi db. mdb_read db (Inr (between lo hi (mdb_contents db), None))),
     p_IterRev = (\<lambda>lo hi db. mdb_read db (Inr (rev (between lo hi (mdb_contents db)), None))),
     p_Add = (\<lambda>op b db. mdb_read db (Inr (b @ [op]))),
     p_Commit = mdb_commit\<rparr>"

lemma mem_pebble_sel [simp]:
  "p_Get mem_pebble k db = mdb_read db (case map_of (mdb_contents db) k of None \<Rightarrow> Inl ErrNotFound | Some v \<Rightarrow> Inr v)"
  "p_Iter mem_pebble lo hi db = mdb_read db (Inr (between lo hi (mdb_contents db), None))"
  "p_IterRev mem_pebble lo hi db = mdb_read db (Inr (rev (between lo hi (mdb_contents db)), None))"
  "p_Add mem_pebble op b db = mdb_read db (Inr (b @ [op]))"
  "p_Commit mem_pebble = mdb_commit"
  by (simp_all add: mem_pebble_def)

lemma mem_pebble_laws: "pebble_db mem_pebble mdb_contents mdb_healthy"
proof
  show "sorted_keys (mdb_contents db)" for db by (simp add: mdb_contents_def)
  show "mdb_contents db' = apply_batch b (mdb_contents db)"
    if "p_Commit mem_pebble b sync db = (None, db')" for b sync db db'
    using that by (auto simp: mdb_commit_def mdb_contents_def split: option.splits if_splits)
  show "mdb_contents db' = mdb_contents db \<or> mdb_contents db' = apply_batch b (mdb_contents db)"
    if "p_Commit mem_pebble b sync db = (Some e, db')" for b sync db e db'
    using that by (auto simp: mdb_commit_def split: option.splits if_splits)
  show "\<exists>db'. p_Commit mem_pebble b sync db = (None, db') \<and> mdb_healthy db'" if "mdb_healthy db" for db b sync
    using that by (simp add: mdb_commit_def mdb_healthy_def)
qed (auto simp: mdb_read_def mdb_healthy_def split: if_splits option.splits)

interpretation memdb: pebble_db mem_pebble mdb_contents mdb_healthy
  by (rule mem_pebble_laws)

end
