(* ===== verification/Store_State.thy ===== *)
theory Store_State
  imports Store_Keys Pebble_DB "HOL-Library.AList"
begin

text \<open>
  The state machine, \<open>src/internal/store/store.go\<close>: applying log entries (live and during recovery),
  compaction, point and range reads at the head and at past revisions, and the log scan behind
  watches.

  The state is a record: the database, the three counters, whether the store is closed,
  and the notification channel. A channel that is closed and replaced is a generation number: a waiter holds
  the generation it saw, and is awake once the generation has moved on. The database is the
  parameter \<open>P\<close> of every operation. An operation that can fail half-way returns the state it leaves.
  Metrics and log output are not modelled.
\<close>

section \<open>State\<close>

record 'db sstore =
  s_db :: 'db
  s_currentRev :: int
  s_compactRev :: int
  s_lastSeq :: int
  s_notify :: nat
  s_closed :: bool
  s_watchPrefixes :: "(gostring \<times> int) list"

type_synonym batch = "batch_op list"

definition errStore :: "string \<Rightarrow> goerr" where
  "errStore msg = Err (''store: '' @ msg)"

subsection \<open>Opening\<close>

text \<open>\<open>strings.Contains(err.Error(), "LOCK")\<close>.\<close>

definition isPebbleLockError :: "goerr \<Rightarrow> bool" where
  "isPebbleLockError err = (case err of
       Err m \<Rightarrow> list_ex (\<lambda>i. take 4 (drop i m) = ''LOCK'') [0..<Suc (length m)]
     | _ \<Rightarrow> False)"

definition loadMeta :: "'db pebble \<Rightarrow> 'db sstore \<Rightarrow> goerr option \<times> 'db sstore" where
  "loadMeta P s =
     (case (case p_Get P metaCompactKey (s_db s) of
              Inr v \<Rightarrow> Inr (s\<lparr>s_compactRev := decodeRev v\<rparr>)
            | Inl err \<Rightarrow> if err \<noteq> ErrNotFound then Inl (errStore ''read compact rev'') else Inr s) of
        Inl err \<Rightarrow> (Some err, s)
      | Inr s \<Rightarrow>
     (case (case p_Get P metaLastSeqKey (s_db s) of
              Inr v \<Rightarrow> Inr (s\<lparr>s_lastSeq := decodeRev v\<rparr>)
            | Inl err \<Rightarrow> if err \<noteq> ErrNotFound then Inl (errStore ''read last seq'') else Inr s) of
        Inl err \<Rightarrow> (Some err, s)
      | Inr s \<Rightarrow>
     (case p_Get P metaCurrentRevKey (s_db s) of
        Inr v \<Rightarrow>
          let s = s\<lparr>s_currentRev := decodeRev v\<rparr>
          in (None, if s_lastSeq s < s_currentRev s then s\<lparr>s_lastSeq := s_currentRev s\<rparr> else s)
      | Inl err \<Rightarrow>
          if err \<noteq> ErrNotFound then (Some (errStore ''read current rev''), s)
          else (case p_IterRev P logLower logUpper (s_db s) of
                  Inl err \<Rightarrow> (Some (errStore ''new iter for loadMeta''), s)
                | Inr (kvs, _) \<Rightarrow>
                    let s = (case kvs of [] \<Rightarrow> s | (k, v) # _ \<Rightarrow> s\<lparr>s_currentRev := decodeLogKey k\<rparr>)
                    in (None, if s_lastSeq s < s_currentRev s then s\<lparr>s_lastSeq := s_currentRev s\<rparr> else s)))))"

definition new_store :: "'db \<Rightarrow> 'db sstore" where
  "new_store db = \<lparr>s_db = db, s_currentRev = 0, s_compactRev = 0, s_lastSeq = 0, s_notify = 0,
     s_closed = False, s_watchPrefixes = []\<rparr>"

text \<open>The retry loop of \<open>Open\<close> over the outcomes of the attempts to open the database, each with
  whether the deadline has passed by then; \<open>None\<close> while it is still waiting.\<close>

fun store_Open :: "'db pebble \<Rightarrow> ('db res \<times> bool) list \<Rightarrow> 'db sstore res option" where
  "store_Open P [] = None"
| "store_Open P ((Inr db, late) # as) =
     (case loadMeta P (new_store db) of (Some err, s) \<Rightarrow> Some (Inl err) | (None, s) \<Rightarrow> Some (Inr s))"
| "store_Open P ((Inl err, late) # as) =
     (if \<not> isPebbleLockError err \<or> late then Some (Inl (errStore ''open pebble'')) else store_Open P as)"

definition store_OpenReadOnly :: "'db pebble \<Rightarrow> 'db res \<Rightarrow> 'db sstore res" where
  "store_OpenReadOnly P r = (case r of
       Inl err \<Rightarrow> Inl (errStore ''open read-only pebble'')
     | Inr db \<Rightarrow> (case loadMeta P (new_store db) of (Some err, s) \<Rightarrow> Inl err | (None, s) \<Rightarrow> Inr s))"

definition SignalClose :: "'db sstore \<Rightarrow> 'db sstore" where
  "SignalClose s = s\<lparr>s_closed := True\<rparr>"

definition broadcast :: "'db sstore \<Rightarrow> 'db sstore" where
  "broadcast s = s\<lparr>s_notify := Suc (s_notify s)\<rparr>"

definition NotifyRevision :: "'db sstore \<Rightarrow> 'db sstore" where
  "NotifyRevision s = broadcast s"

section \<open>Applying entries\<close>

definition entry_record :: "entry \<Rightarrow> srecord" where
  "entry_record e = \<lparr>r_key = e_Key e, r_value = e_Value e, r_createRevision = e_CreateRevision e,
     r_prevRevision = e_PrevRevision e, r_version = entryVersion (e_Version e), r_lease = e_Lease e,
     r_create = (e_Op e = OpCreate), r_delete = (e_Op e = OpDelete)\<rparr>"

definition subop_record :: "txn_subop \<Rightarrow> srecord" where
  "subop_record op = \<lparr>r_key = so_Key op, r_value = so_Value op, r_createRevision = so_CreateRevision op,
     r_prevRevision = so_PrevRevision op, r_version = entryVersion (so_Version op), r_lease = so_Lease op,
     r_create = (so_Op op = OpCreate), r_delete = (so_Op op = OpDelete)\<rparr>"

fun apply_subops :: "'db pebble \<Rightarrow> 'db \<Rightarrow> int \<Rightarrow> nat \<Rightarrow> txn_subop list \<Rightarrow> batch \<Rightarrow> batch res" where
  "apply_subops P db rv i [] b = Inr b"
| "apply_subops P db rv i (op # ops) b =
     (case p_Add P (BSet (logKeyWithSub rv i) (marshalRecord (subop_record op))) b db of
        Inl err \<Rightarrow> Inl (errStore ''set txn log key'')
      | Inr b \<Rightarrow>
          if so_Op op = OpDelete then
            (case p_Add P (BDelete (idxKey (so_Key op))) b db of
               Inl err \<Rightarrow> Inl (errStore ''delete txn idx key'')
             | Inr b \<Rightarrow> apply_subops P db rv (Suc i) ops b)
          else
            (case p_Add P (BSet (idxKey (so_Key op)) (encodeRev rv)) b db of
               Inl err \<Rightarrow> Inl (errStore ''set txn idx key'')
             | Inr b \<Rightarrow> apply_subops P db rv (Suc i) ops b))"

definition applyTxnEntry :: "'db pebble \<Rightarrow> 'db \<Rightarrow> batch \<Rightarrow> entry \<Rightarrow> batch res" where
  "applyTxnEntry P db b e = (case DecodeTxnOps (e_Value e) of
       Inl err \<Rightarrow> Inl (errStore ''decode txn ops'')
     | Inr ops \<Rightarrow> apply_subops P db (e_Revision e) 0 ops b)"

definition applyEntry :: "'db pebble \<Rightarrow> 'db \<Rightarrow> batch \<Rightarrow> entry \<Rightarrow> batch res" where
  "applyEntry P db b e =
     (if e_Op e = OpTxn then applyTxnEntry P db b e
      else case p_Add P (BSet (logKey (e_Revision e)) (marshalRecord (entry_record e))) b db of
        Inl err \<Rightarrow> Inl (errStore ''set log key'')
      | Inr b \<Rightarrow>
          if e_Op e = OpDelete then
            (case p_Add P (BDelete (idxKey (e_Key e))) b db of
               Inl err \<Rightarrow> Inl (errStore ''delete idx key'') | Inr b \<Rightarrow> Inr b)
          else
            (case p_Add P (BSet (idxKey (e_Key e)) (encodeRev (e_Revision e))) b db of
               Inl err \<Rightarrow> Inl (errStore ''set idx key'') | Inr b \<Rightarrow> Inr b))"

fun later_loop :: "gostring \<Rightarrow> (bytes \<times> bytes) list \<Rightarrow> goerr option \<Rightarrow> bool res" where
  "later_loop key [] iterErr = (case iterErr of None \<Rightarrow> Inr False | Some e \<Rightarrow> Inl e)"
| "later_loop key ((k, v) # kvs) iterErr =
     (case unmarshalRecord v of
        Inl err \<Rightarrow> Inl (errStore ''compact later-revision decode'')
      | Inr r \<Rightarrow> if r_key r = key then Inr True else later_loop key kvs iterErr)"

definition hasLaterRevisionAtOrBefore :: "'db pebble \<Rightarrow> 'db \<Rightarrow> gostring \<Rightarrow> int \<Rightarrow> int \<Rightarrow> bool res" where
  "hasLaterRevisionAtOrBefore P db key afterRev beforeOrEqualRev =
     (if afterRev \<ge> beforeOrEqualRev then Inr False
      else case p_Iter P (logKey (wrap64 (afterRev + 1))) (logKey (wrap64 (beforeOrEqualRev + 1))) db of
        Inl err \<Rightarrow> Inl (errStore ''compact later-revision iter'')
      | Inr (kvs, iterErr) \<Rightarrow> later_loop key kvs iterErr)"

fun compact_loop :: "'db pebble \<Rightarrow> 'db \<Rightarrow> int \<Rightarrow> (bytes \<times> bytes) list \<Rightarrow> goerr option \<Rightarrow> batch \<Rightarrow> batch res" where
  "compact_loop P db compactRev [] iterErr b =
     (case iterErr of None \<Rightarrow> Inr b | Some e \<Rightarrow> Inl (errStore ''compact scan''))"
| "compact_loop P db compactRev ((k, v) # kvs) iterErr b =
     (case unmarshalRecord v of
        Inl err \<Rightarrow> Inl (errStore ''compact decode'')
      | Inr r \<Rightarrow>
          (case hasLaterRevisionAtOrBefore P db (r_key r) (decodeLogKey k) compactRev of
             Inl err \<Rightarrow> Inl err
           | Inr hasLater \<Rightarrow>
               if \<not> hasLater then compact_loop P db compactRev kvs iterErr b
               else (case p_Add P (BDelete k) b db of
                       Inl err \<Rightarrow> Inl (errStore ''compact delete'')
                     | Inr b \<Rightarrow> compact_loop P db compactRev kvs iterErr b)))"

definition applyCompact :: "'db pebble \<Rightarrow> batch \<Rightarrow> int \<Rightarrow> 'db sstore \<Rightarrow> batch res \<times> 'db sstore" where
  "applyCompact P b compactRev s =
     (case p_Add P (BSet metaCompactKey (encodeRev compactRev)) b (s_db s) of
        Inl err \<Rightarrow> (Inl err, s)
      | Inr b \<Rightarrow>
          (case p_Iter P (logKey (s_compactRev s)) (logKey compactRev) (s_db s) of
             Inl err \<Rightarrow> (Inl (errStore ''compact iter''), s)
           | Inr (kvs, iterErr) \<Rightarrow>
               (case compact_loop P (s_db s) compactRev kvs iterErr b of
                  Inl err \<Rightarrow> (Inl err, s)
                | Inr b \<Rightarrow> (Inr b, s\<lparr>s_compactRev := compactRev\<rparr>))))"

definition commitBatch :: "'db pebble \<Rightarrow> batch \<Rightarrow> int \<Rightarrow> int \<Rightarrow> bool \<Rightarrow> 'db sstore \<Rightarrow> goerr option \<times> 'db sstore" where
  "commitBatch P b maxRev maxSeq sync s =
     (case (if maxRev > 0 then p_Add P (BSet metaCurrentRevKey (encodeRev maxRev)) b (s_db s) else Inr b) of
        Inl err \<Rightarrow> (Some (errStore ''set current rev''), s)
      | Inr b \<Rightarrow>
     (case (if maxSeq > 0 then p_Add P (BSet metaLastSeqKey (encodeRev maxSeq)) b (s_db s) else Inr b) of
        Inl err \<Rightarrow> (Some (errStore ''set last seq''), s)
      | Inr b \<Rightarrow>
     (case p_Commit P b sync (s_db s) of
        (Some err, db) \<Rightarrow> (Some (errStore ''commit batch''), s\<lparr>s_db := db\<rparr>)
      | (None, db) \<Rightarrow>
          (None, s\<lparr>s_db := db, s_currentRev := max (s_currentRev s) maxRev, s_lastSeq := max (s_lastSeq s) maxSeq\<rparr>))))"

fun apply_loop :: "'db pebble \<Rightarrow> entry list \<Rightarrow> batch \<Rightarrow> int \<Rightarrow> int \<Rightarrow> 'db sstore \<Rightarrow> (batch \<times> int \<times> int) res \<times> 'db sstore" where
  "apply_loop P [] b maxRev maxSeq s = (Inr (b, maxRev, maxSeq), s)"
| "apply_loop P (e # es) b maxRev maxSeq s =
     (if e_Op e = OpCompact then
        (case applyCompact P b (e_PrevRevision e) s of
           (Inl err, s) \<Rightarrow> (Inl err, s)
         | (Inr b, s) \<Rightarrow> apply_loop P es b maxRev (max maxSeq (Sequence e)) s)
      else
        (case applyEntry P (s_db s) b e of
           Inl err \<Rightarrow> (Inl err, s)
         | Inr b \<Rightarrow> apply_loop P es b (max maxRev (e_Revision e)) (max maxSeq (Sequence e)) s))"

definition store_Apply :: "'db pebble \<Rightarrow> entry list \<Rightarrow> 'db sstore \<Rightarrow> goerr option \<times> 'db sstore" where
  "store_Apply P entries s =
     (if entries = [] then (None, s)
      else case apply_loop P entries [] 0 0 s of
        (Inl err, s) \<Rightarrow> (Some err, s)
      | (Inr (b, maxRev, maxSeq), s) \<Rightarrow>
          (case commitBatch P b maxRev maxSeq False s of
             (Some err, s) \<Rightarrow> (Some err, s)
           | (None, s) \<Rightarrow> (None, broadcast s)))"

text \<open>Recovery removes what an older term wrote at the revision of an entry. The errors that the source ignores
  leave the batch as it is.\<close>

definition try_delete :: "'db pebble \<Rightarrow> 'db \<Rightarrow> bytes \<Rightarrow> batch \<Rightarrow> batch" where
  "try_delete P db k b = (case p_Add P (BDelete k) b db of Inl _ \<Rightarrow> b | Inr b' \<Rightarrow> b')"

fun purge_loop :: "'db pebble \<Rightarrow> 'db \<Rightarrow> (bytes \<times> bytes) list \<Rightarrow> batch \<Rightarrow> batch" where
  "purge_loop P db [] b = b"
| "purge_loop P db ((k, v) # kvs) b =
     (let b = (case unmarshalRecord v of
                 Inr stale \<Rightarrow> if \<not> r_delete stale then try_delete P db (idxKey (r_key stale)) b else b
               | Inl _ \<Rightarrow> b)
      in purge_loop P db kvs (try_delete P db k b))"

definition cleanup_stale :: "'db pebble \<Rightarrow> 'db \<Rightarrow> entry \<Rightarrow> batch \<Rightarrow> batch res" where
  "cleanup_stale P db e b =
     (if e_Op e = OpTxn then
        (case p_Iter P (logKey (e_Revision e)) (logKey (wrap64 (e_Revision e + 1))) db of
           Inl _ \<Rightarrow> Inr b
         | Inr (kvs, _) \<Rightarrow> Inr (purge_loop P db kvs b))
      else
        (case p_Get P (logKey (e_Revision e)) db of
           Inl _ \<Rightarrow> Inr b
         | Inr old \<Rightarrow>
             (case unmarshalRecord old of
                Inl _ \<Rightarrow> Inr b
              | Inr r \<Rightarrow>
                  if \<not> r_delete r \<and> r_key r \<noteq> e_Key e then
                    (case p_Add P (BDelete (idxKey (r_key r))) b db of
                       Inl err \<Rightarrow> Inl (errStore ''cleanup stale idx'')
                     | Inr b \<Rightarrow> Inr b)
                  else Inr b)))"

fun recover_loop :: "'db pebble \<Rightarrow> entry list \<Rightarrow> batch \<Rightarrow> int \<Rightarrow> int \<Rightarrow> 'db sstore \<Rightarrow> (batch \<times> int \<times> int) res \<times> 'db sstore" where
  "recover_loop P [] b maxRev maxSeq s = (Inr (b, maxRev, maxSeq), s)"
| "recover_loop P (e # es) b maxRev maxSeq s =
     (let maxSeq = max maxSeq (Sequence e) in
      if e_Op e = OpCompact then
        (case applyCompact P b (e_PrevRevision e) s of
           (Inl err, s) \<Rightarrow> (Inl err, s)
         | (Inr b, s) \<Rightarrow> recover_loop P es b maxRev maxSeq s)
      else
        (case cleanup_stale P (s_db s) e b of
           Inl err \<Rightarrow> (Inl err, s)
         | Inr b \<Rightarrow>
             (case applyEntry P (s_db s) b e of
                Inl err \<Rightarrow> (Inl err, s)
              | Inr b \<Rightarrow> recover_loop P es b (max maxRev (e_Revision e)) maxSeq s)))"

definition store_Recover :: "'db pebble \<Rightarrow> entry list \<Rightarrow> 'db sstore \<Rightarrow> goerr option \<times> 'db sstore" where
  "store_Recover P entries s =
     (if entries = [] then (None, s)
      else case recover_loop P entries [] 0 0 s of
        (Inl err, s) \<Rightarrow> (Some err, s)
      | (Inr (b, maxRev, maxSeq), s) \<Rightarrow> commitBatch P b maxRev maxSeq True s)"

end
