(* ===== verification/Store_Read.thy ===== *)
theory Store_Read
  imports Store_State
begin

text \<open>
  The read side of the state machine, \<open>src/internal/store/store.go\<close>: point lookups through the index and
  through the log, prefix listings and counts at the head and at past revisions, change histories,
  waiting for a revision and watching. An iterator's loop is a recursion over the pairs
  it meets; a loop that breaks early leaves an iterator without an error. A Go map that is filled and then read in sorted key order is an association list.
\<close>

section \<open>Waiting\<close>

text \<open>One round of the loop of \<open>WaitForRevision\<close>: it returns, or blocks on the channel generation it saw.\<close>

datatype wait_round = WaitDone "goerr option" | WaitOn nat

definition WaitForRevision :: "int \<Rightarrow> 'db sstore \<Rightarrow> wait_round" where
  "WaitForRevision rv s =
     (if s_closed s then WaitDone (Some ErrClosed)
      else let ch = s_notify s in if s_currentRev s \<ge> rv then WaitDone None else WaitOn ch)"

text \<open>What ends the blocking \<open>select\<close> of the round, given the state and whether the context is done:
  the next round, or an error; \<open>None\<close> while nothing is ready.\<close>

definition wait_ready :: "nat \<Rightarrow> bool \<Rightarrow> 'db sstore \<Rightarrow> bool" where
  "wait_ready ch ctxDone s = (s_notify s \<noteq> ch \<or> s_closed s \<or> ctxDone)"

section \<open>Point reads\<close>

record keyvalue =
  kv_Key :: gostring
  kv_Value :: bytes
  kv_Revision :: int
  kv_CreateRevision :: int
  kv_PrevRevision :: int
  kv_Version :: int
  kv_Lease :: int

record readoptions =
  ro_Revision :: int
  ro_FromKey :: gostring
  ro_Limit :: int

definition getIdxRev :: "'db pebble \<Rightarrow> gostring \<Rightarrow> 'db sstore \<Rightarrow> int res" where
  "getIdxRev P key s = (case p_Get P (idxKey key) (s_db s) of
       Inr v \<Rightarrow> Inr (decodeRev v)
     | Inl err \<Rightarrow> if err = ErrNotFound then Inr 0 else Inl (errStore ''get idx''))"

definition recordToKV :: "gostring \<Rightarrow> int \<Rightarrow> srecord \<Rightarrow> keyvalue" where
  "recordToKV key rv r = \<lparr>kv_Key = key, kv_Value = r_value r, kv_Revision = rv,
     kv_CreateRevision = r_createRevision r, kv_PrevRevision = r_prevRevision r,
     kv_Version = recordVersion r, kv_Lease = r_lease r\<rparr>"

fun sub_scan :: "gostring \<Rightarrow> int \<Rightarrow> (bytes \<times> bytes) list \<Rightarrow> keyvalue res" where
  "sub_scan key rv [] = Inl (errStore ''get log: not found in txn sub-ops'')"
| "sub_scan key rv ((k, v) # kvs) =
     (case unmarshalRecord v of
        Inl _ \<Rightarrow> sub_scan key rv kvs
      | Inr r \<Rightarrow> if r_key r = key then Inr (recordToKV key rv r) else sub_scan key rv kvs)"

definition getLogEntry :: "'db pebble \<Rightarrow> gostring \<Rightarrow> int \<Rightarrow> 'db sstore \<Rightarrow> keyvalue res" where
  "getLogEntry P key rv s = (case p_Get P (logKey rv) (s_db s) of
       Inr v \<Rightarrow> (case unmarshalRecord v of Inl err \<Rightarrow> Inl err | Inr r \<Rightarrow> Inr (recordToKV key rv r))
     | Inl err \<Rightarrow>
         if err \<noteq> ErrNotFound then Inl (errStore ''get log'')
         else (case p_Iter P (logKeyWithSub rv 0) (logKey (wrap64 (rv + 1))) (s_db s) of
                 Inl err \<Rightarrow> Inl (errStore ''get log txn scan'')
               | Inr (kvs, _) \<Rightarrow> sub_scan key rv kvs))"

definition store_Get :: "'db pebble \<Rightarrow> gostring \<Rightarrow> 'db sstore \<Rightarrow> keyvalue option res" where
  "store_Get P key s = (case getIdxRev P key s of
       Inl err \<Rightarrow> Inl err
     | Inr rv \<Rightarrow> if rv = 0 then Inr None
                else (case getLogEntry P key rv s of Inl err \<Rightarrow> Inl err | Inr kv \<Rightarrow> Inr (Some kv)))"

definition resolveReadRevision :: "int \<Rightarrow> 'db sstore \<Rightarrow> int res" where
  "resolveReadRevision revision s =
     (if revision = 0 then Inr (s_currentRev s)
      else if s_compactRev s > 0 \<and> revision < s_compactRev s then Inl ErrCompacted
      else if revision > s_currentRev s then Inl ErrFutureRevision
      else Inr revision)"

text \<open>The loop of \<open>getAtRevision\<close>, from the newest log record to the oldest.\<close>

fun at_loop :: "gostring \<Rightarrow> (bytes \<times> bytes) list \<Rightarrow> goerr option \<Rightarrow> keyvalue option res" where
  "at_loop key [] iterErr = (case iterErr of None \<Rightarrow> Inr None | Some e \<Rightarrow> Inl e)"
| "at_loop key ((k, v) # kvs) iterErr =
     (case unmarshalRecord v of
        Inl err \<Rightarrow> Inl err
      | Inr r \<Rightarrow>
          if r_key r \<noteq> key then at_loop key kvs iterErr
          else if r_delete r then Inr None
          else Inr (Some (recordToKV (r_key r) (decodeLogKey k) r)))"

definition getAtRevision :: "'db pebble \<Rightarrow> gostring \<Rightarrow> int \<Rightarrow> 'db sstore \<Rightarrow> keyvalue option res" where
  "getAtRevision P key targetRev s =
     (case p_IterRev P logLower (logKey (wrap64 (targetRev + 1))) (s_db s) of
        Inl err \<Rightarrow> Inl (errStore ''get-at iter'')
      | Inr (kvs, iterErr) \<Rightarrow> at_loop key kvs iterErr)"

definition GetAt :: "'db pebble \<Rightarrow> gostring \<Rightarrow> int \<Rightarrow> 'db sstore \<Rightarrow> keyvalue option res" where
  "GetAt P key revision s = (case resolveReadRevision revision s of
       Inl err \<Rightarrow> Inl err
     | Inr targetRev \<Rightarrow> if revision = 0 then store_Get P key s else getAtRevision P key targetRev s)"

definition store_Exists :: "'db pebble \<Rightarrow> gostring \<Rightarrow> 'db sstore \<Rightarrow> bool res" where
  "store_Exists P key s = (case getIdxRev P key s of Inl err \<Rightarrow> Inl err | Inr rv \<Rightarrow> Inr (rv \<noteq> 0))"

definition ExistsAt :: "'db pebble \<Rightarrow> gostring \<Rightarrow> int \<Rightarrow> 'db sstore \<Rightarrow> bool res" where
  "ExistsAt P key revision s =
     (if revision = 0 then store_Exists P key s
      else case GetAt P key revision s of Inl err \<Rightarrow> Inl err | Inr kv \<Rightarrow> Inr (kv \<noteq> None))"

section \<open>The log scan\<close>

datatype event_type = EventPut | EventDelete

record event =
  ev_Type :: event_type
  ev_KV :: keyvalue
  ev_PrevKV :: "keyvalue option"

definition record_event :: "'db pebble \<Rightarrow> bool \<Rightarrow> int \<Rightarrow> srecord \<Rightarrow> 'db sstore \<Rightarrow> event" where
  "record_event P withPrevKV rv r s =
     \<lparr>ev_Type = (if r_delete r then EventDelete else EventPut),
      ev_KV = recordToKV (r_key r) rv r,
      ev_PrevKV = (if withPrevKV \<and> r_prevRevision r > 0
                   then (case getLogEntry P (r_key r) (r_prevRevision r) s of Inl _ \<Rightarrow> None | Inr kv \<Rightarrow> Some kv)
                   else None)\<rparr>"

fun scan_loop :: "'db pebble \<Rightarrow> gostring \<Rightarrow> bool \<Rightarrow> 'db sstore \<Rightarrow> (bytes \<times> bytes) list \<Rightarrow> goerr option \<Rightarrow> event list \<Rightarrow> nat
    \<Rightarrow> event list res \<times> nat" where
  "scan_loop P pfx withPrevKV s [] iterErr events scanned =
     (case iterErr of None \<Rightarrow> (Inr events, scanned) | Some e \<Rightarrow> (Inl e, scanned))"
| "scan_loop P pfx withPrevKV s ((k, v) # kvs) iterErr events scanned =
     (case unmarshalRecord v of
        Inl err \<Rightarrow> (Inl err, Suc scanned)
      | Inr r \<Rightarrow>
          if pfx \<noteq> [] \<and> (length (r_key r) < length pfx \<or> take (length pfx) (r_key r) \<noteq> pfx)
          then scan_loop P pfx withPrevKV s kvs iterErr events (Suc scanned)
          else scan_loop P pfx withPrevKV s kvs iterErr (events @ [record_event P withPrevKV (decodeLogKey k) r s]) (Suc scanned))"

definition scanLog :: "'db pebble \<Rightarrow> gostring \<Rightarrow> int \<Rightarrow> int \<Rightarrow> bool \<Rightarrow> 'db sstore \<Rightarrow> event list res \<times> nat" where
  "scanLog P pfx fromRev toRev withPrevKV s =
     (case p_Iter P (logKey fromRev) (logKey (wrap64 (toRev + 1))) (s_db s) of
        Inl err \<Rightarrow> (Inl (errStore ''scan log iter''), 0)
      | Inr (kvs, iterErr) \<Rightarrow> scan_loop P pfx withPrevKV s kvs iterErr [] 0)"

section \<open>Range reads\<close>

definition idxBounds :: "gostring \<Rightarrow> gostring \<Rightarrow> bytes \<times> bytes" where
  "idxBounds pfx fromKey =
     (let lower = idxKey pfx;
          lower = (if fromKey \<noteq> [] \<and> idxKey fromKey > lower then idxKey fromKey else lower)
      in (lower, idxKeyUpper pfx))"

fun list_loop :: "'db pebble \<Rightarrow> int \<Rightarrow> 'db sstore \<Rightarrow> (bytes \<times> bytes) list \<Rightarrow> goerr option \<Rightarrow> keyvalue list \<Rightarrow> keyvalue list res" where
  "list_loop P limit s [] iterErr out = (case iterErr of None \<Rightarrow> Inr out | Some e \<Rightarrow> Inl e)"
| "list_loop P limit s ((k, v) # kvs) iterErr out =
     (if limit > 0 \<and> int (length out) \<ge> limit then Inr out
      else case getLogEntry P (drop 1 k) (decodeRev v) s of
        Inl err \<Rightarrow> Inl err
      | Inr kv \<Rightarrow> list_loop P limit s kvs iterErr (out @ [kv]))"

definition listCurrent :: "'db pebble \<Rightarrow> gostring \<Rightarrow> gostring \<Rightarrow> int \<Rightarrow> 'db sstore \<Rightarrow> keyvalue list res" where
  "listCurrent P pfx fromKey limit s = (case idxBounds pfx fromKey of (lower, upper) \<Rightarrow>
     (case p_Iter P lower upper (s_db s) of
        Inl err \<Rightarrow> Inl (errStore ''list iter'')
      | Inr (kvs, iterErr) \<Rightarrow> list_loop P limit s kvs iterErr []))"

fun latest_loop :: "event list \<Rightarrow> (gostring \<times> keyvalue) list \<Rightarrow> (gostring \<times> keyvalue) list" where
  "latest_loop [] latest = latest"
| "latest_loop (ev # evs) latest =
     (if ev_Type ev = EventDelete then latest_loop evs (AList.delete (kv_Key (ev_KV ev)) latest)
      else latest_loop evs (AList.update (kv_Key (ev_KV ev)) (ev_KV ev) latest))"

fun range_loop :: "readoptions \<Rightarrow> (gostring \<times> keyvalue) list \<Rightarrow> gostring list \<Rightarrow> keyvalue list \<Rightarrow> keyvalue list" where
  "range_loop opts latest [] out = out"
| "range_loop opts latest (key # keys) out =
     (if ro_FromKey opts \<noteq> [] \<and> key < ro_FromKey opts then range_loop opts latest keys out
      else if ro_Limit opts > 0 \<and> int (length out) \<ge> ro_Limit opts then out
      else range_loop opts latest keys (out @ [the (map_of latest key)]))"

definition ListRange :: "'db pebble \<Rightarrow> gostring \<Rightarrow> readoptions \<Rightarrow> 'db sstore \<Rightarrow> keyvalue list res" where
  "ListRange P pfx opts s = (case resolveReadRevision (ro_Revision opts) s of
       Inl err \<Rightarrow> Inl err
     | Inr targetRev \<Rightarrow>
         if ro_Revision opts = 0 then listCurrent P pfx (ro_FromKey opts) (ro_Limit opts) s
         else (case fst (scanLog P pfx 1 targetRev False s) of
                 Inl err \<Rightarrow> Inl err
               | Inr events \<Rightarrow>
                   let latest = latest_loop events []
                   in Inr (range_loop opts latest (sort (map fst latest)) [])))"

definition ListLimit :: "'db pebble \<Rightarrow> gostring \<Rightarrow> int \<Rightarrow> 'db sstore \<Rightarrow> keyvalue list res" where
  "ListLimit P pfx limit s = ListRange P pfx \<lparr>ro_Revision = 0, ro_FromKey = [], ro_Limit = limit\<rparr> s"

definition store_List :: "'db pebble \<Rightarrow> gostring \<Rightarrow> 'db sstore \<Rightarrow> keyvalue list res" where
  "store_List P pfx s = ListLimit P pfx 0 s"

definition countCurrent :: "'db pebble \<Rightarrow> gostring \<Rightarrow> gostring \<Rightarrow> 'db sstore \<Rightarrow> int res" where
  "countCurrent P pfx fromKey s = (case idxBounds pfx fromKey of (lower, upper) \<Rightarrow>
     (case p_Iter P lower upper (s_db s) of
        Inl err \<Rightarrow> Inl (errStore ''count-from iter'')
      | Inr (kvs, Some e) \<Rightarrow> Inl e
      | Inr (kvs, None) \<Rightarrow> Inr (int (length kvs))))"

definition CountRange :: "'db pebble \<Rightarrow> gostring \<Rightarrow> readoptions \<Rightarrow> 'db sstore \<Rightarrow> int res" where
  "CountRange P pfx opts s =
     (if ro_Revision opts = 0 then countCurrent P pfx (ro_FromKey opts) s
      else case ListRange P pfx (opts\<lparr>ro_Limit := 0\<rparr>) s of
        Inl err \<Rightarrow> Inl err
      | Inr kvs \<Rightarrow> Inr (int (length kvs)))"

definition store_Count :: "'db pebble \<Rightarrow> gostring \<Rightarrow> 'db sstore \<Rightarrow> int res" where
  "store_Count P pfx s = CountRange P pfx \<lparr>ro_Revision = 0, ro_FromKey = [], ro_Limit = 0\<rparr> s"

section \<open>Histories and watches\<close>

definition History :: "'db pebble \<Rightarrow> gostring \<Rightarrow> 'db sstore \<Rightarrow> event list res" where
  "History P key s =
     (if key = [] then Inl (errStore ''history key must not be empty'')
      else case fst (scanLog P [] 1 (s_currentRev s) True s) of
        Inl err \<Rightarrow> Inl err
      | Inr events \<Rightarrow> Inr (filter (\<lambda>ev. kv_Key (ev_KV ev) = key) events))"

definition Changes :: "'db pebble \<Rightarrow> gostring \<Rightarrow> int \<Rightarrow> int \<Rightarrow> 'db sstore \<Rightarrow> event list res" where
  "Changes P pfx fromRev toRev s =
     (if fromRev \<le> 0 then Inl (errStore ''from revision must be >= 1'')
      else if toRev < fromRev then Inl (errStore ''to revision must be >= from revision'')
      else if s_currentRev s = 0 \<or> fromRev > s_currentRev s then Inr []
      else fst (scanLog P pfx fromRev (min toRev (s_currentRev s)) True s))"

definition registerWatch :: "gostring \<Rightarrow> 'db sstore \<Rightarrow> 'db sstore" where
  "registerWatch pfx s = s\<lparr>s_watchPrefixes :=
     AList.update pfx ((case map_of (s_watchPrefixes s) pfx of None \<Rightarrow> 0 | Some n \<Rightarrow> n) + 1) (s_watchPrefixes s)\<rparr>"

definition unregisterWatch :: "gostring \<Rightarrow> 'db sstore \<Rightarrow> 'db sstore" where
  "unregisterWatch pfx s =
     (let n = (case map_of (s_watchPrefixes s) pfx of None \<Rightarrow> 0 | Some n \<Rightarrow> n)
      in if n \<le> 1 then s\<lparr>s_watchPrefixes := AList.delete pfx (s_watchPrefixes s)\<rparr>
         else s\<lparr>s_watchPrefixes := AList.update pfx (n - 1) (s_watchPrefixes s)\<rparr>)"

text \<open>A running watch: its parameters, the next revision to scan from, and the events sent so far.\<close>

record watcher =
  w_prefix :: gostring
  w_nextRev :: int
  w_withPrevKV :: bool
  w_sent :: "event list"
  w_done :: bool

definition store_Watch :: "gostring \<Rightarrow> int \<Rightarrow> bool \<Rightarrow> 'db sstore \<Rightarrow> watcher res \<times> 'db sstore" where
  "store_Watch pfx startRev withPrevKV s =
     (if s_closed s then (Inl ErrClosed, s)
      else (Inr \<lparr>w_prefix = pfx, w_nextRev = wrap64 (startRev + 1), w_withPrevKV = withPrevKV, w_sent = [], w_done = False\<rparr>,
            registerWatch pfx s))"

text \<open>One round of \<open>watchLoop\<close>. \<open>sent\<close> is how many events the consumer took before the store was closed or
  the context ended, or \<open>None\<close> when it took them all.\<close>

definition watch_round :: "'db pebble \<Rightarrow> nat option \<Rightarrow> watcher \<Rightarrow> 'db sstore \<Rightarrow> watcher" where
  "watch_round P sent w s = (case WaitForRevision (w_nextRev w) s of
       WaitOn _ \<Rightarrow> w
     | WaitDone (Some err) \<Rightarrow> w\<lparr>w_done := True\<rparr>
     | WaitDone None \<Rightarrow>
         let curRev = s_currentRev s
         in (case fst (scanLog P (w_prefix w) (w_nextRev w) curRev (w_withPrevKV w) s) of
               Inl err \<Rightarrow> w\<lparr>w_done := True\<rparr>
             | Inr events \<Rightarrow>
                 (case sent of
                    Some n \<Rightarrow> w\<lparr>w_sent := w_sent w @ take n events, w_done := True\<rparr>
                  | None \<Rightarrow> w\<lparr>w_sent := w_sent w @ events, w_nextRev := wrap64 (curRev + 1)\<rparr>)))"

end
