(* ===== verification/Store_Spec.thy ===== *)
theory Store_Spec
  imports Store_Read
begin

text \<open>
  What the state machine promises: it behaves like a store that keeps the whole change history. The
  specification state is the list of all changes in the order of their revisions; the value of a
  key at a revision is its newest change up to there. This theory holds the specification,
  its lemmas, and the decoding of a database's pairs into changes.
\<close>

section \<open>Change histories\<close>

type_synonym change = "int \<times> srecord"

definition up_to :: "int \<Rightarrow> change list \<Rightarrow> change list" where
  "up_to t cs = filter (\<lambda>c. fst c \<le> t) cs"

definition newest :: "gostring \<Rightarrow> change list \<Rightarrow> change option" where
  "newest key cs = find (\<lambda>c. r_key (snd c) = key) (rev cs)"

definition live :: "change option \<Rightarrow> change option" where
  "live c = (case c of None \<Rightarrow> None | Some (rv, r) \<Rightarrow> if r_delete r then None else Some (rv, r))"

definition change_kv :: "change \<Rightarrow> keyvalue" where
  "change_kv c = recordToKV (r_key (snd c)) (fst c) (snd c)"

text \<open>The value of a key at a revision.\<close>

definition value_at :: "gostring \<Rightarrow> int \<Rightarrow> change list \<Rightarrow> keyvalue option" where
  "value_at key t cs = map_option change_kv (live (newest key (up_to t cs)))"

definition live_keys :: "int \<Rightarrow> change list \<Rightarrow> gostring set" where
  "live_keys t cs = {key. value_at key t cs \<noteq> None}"

lemma find_append: "find P (xs @ ys) = (case find P xs of None \<Rightarrow> find P ys | Some x \<Rightarrow> Some x)"
  by (induction xs) auto

lemma newest_append: "newest key (xs @ ys) = (case newest key ys of None \<Rightarrow> newest key xs | Some x \<Rightarrow> Some x)"
  unfolding newest_def by (simp add: find_append split: option.split)

lemma newest_Nil [simp]: "newest key [] = None"
  by (simp add: newest_def)

lemma up_to_append [simp]: "up_to t (xs @ ys) = up_to t xs @ up_to t ys"
  by (simp add: up_to_def)

lemma up_to_all: "\<forall>c \<in> set cs. fst c \<le> t \<Longrightarrow> up_to t cs = cs"
  by (simp add: up_to_def filter_id_conv)

lemma up_to_none: "\<forall>c \<in> set cs. t < fst c \<Longrightarrow> up_to t cs = []"
  by (auto simp: up_to_def filter_empty_conv)

lemma newest_None: "newest key cs = None \<longleftrightarrow> (\<forall>c \<in> set cs. r_key (snd c) \<noteq> key)"
  unfolding newest_def find_None_iff set_rev by blast

lemma newest_Some_split:
  "newest key cs = Some c \<longleftrightarrow>
     (\<exists>xs ys. cs = xs @ c # ys \<and> r_key (snd c) = key \<and> (\<forall>d \<in> set ys. r_key (snd d) \<noteq> key))"
proof
  assume "newest key cs = Some c"
  then obtain i where i: "i < length cs" "r_key (snd (rev cs ! i)) = key" "c = rev cs ! i" "\<forall>j<i. r_key (snd (rev cs ! j)) \<noteq> key"
    by (auto simp: newest_def find_Some_iff)
  have "rev cs = take i (rev cs) @ c # drop (Suc i) (rev cs)" using i by (simp add: id_take_nth_drop)
  then have "cs = rev (drop (Suc i) (rev cs)) @ c # rev (take i (rev cs))"
    by (metis append.assoc append_Cons append_Nil rev.simps(2) rev_append rev_rev_ident)
  moreover have "\<forall>d \<in> set (rev (take i (rev cs))). r_key (snd d) \<noteq> key"
  proof
    fix d assume "d \<in> set (rev (take i (rev cs)))"
    then obtain j where "j < i" "d = rev cs ! j" using i(1) by (auto simp: in_set_conv_nth)
    with i(4) show "r_key (snd d) \<noteq> key" by blast
  qed
  ultimately show "\<exists>xs ys. cs = xs @ c # ys \<and> r_key (snd c) = key \<and> (\<forall>d \<in> set ys. r_key (snd d) \<noteq> key)"
    using i(2,3) by blast
next
  assume "\<exists>xs ys. cs = xs @ c # ys \<and> r_key (snd c) = key \<and> (\<forall>d \<in> set ys. r_key (snd d) \<noteq> key)"
  then obtain xs ys where "cs = xs @ c # ys" "r_key (snd c) = key" "\<forall>d \<in> set ys. r_key (snd d) \<noteq> key" by blast
  moreover from this(3) have "newest key ys = None" by (simp add: newest_None)
  ultimately show "newest key cs = Some c"
    using newest_append [of key "xs @ [c]" ys] newest_append [of key xs "[c]"] by (simp add: newest_def [of key "[c]"])
qed

lemma newestD: "newest key cs = Some c \<Longrightarrow> c \<in> set cs \<and> r_key (snd c) = key"
  by (auto simp: newest_Some_split)

text \<open>In a history ordered by revision, with a key at most once per revision, the newest change is the
  one with the greatest revision.\<close>

definition ordered :: "change list \<Rightarrow> bool" where
  "ordered cs \<longleftrightarrow> sorted (map fst cs) \<and> distinct (map (\<lambda>c. (fst c, r_key (snd c))) cs)"

lemma not_in_image: "y \<notin> f ` A \<longleftrightarrow> (\<forall>x \<in> A. f x \<noteq> y)"
  by blast

lemma ordered_split:
  assumes "ordered (xs @ c # ys)"
  shows "d \<in> set xs \<Longrightarrow> fst d \<le> fst c \<and> (fst d = fst c \<longrightarrow> r_key (snd d) \<noteq> r_key (snd c))"
    and "d \<in> set ys \<Longrightarrow> fst c \<le> fst d \<and> (fst d = fst c \<longrightarrow> r_key (snd d) \<noteq> r_key (snd c))"
proof -
  let ?f = "\<lambda>c. (fst c, r_key (snd c))"
  have s: "sorted (map fst xs @ fst c # map fst ys)" and d: "distinct (map ?f xs @ ?f c # map ?f ys)"
    using assms by (simp_all add: ordered_def)
  from d have "?f c \<notin> ?f ` set xs" "?f c \<notin> ?f ` set ys" by auto
  then have n: "\<forall>d \<in> set xs. ?f d \<noteq> ?f c" "\<forall>d \<in> set ys. ?f d \<noteq> ?f c" by (simp_all only: not_in_image)
  from s have l: "\<forall>d \<in> set xs. fst d \<le> fst c" "\<forall>d \<in> set ys. fst c \<le> fst d" by (simp_all add: sorted_append)
  show "fst d \<le> fst c \<and> (fst d = fst c \<longrightarrow> r_key (snd d) \<noteq> r_key (snd c))" if "d \<in> set xs"
    using l(1) n(1) that by simp
  show "fst c \<le> fst d \<and> (fst d = fst c \<longrightarrow> r_key (snd d) \<noteq> r_key (snd c))" if "d \<in> set ys"
    using l(2) n(2) that by simp
qed

lemma newest_ordered:
  assumes "ordered cs"
  shows "newest key cs = Some c \<longleftrightarrow>
    c \<in> set cs \<and> r_key (snd c) = key \<and> (\<forall>d \<in> set cs. r_key (snd d) = key \<longrightarrow> d \<noteq> c \<longrightarrow> fst d < fst c)"
proof
  assume "newest key cs = Some c"
  then obtain xs ys where s: "cs = xs @ c # ys" "r_key (snd c) = key" "\<forall>d \<in> set ys. r_key (snd d) \<noteq> key"
    by (auto simp: newest_Some_split)
  note o = ordered_split [OF assms [unfolded s(1)]]
  have "fst d < fst c" if "d \<in> set cs" "r_key (snd d) = key" "d \<noteq> c" for d
  proof -
    have "d \<in> set xs" using that s(1,3) by (metis Un_iff set_ConsD set_append)
    from o(1) [OF this] that(2) s(2) show ?thesis by auto
  qed
  moreover have "c \<in> set cs" using s(1) by simp
  ultimately show "c \<in> set cs \<and> r_key (snd c) = key \<and> (\<forall>d \<in> set cs. r_key (snd d) = key \<longrightarrow> d \<noteq> c \<longrightarrow> fst d < fst c)"
    using s(2) by blast
next
  assume r: "c \<in> set cs \<and> r_key (snd c) = key \<and> (\<forall>d \<in> set cs. r_key (snd d) = key \<longrightarrow> d \<noteq> c \<longrightarrow> fst d < fst c)"
  then obtain xs ys where s: "cs = xs @ c # ys" using split_list by fast
  note o = ordered_split(2) [OF assms [unfolded s]]
  have "r_key (snd d) \<noteq> key" if d: "d \<in> set ys" for d
  proof
    assume k: "r_key (snd d) = key"
    have "d \<noteq> c" "fst c \<le> fst d" using o [OF d] by auto
    moreover have "d \<in> set cs" using d s by simp
    ultimately show False using r k by force
  qed
  with s r show "newest key cs = Some c" unfolding newest_Some_split by blast
qed

lemma ordered_filter: "ordered cs \<Longrightarrow> ordered (filter P cs)"
  by (auto simp: ordered_def sorted_filter distinct_map intro: inj_on_subset)

lemma ordered_up_to: "ordered cs \<Longrightarrow> ordered (up_to t cs)"
  unfolding up_to_def by (rule ordered_filter)

lemma newest_exists:
  assumes "ordered cs" "d \<in> set cs" "r_key (snd d) = key"
  obtains c where "newest key cs = Some c" "fst d \<le> fst c"
proof -
  obtain c where c: "newest key cs = Some c" using assms(2,3) newest_None [of key cs] by (cases "newest key cs") auto
  with assms have "fst d \<le> fst c" by (cases "d = c") (auto simp: newest_ordered)
  with c show ?thesis by (rule that)
qed

section \<open>From database pairs to changes\<close>

definition is_log :: "bytes \<Rightarrow> bool" where
  "is_log k \<longleftrightarrow> k \<noteq> [] \<and> hd k = prefixLog"

definition log_part :: "(bytes \<times> bytes) list \<Rightarrow> (bytes \<times> bytes) list" where
  "log_part xs = filter (\<lambda>(k, v). is_log k) xs"

definition dec :: "bytes \<times> bytes \<Rightarrow> change" where
  "dec kv = (decodeLogKey (fst kv), projr (unmarshalRecord (snd kv)))"

definition changes :: "(bytes \<times> bytes) list \<Rightarrow> change list" where
  "changes xs = map dec (log_part xs)"

definition log_key :: "bytes \<Rightarrow> int \<Rightarrow> bytes \<Rightarrow> bool" where
  "log_key k rv t \<longleftrightarrow> k = prefixLog # put_i64 rv @ t \<and> 0 < rv \<and> is_rev rv \<and> (t = [] \<or> length t = 2)"

definition wf_log :: "(bytes \<times> bytes) list \<Rightarrow> bool" where
  "wf_log xs \<longleftrightarrow> (\<forall>(k, v) \<in> set xs. is_log k \<longrightarrow> (\<exists>rv t. log_key k rv t) \<and> (\<exists>r. unmarshalRecord v = Inr r))"

lemma log_keyD:
  assumes "log_key k rv t"
  shows "decodeLogKey k = rv" "0 < rv" "is_rev rv" "is_i64 rv" "is_log k" "length k = 9 + length t"
  using assms is_revD(1) [of rv]
  by (auto simp: log_key_def decodeLogKey_def gslice_def codec_simps is_log_def)

lemma log_keys: "0 < rv \<Longrightarrow> is_rev rv \<Longrightarrow> log_key (logKey rv) rv []"
  "0 < rv \<Longrightarrow> is_rev rv \<Longrightarrow> log_key (logKeyWithSub rv i) rv (put_be 2 i)"
  by (simp_all add: log_key_def logKey_def logKeyWithSub_def)

lemma wf_log_partD:
  assumes "wf_log xs" "(k, v) \<in> set (log_part xs)"
  obtains rv t r where "log_key k rv t" "unmarshalRecord v = Inr r" "dec (k, v) = (rv, r)"
proof -
  have "(k, v) \<in> set xs" "is_log k" using assms(2) by (auto simp: log_part_def)
  with assms(1) obtain rv t r where a: "log_key k rv t" "unmarshalRecord v = Inr r" by (fastforce simp: wf_log_def)
  then have "dec (k, v) = (rv, r)" using log_keyD(1) by (simp add: dec_def)
  with a show ?thesis by (rule that)
qed

lemma is_log_between: "logKey a \<le> k \<Longrightarrow> k < logKey b \<Longrightarrow> is_log k"
  by (cases k) (auto simp: logKey_def is_log_def)

lemma key_between_log:
  assumes "log_key k rv t" "0 \<le> a" "is_i64 a" "0 \<le> b" "is_i64 b"
  shows "logKey a \<le> k \<and> k < logKey b \<longleftrightarrow> a \<le> rv \<and> rv < b"
  using assms log_keyD(4) [OF assms(1)] by (auto simp: log_key_def logKey_le_iff)

lemma between_log:
  assumes "wf_log xs" "0 \<le> a" "is_i64 a" "0 \<le> b" "is_i64 b"
  shows "between (logKey a) (logKey b) xs = filter (\<lambda>kv. a \<le> fst (dec kv) \<and> fst (dec kv) < b) (log_part xs)"
proof -
  have "(logKey a \<le> k \<and> k < logKey b) \<longleftrightarrow> (a \<le> fst (dec (k, v)) \<and> fst (dec (k, v)) < b) \<and> is_log k" if "(k, v) \<in> set xs" for k v
  proof (cases "is_log k")
    case True
    with that assms(1) obtain rv t where l: "log_key k rv t" by (fastforce simp: wf_log_def)
    from key_between_log [OF l assms(2-)] log_keyD(1) [OF l] True show ?thesis by (simp add: dec_def)
  next
    case False
    then show ?thesis using is_log_between by blast
  qed
  then have "filter (\<lambda>(k, v). logKey a \<le> k \<and> k < logKey b) xs =
      filter (\<lambda>x. (a \<le> fst (dec x) \<and> fst (dec x) < b) \<and> (case x of (k, v) \<Rightarrow> is_log k)) xs"
    by (intro filter_cong) auto
  then show ?thesis by (simp add: between_def log_part_def conj_ac)
qed

lemma between_log_upper:
  assumes "wf_log xs"
  shows "between logLower logUpper xs = log_part xs"
proof -
  have "(logLower \<le> k \<and> k < logUpper) = is_log k" if "(k, v) \<in> set xs" for k v
  proof (cases "is_log k")
    case True
    with that assms obtain rv t where l: "log_key k rv t" by (fastforce simp: wf_log_def)
    then have "logKey 0 \<le> k" using logKey_le_iff(1) [of 0 rv t] log_keyD(2,4) [OF l] by (simp add: log_key_def is_i64_def)
    moreover have "k < logUpper" using l by (simp add: log_key_def logUpper_def prefixLog_def)
    ultimately show ?thesis using True by (simp add: logKey_logLower)
  next
    case False
    have n: "x < prefixLog + 1 \<longleftrightarrow> x \<le> prefixLog" for x by (rule byte_Suc_less) (simp add: prefixLog_def)
    show ?thesis
    proof (cases k)
      case (Cons x y)
      with False have "x \<noteq> prefixLog" by (simp add: is_log_def)
      with Cons False n [of x] show ?thesis by (simp add: logLower_def logUpper_def) (meson leD)
    qed (use False in \<open>simp add: logLower_def\<close>)
  qed
  then show ?thesis unfolding between_def log_part_def by (intro filter_cong) auto
qed

lemma sorted_keys_log_part: "sorted_keys xs \<Longrightarrow> sorted_keys (log_part xs)"
  by (simp add: log_part_def)

lemma changes_sorted:
  assumes "wf_log xs" "sorted_keys xs"
  shows "sorted (map fst (changes xs))"
proof -
  have "sorted_wrt (\<lambda>kv kv'. fst kv < fst kv') (log_part xs)"
    using sorted_keys_log_part [OF assms(2)] by (simp add: sorted_wrt_map)
  then have "sorted_wrt (\<lambda>kv kv'. fst (dec kv) \<le> fst (dec kv')) (log_part xs)"
  proof (rule sorted_wrt_mono_rel [rotated])
    fix x y assume a: "x \<in> set (log_part xs)" "y \<in> set (log_part xs)" "fst x < fst y"
    obtain k v k' v' where e: "x = (k, v)" "y = (k', v')" by (cases x, cases y)
    with a obtain rv t rv' t' where l: "log_key k rv t" "log_key k' rv' t'" "fst (dec x) = rv" "fst (dec y) = rv'"
      using wf_log_partD [OF assms(1)] by (metis fst_conv)
    from a(3) e l(1,2) have "rv \<le> rv'"
      using log_less_iff(1) [of rv rv' t t'] log_keyD(2,4) [OF l(1)] log_keyD(2,4) [OF l(2)] by (auto simp: log_key_def)
    with l show "fst (dec x) \<le> fst (dec y)" by simp
  qed
  then show ?thesis by (simp add: changes_def sorted_map)
qed

end
