(* ===== verification/Store_Refine.thy ===== *)
theory Store_Refine imports Store_Spec
begin

text \<open>
  The state machine of \<open>src/internal/store/store.go\<close> implements the store of \<open>Store_Spec\<close> that keeps the whole
  change history: reads return what the history says, applying entries extends it, and
  compaction loses nothing that a read at or after the compacted revision can see. The lemmas are proved for any
  database that satisfies the laws of the locale \<open>pebble_db\<close>.
\<close>

section \<open>The loops over decodable records\<close>

definition decodable :: "(bytes \<times> bytes) list \<Rightarrow> bool" where
  "decodable kvs \<longleftrightarrow> (\<forall>(k, v) \<in> set kvs. \<exists>r. unmarshalRecord v = Inr r)"

lemma decodable_Cons [simp]: "decodable ((k, v) # kvs) \<longleftrightarrow> (\<exists>r. unmarshalRecord v = Inr r) \<and> decodable kvs"
  by (simp add: decodable_def)

lemma decodable_filter: "decodable kvs \<Longrightarrow> decodable (filter Q kvs)"
  by (auto simp: decodable_def)

lemma decodable_rev [simp]: "decodable (rev kvs) = decodable kvs"
  by (simp add: decodable_def)

lemma decodable_log: "wf_log xs \<Longrightarrow> decodable (log_part xs)"
  by (fastforce simp: wf_log_def log_part_def decodable_def)

lemma dec_Inr: "unmarshalRecord v = Inr r \<Longrightarrow> dec (k, v) = (decodeLogKey k, r)"
  by (simp add: dec_def)

lemma at_loop_eq:
  "decodable kvs \<Longrightarrow> at_loop key kvs None =
     Inr (map_option change_kv (live (find (\<lambda>c. r_key (snd c) = key) (map dec kvs))))"
  by (induction key kvs "None :: goerr option" rule: at_loop.induct)
    (auto simp: live_def change_kv_def dec_Inr)

lemma later_loop_eq:
  "decodable kvs \<Longrightarrow> later_loop key kvs None = Inr (\<exists>c \<in> set (map dec kvs). r_key (snd c) = key)"
  by (induction key kvs "None :: goerr option" rule: later_loop.induct) (auto simp: dec_Inr)

definition matches :: "gostring \<Rightarrow> change \<Rightarrow> bool" where
  "matches pfx c = HasPrefix (r_key (snd c)) pfx"

lemma prefix_test:
  "(pfx \<noteq> [] \<and> (length k < length pfx \<or> take (length pfx) k \<noteq> pfx)) = (\<not> HasPrefix k pfx)"
  by (auto simp: HasPrefix_def)

lemma scan_loop_eq:
  "decodable kvs \<Longrightarrow> scan_loop P pfx w s kvs None evs n =
     (Inr (evs @ map (\<lambda>c. record_event P w (fst c) (snd c) s) (filter (matches pfx) (map dec kvs))), n + length kvs)"
proof (induction P pfx w s kvs "None :: goerr option" evs n rule: scan_loop.induct)
  case (2 P pfx w s k v kvs evs n)
  then obtain r where r: "unmarshalRecord v = Inr r" by auto
  show ?case
  proof (cases "HasPrefix (r_key r) pfx")
    case True
    with 2(2) [OF r] 2(3) r show ?thesis
      by (simp only: scan_loop.simps prefix_test) (simp add: dec_Inr matches_def prefix_test)
  next
    case False
    with 2(1) [OF r] 2(3) r show ?thesis
      by (simp only: scan_loop.simps prefix_test) (simp add: dec_Inr matches_def prefix_test)
  qed
qed simp

lemma sub_scan_eq:
  "decodable kvs \<Longrightarrow> sub_scan key rv kvs = (case find (\<lambda>c. r_key (snd c) = key) (map dec kvs) of
     None \<Rightarrow> Inl (errStore ''get log: not found in txn sub-ops'') | Some c \<Rightarrow> Inr (recordToKV key rv (snd c)))"
  by (induction key rv kvs rule: sub_scan.induct) (auto simp: dec_Inr)

section \<open>A database represents a history\<close>

text \<open>At one revision there is a single plain record or transaction records of different keys.\<close>

definition grouped :: "(bytes \<times> bytes) list \<Rightarrow> bool" where
  "grouped xs \<longleftrightarrow> (\<forall>x \<in> set (log_part xs). \<forall>y \<in> set (log_part xs). fst (dec x) = fst (dec y) \<longrightarrow>
     x = y \<or> length (fst x) = 11 \<and> length (fst y) = 11 \<and> r_key (snd (dec x)) \<noteq> r_key (snd (dec y)))"

definition represents :: "(bytes \<times> bytes) list \<Rightarrow> int \<Rightarrow> int \<Rightarrow> change list \<Rightarrow> bool" where
  "represents xs cr cur H \<longleftrightarrow>
     wf_log xs \<and> sorted_keys xs \<and> grouped xs \<and> ordered H \<and> subseq (changes xs) H \<and>
     (\<forall>c \<in> set H. 0 < fst c \<and> fst c \<le> cur) \<and>
     (\<forall>key t. cr \<le> t \<longrightarrow> newest key (up_to t (changes xs)) = newest key (up_to t H)) \<and>
     (\<forall>key. map_of xs (idxKey key) = map_option (\<lambda>c. encodeRev (fst c)) (live (newest key H)))"

lemma representsD:
  assumes "represents xs cr cur H"
  shows "wf_log xs" "sorted_keys xs" "grouped xs" "ordered H" "set (changes xs) \<subseteq> set H"
    "c \<in> set H \<Longrightarrow> 0 < fst c" "c \<in> set H \<Longrightarrow> fst c \<le> cur"
    "cr \<le> t \<Longrightarrow> newest key (up_to t (changes xs)) = newest key (up_to t H)"
    "map_of xs (idxKey key) = map_option (\<lambda>c. encodeRev (fst c)) (live (newest key H))"
    "subseq (changes xs) H"
  using assms by (auto simp: represents_def dest: list_emb_set)

lemma ordered_changes:
  assumes "wf_log xs" "sorted_keys xs" "grouped xs"
  shows "ordered (changes xs)"
proof -
  have "distinct (log_part xs)"
    using sorted_keys_distinct [OF sorted_keys_log_part [OF assms(2)]] by (simp add: distinct_map)
  moreover have "inj_on (\<lambda>x. (fst (dec x), r_key (snd (dec x)))) (set (log_part xs))"
    using assms(3) by (fastforce simp: grouped_def inj_on_def)
  ultimately show ?thesis
    using changes_sorted [OF assms(1,2)] by (simp add: ordered_def changes_def distinct_map comp_def)
qed

lemma newest_head:
  assumes "represents xs cr cur H"
  shows "newest key (changes xs) = newest key H"
proof -
  let ?t = "max cr cur"
  have "up_to ?t H = H" using representsD(7) [OF assms] by (intro up_to_all) fastforce
  moreover have "up_to ?t (changes xs) = changes xs"
    using representsD(5,7) [OF assms] by (intro up_to_all) fastforce
  ultimately show ?thesis using representsD(8) [OF assms, of ?t key] by simp
qed

lemma value_at_head:
  "represents xs cr cur H \<Longrightarrow> value_at key cur H = map_option change_kv (live (newest key H))"
  using representsD(7) [of xs cr cur H] up_to_all [of H cur] by (simp add: value_at_def)

section \<open>Reads\<close>

lemma filter_changes: "map dec (filter (\<lambda>kv. Q (dec kv)) (log_part xs)) = filter Q (changes xs)"
  by (simp add: changes_def filter_map comp_def)

lemma in_log_partD: "c \<in> set (changes xs) \<Longrightarrow> \<exists>x \<in> set (log_part xs). dec x = c"
  by (auto simp: changes_def)

lemma map_of_log_key:
  assumes "wf_log xs" "sorted_keys xs" "map_of xs (logKey rv) = Some v" "0 < rv" "is_rev rv"
  shows "(logKey rv, v) \<in> set (log_part xs)" "fst (dec (logKey rv, v)) = rv"
proof -
  have l: "is_log (logKey rv)" by (simp add: is_log_def logKey_def)
  show "(logKey rv, v) \<in> set (log_part xs)" using map_of_SomeD [OF assms(3)] l by (simp add: log_part_def)
  show "fst (dec (logKey rv, v)) = rv" using is_revD(1) [OF assms(5)] by (simp add: dec_def)
qed

lemma between_subkeys:
  assumes "wf_log xs" "0 < rv" "is_rev rv" "map_of xs (logKey rv) = None"
  shows "between (logKeyWithSub rv 0) (logKey (rv + 1)) xs = filter (\<lambda>kv. fst (dec kv) = rv) (log_part xs)"
proof -
  have "(logKeyWithSub rv 0 \<le> k \<and> k < logKey (rv + 1)) \<longleftrightarrow> is_log k \<and> fst (dec (k, v)) = rv" if i: "(k, v) \<in> set xs" for k v
  proof (cases "is_log k")
    case True
    with i assms(1) obtain rv' t where l: "log_key k rv' t" by (fastforce simp: wf_log_def)
    have "t = [] \<Longrightarrow> rv' \<noteq> rv" using l i assms(4) by (force simp: log_key_def logKey_def map_of_eq_None_iff)
    moreover have "put_be 2 0 \<le> t" if t2: "length t = 2"
    proof -
      obtain x y where "t = [x, y]" using t2 by (auto simp: numeral_2_eq_2 length_Suc_conv)
      then show ?thesis by (simp add: put_be_def upt_rec numeral_2_eq_2) (metis word_gt_0)
    qed
    moreover have "prefixLog # put_i64 rv @ put_be 2 0 \<le> prefixLog # put_i64 rv' @ t \<longleftrightarrow> rv < rv' \<or> rv = rv' \<and> put_be 2 0 \<le> t"
      using log_less_iff(2) [of rv rv' "put_be 2 0" t] assms(2,3) is_revD log_keyD(2,4) [OF l] by simp
    moreover have "k < logKey (rv + 1) \<longleftrightarrow> rv' < rv + 1"
      using logKey_le_iff(2) [of "rv + 1" rv' t] assms(2,3) is_revD(2) log_keyD(2,4) [OF l] l by (simp add: log_key_def)
    ultimately show ?thesis using l log_keyD(1) [OF l] True
      by (auto simp: log_key_def logKeyWithSub_def dec_def)
  next
    case False
    have "logKey rv \<le> k \<Longrightarrow> \<not> k < logKey (rv + 1)" using is_log_between False by blast
    moreover have "logKey rv \<le> logKeyWithSub rv 0" by (simp add: logKey_def logKeyWithSub_def append_le_append [of _ _ "[]", simplified])
    ultimately show ?thesis using False order_trans by blast
  qed
  then have "filter (\<lambda>(k, v). logKeyWithSub rv 0 \<le> k \<and> k < logKey (rv + 1)) xs =
      filter (\<lambda>x. (case x of (k, v) \<Rightarrow> is_log k) \<and> fst (dec x) = rv) xs"
    by (intro filter_cong) auto
  then show ?thesis by (simp add: between_def log_part_def)
qed

text \<open>Looking a change up among the records of its revision finds it.\<close>

lemma find_at_revision:
  assumes "ordered cs" "c \<in> set cs"
  shows "find (\<lambda>d. r_key (snd d) = r_key (snd c)) (filter (\<lambda>d. fst d = fst c) cs) = Some c"
proof -
  let ?p = "\<lambda>d. r_key (snd d) = r_key (snd c)" and ?l = "filter (\<lambda>d. fst d = fst c) cs"
  have "find ?p ?l \<noteq> None" unfolding find_None_iff set_filter using assms(2) by blast
  then obtain d where d: "find ?p ?l = Some d" by blast
  then obtain i where "i < length ?l" "?p d" "d = ?l ! i" unfolding find_Some_iff by blast
  then have "d \<in> set ?l" "?p d" using nth_mem by blast+
  then have e: "d \<in> set cs" "fst d = fst c" "?p d" by simp_all
  have "inj_on (\<lambda>c. (fst c, r_key (snd c))) (set cs)" using assms(1) by (simp add: ordered_def distinct_map)
  with e assms(2) have "d = c" by (simp add: inj_on_def)
  with d show ?thesis by simp
qed

context pebble_db
begin

lemma getLogEntry_eq:
  assumes "healthy (s_db s)" "represents (contents (s_db s)) cr cur H" "c \<in> set (changes (contents (s_db s)))" "is_rev cur"
  shows "getLogEntry P (r_key (snd c)) (fst c) s = Inr (change_kv c)"
proof -
  let ?xs = "contents (s_db s)" and ?rv = "fst c"
  note wf = representsD(1-3) [OF assms(2)]
  have c: "c \<in> set H" using representsD(5) [OF assms(2)] assms(3) by blast
  then have rv: "0 < ?rv" "is_rev ?rv" using representsD(6,7) [OF assms(2) c] assms(4) by (simp_all add: is_rev_def)
  show ?thesis
  proof (cases "map_of ?xs (logKey ?rv)")
    case None
    have "find (\<lambda>d. r_key (snd d) = r_key (snd c)) (filter (\<lambda>d. fst d = ?rv) (changes ?xs)) = Some c"
      using ordered_changes [OF wf] assms(3) by (rule find_at_revision)
    then show ?thesis using None assms(1) rv wf(1) is_revD(3) [OF rv(2)]
      by (simp add: getLogEntry_def Get_eq Iter_eq between_subkeys sub_scan_eq decodable_filter decodable_log
          filter_changes [where Q = "\<lambda>d. fst d = fst c"] change_kv_def)
  next
    case (Some v)
    note l = map_of_log_key [OF wf(1,2) Some rv]
    obtain x where x: "x \<in> set (log_part ?xs)" "dec x = c" using in_log_partD [OF assms(3)] by blast
    have e: "x = (logKey ?rv, v)" using wf(3) l x by (fastforce simp: grouped_def)
    obtain r where r: "unmarshalRecord v = Inr r" using decodable_log [OF wf(1)] l(1) by (auto simp: decodable_def)
    then have "snd c = r" using arg_cong [OF x(2), of snd] e by (simp add: dec_def)
    with r show ?thesis using Some assms(1)
      by (simp add: getLogEntry_def Get_eq change_kv_def)
  qed
qed

lemma Get_represents:
  assumes "healthy (s_db s)" "represents (contents (s_db s)) cr cur H" "is_rev cur"
  shows "store_Get P key s = Inr (value_at key cur H)"
proof (cases "live (newest key H)")
  case None
  then show ?thesis using assms
    by (simp add: store_Get_def getIdxRev_def Get_eq representsD(9) value_at_head)
next
  case (Some c)
  then have n: "newest key H = Some c" by (auto simp: live_def split: option.splits if_splits)
  then have c: "c \<in> set (changes (contents (s_db s)))" "r_key (snd c) = key"
    using newest_head [OF assms(2), of key] newestD by metis+
  then have "c \<in> set H" using representsD(5) [OF assms(2)] by blast
  then have "0 < fst c" "is_i64 (fst c)" using representsD(6,7) [OF assms(2), of c] assms(3)
    by (auto simp: is_rev_def is_i64_def max_i64_def)
  then show ?thesis using getLogEntry_eq [OF assms(1,2) c(1) assms(3)] Some assms c(2)
    by (simp add: store_Get_def getIdxRev_def Get_eq representsD(9) value_at_head)
qed

lemma getAtRevision_represents:
  assumes "healthy (s_db s)" "represents (contents (s_db s)) cr cur H" "is_rev t" "cr \<le> t"
  shows "getAtRevision P key t s = Inr (value_at key t H)"
proof -
  let ?xs = "contents (s_db s)"
  note wf = representsD(1) [OF assms(2)]
  have "between logLower (logKey (t + 1)) ?xs = filter (\<lambda>kv. fst (dec kv) \<le> t) (log_part ?xs)"
  proof -
    have "0 \<le> fst (dec kv)" if "kv \<in> set (log_part ?xs)" for kv
    proof -
      have "dec kv \<in> set (changes ?xs)" using that by (simp add: changes_def)
      with representsD(5,6) [OF assms(2)] show ?thesis by (meson less_imp_le subsetD)
    qed
    then have "filter (\<lambda>kv. 0 \<le> fst (dec kv) \<and> fst (dec kv) < t + 1) (log_part ?xs) = filter (\<lambda>kv. fst (dec kv) \<le> t) (log_part ?xs)"
      by (intro filter_cong) auto
    with between_log [OF wf, of 0 "t + 1"] is_revD(2,4) [OF assms(3)] show ?thesis
      by (simp add: logKey_logLower is_i64_def)
  qed
  moreover have "rev (map dec (filter (\<lambda>kv. fst (dec kv) \<le> t) (log_part ?xs))) = rev (up_to t (changes ?xs))"
    by (simp add: up_to_def filter_changes [where Q = "\<lambda>c. fst c \<le> t"])
  ultimately show ?thesis using assms(1) is_revD(3) [OF assms(3)] representsD(8) [OF assms(2,4), of key] decodable_log [OF wf]
    by (simp add: getAtRevision_def IterRev_eq at_loop_eq decodable_filter rev_map newest_def value_at_def)
qed

end

section \<open>Listings\<close>

definition take_limit :: "int \<Rightarrow> 'a list \<Rightarrow> 'a list" where
  "take_limit n xs = (if n > 0 then take (nat n) xs else xs)"

text \<open>The specification of a listing: the live keys with the prefix, from a key on, in order.\<close>

definition list_keys :: "gostring \<Rightarrow> gostring \<Rightarrow> int \<Rightarrow> change list \<Rightarrow> gostring list" where
  "list_keys pfx fromKey t H = sorted_list_of_set {k \<in> live_keys t H. HasPrefix k pfx \<and> fromKey \<le> k}"

definition list_at :: "gostring \<Rightarrow> readoptions \<Rightarrow> int \<Rightarrow> change list \<Rightarrow> keyvalue list" where
  "list_at pfx opts t H = take_limit (ro_Limit opts) (map (\<lambda>k. the (value_at k t H)) (list_keys pfx (ro_FromKey opts) t H))"

lemma live_keys_finite [simp]: "finite (live_keys t H)"
proof -
  have "k \<in> (\<lambda>c. r_key (snd c)) ` set H" if k: "k \<in> live_keys t H" for k
  proof -
    obtain c where "newest k (up_to t H) = Some c"
      using k by (auto simp: live_keys_def value_at_def live_def split: option.splits)
    then have "c \<in> set H" "r_key (snd c) = k" using newestD by (fastforce simp: up_to_def)+
    then show ?thesis by blast
  qed
  then have "live_keys t H \<subseteq> (\<lambda>c. r_key (snd c)) ` set H" by blast
  then show ?thesis by (rule finite_subset) simp
qed

lemma range_loop_skip:
  "range_loop opts l keys out = range_loop opts l (filter (\<lambda>k. ro_FromKey opts \<le> k) keys) out"
proof (induction opts l keys out rule: range_loop.induct)
  case (2 opts l key keys out)
  show ?case
  proof (cases "ro_FromKey opts \<le> key")
    case True
    then have n: "\<not> (ro_FromKey opts \<noteq> [] \<and> key < ro_FromKey opts)" by (simp add: not_less)
    show ?thesis
    proof (cases "ro_Limit opts > 0 \<and> int (length out) \<ge> ro_Limit opts")
      case True
      with n \<open>ro_FromKey opts \<le> key\<close> show ?thesis by (simp only: range_loop.simps filter.simps if_True if_False simp_thms)
    next
      case False
      with n \<open>ro_FromKey opts \<le> key\<close> 2(2) [OF n False] show ?thesis
        by (simp only: range_loop.simps filter.simps if_True if_False simp_thms)
    qed
  next
    case False
    then have n: "ro_FromKey opts \<noteq> [] \<and> key < ro_FromKey opts" by (cases "ro_FromKey opts") (simp_all add: not_le)
    with False 2(1) [OF n] show ?thesis by (simp only: range_loop.simps filter.simps if_True if_False simp_thms)
  qed
qed simp

lemma range_loop_take:
  "\<forall>k \<in> set keys. ro_FromKey opts \<le> k \<Longrightarrow> (ro_Limit opts > 0 \<Longrightarrow> int (length out) \<le> ro_Limit opts) \<Longrightarrow>
   range_loop opts l keys out =
     take_limit (ro_Limit opts) (out @ map (\<lambda>k. the (map_of l k)) keys)"
proof (induction opts l keys out rule: range_loop.induct)
  case (1 opts l out)
  then show ?case by (auto simp: take_limit_def)
next
  case (2 opts l key keys out)
  then have n: "\<not> (ro_FromKey opts \<noteq> [] \<and> key < ro_FromKey opts)" by auto
  show ?case
  proof (cases "ro_Limit opts > 0 \<and> int (length out) \<ge> ro_Limit opts")
    case True
    with 2(4) have "nat (ro_Limit opts) = length out" by auto
    with True n show ?thesis by (auto simp: take_limit_def)
  next
    case False
    then have "range_loop opts l (key # keys) out = range_loop opts l keys (out @ [the (map_of l key)])" using n by auto
    also have "\<dots> = take_limit (ro_Limit opts) ((out @ [the (map_of l key)]) @ map (\<lambda>k. the (map_of l k)) keys)"
      by (rule 2(2) [OF n False]) (use 2(3) False in auto)
    finally show ?thesis by simp
  qed
qed

lemma newest_Cons: "newest key (c # cs) = (case newest key cs of None \<Rightarrow> if r_key (snd c) = key then Some c else None | Some x \<Rightarrow> Some x)"
proof -
  have "newest key [c] = (if r_key (snd c) = key then Some c else None)" by (simp add: newest_def)
  then show ?thesis using newest_append [of key "[c]" cs] by (cases "newest key cs") simp_all
qed

lemma latest_loop_map:
  "map_of (latest_loop (map (\<lambda>c. record_event P w (fst c) (snd c) s) cs) l) key =
     (case newest key cs of None \<Rightarrow> map_of l key | Some c \<Rightarrow> map_option change_kv (live (Some c)))"
proof (induction cs arbitrary: l)
  case (Cons c cs)
  then show ?case
    by (cases "newest key cs")
      (auto simp: newest_Cons record_event_def recordToKV_def change_kv_def live_def delete_conv' update_conv' split: prod.splits)
qed simp

lemma latest_loop_distinct:
  "distinct (map fst l) \<Longrightarrow> distinct (map fst (latest_loop evs l))"
  by (induction evs l rule: latest_loop.induct) (simp_all add: distinct_update distinct_delete)

lemma newest_matches: "newest key (filter (matches pfx) cs) = (if HasPrefix key pfx then newest key cs else None)"
  by (induction cs) (auto simp: newest_Cons matches_def split: option.splits)

lemma sort_keys_eq: "distinct xs \<Longrightarrow> sort xs = sorted_list_of_set (set xs)"
  by (simp add: sorted_list_of_set_sort_remdups distinct_remdups_id)

lemma filter_sorted_list_of_set: "finite A \<Longrightarrow> filter Q (sorted_list_of_set A) = sorted_list_of_set {x \<in> A. Q x}"
  by (rule sorted_distinct_set_unique) (auto intro: sorted_wrt_filter)

context pebble_db
begin

lemma scanLog_eq:
  assumes "healthy (s_db s)" "wf_log (contents (s_db s))" "0 \<le> a" "is_i64 a" "is_rev t"
  shows "fst (scanLog P pfx a t w s) = Inr (map (\<lambda>c. record_event P w (fst c) (snd c) s)
    (filter (\<lambda>c. a \<le> fst c \<and> fst c \<le> t \<and> matches pfx c) (changes (contents (s_db s)))))"
proof -
  have "filter (\<lambda>kv. a \<le> fst (dec kv) \<and> fst (dec kv) < t + 1) (log_part (contents (s_db s))) =
      filter (\<lambda>kv. (\<lambda>c. a \<le> fst c \<and> fst c \<le> t) (dec kv)) (log_part (contents (s_db s)))"
    by (intro filter_cong) auto
  moreover note between_log [OF assms(2-4), of "t + 1"]
  ultimately show ?thesis using assms is_revD [OF assms(5)] decodable_log [OF assms(2)]
    by (simp add: scanLog_def Iter_eq scan_loop_eq decodable_filter filter_changes [where Q = "\<lambda>c. a \<le> fst c \<and> fst c \<le> t"])
qed

lemma ListRange_past:
  assumes "healthy (s_db s)" "represents (contents (s_db s)) cr cur H" "is_rev t" "cr \<le> t"
    and "ro_Revision opts \<noteq> 0" "resolveReadRevision (ro_Revision opts) s = Inr t"
  shows "ListRange P pfx opts s = Inr (list_at pfx opts t H)"
proof -
  let ?xs = "contents (s_db s)"
  let ?cs = "filter (\<lambda>c. 1 \<le> fst c \<and> fst c \<le> t \<and> matches pfx c) (changes ?xs)"
  let ?l = "latest_loop (map (\<lambda>c. record_event P False (fst c) (snd c) s) ?cs) []"
  have cs: "?cs = filter (matches pfx) (up_to t (changes ?xs))"
  proof -
    have "1 \<le> fst c" if "c \<in> set (changes ?xs)" for c
      using that representsD(5,6) [OF assms(2)] by (metis int_one_le_iff_zero_less subsetD)
    then show ?thesis by (auto simp: up_to_def intro!: filter_cong)
  qed
  have m: "map_of ?l k = (if HasPrefix k pfx then value_at k t H else None)" for k
    unfolding latest_loop_map cs newest_matches representsD(8) [OF assms(2,4)]
    by (simp add: value_at_def live_def split: option.split)
  have d: "distinct (map fst ?l)" by (rule latest_loop_distinct) simp
  have "set (map fst ?l) = {k \<in> live_keys t H. HasPrefix k pfx}"
    using m dom_map_of_conv_image_fst [of ?l] by (auto simp: live_keys_def dom_def split: if_splits)
  then have k: "filter (\<lambda>k. ro_FromKey opts \<le> k) (sort (map fst ?l)) = list_keys pfx (ro_FromKey opts) t H"
    unfolding sort_keys_eq [OF d] by (simp add: filter_sorted_list_of_set list_keys_def conj_assoc)
  have "range_loop opts ?l (sort (map fst ?l)) [] = take_limit (ro_Limit opts) (map (\<lambda>k. the (map_of ?l k)) (list_keys pfx (ro_FromKey opts) t H))"
    unfolding range_loop_skip [of _ _ "sort _"] k by (subst range_loop_take) (auto simp: list_keys_def)
  also have "\<dots> = list_at pfx opts t H"
    unfolding list_at_def by (intro arg_cong [of _ _ "take_limit _"] map_cong) (auto simp: m list_keys_def)
  finally show ?thesis
    using assms(5,6) scanLog_eq [OF assms(1) representsD(1) [OF assms(2)], of 1 t pfx False] assms(3)
    by (simp add: ListRange_def Let_def is_i64_def)
qed

end

lemma idxKey_le_iff [simp]: "idxKey k \<le> idxKey k' \<longleftrightarrow> k \<le> k'" "idxKey k < idxKey k' \<longleftrightarrow> k < k'" "idxKey k = idxKey k' \<longleftrightarrow> k = k'"
  by (simp_all add: idxKey_def)

lemma idxBounds_range:
  "fst (idxBounds pfx fromKey) \<le> x \<and> x < snd (idxBounds pfx fromKey) \<longleftrightarrow> (\<exists>k. x = idxKey k \<and> HasPrefix k pfx \<and> fromKey \<le> k)"
proof -
  have "fst (idxBounds pfx fromKey) \<le> x \<longleftrightarrow> idxKey pfx \<le> x \<and> idxKey fromKey \<le> x" if "idxKey pfx \<le> x \<or> idxKey pfx < idxKey fromKey"
    using that by (cases x) (auto simp: idxBounds_def Let_def idxKey_def)
  then have "fst (idxBounds pfx fromKey) \<le> x \<longleftrightarrow> idxKey pfx \<le> x \<and> idxKey fromKey \<le> x"
    by (cases "idxKey pfx < idxKey fromKey") (auto simp: idxBounds_def Let_def)
  then show ?thesis using idxKeyUpper_range [of pfx x] by (auto simp: idxBounds_def Let_def)
qed

lemma strict_sorted_map_idxKey: "sorted_wrt (<) (map idxKey ks) = sorted_wrt (<) ks"
  by (simp add: sorted_wrt_map)

lemma sorted_keys_map_of:
  assumes "sorted_keys xs"
  shows "filter (\<lambda>(k, v). Q k) xs = map (\<lambda>k. (k, the (map_of xs k))) (map fst (filter (\<lambda>(k, v). Q k) xs))"
proof -
  have "the (map_of xs k) = v" if "(k, v) \<in> set xs" for k v
    using map_of_is_SomeI [OF sorted_keys_distinct [OF assms] that] by simp
  then show ?thesis by (auto simp: comp_def intro!: map_idI [symmetric])
qed

lemma live_keys_head: "represents xs cr cur H \<Longrightarrow> k \<in> live_keys cur H \<longleftrightarrow> live (newest k H) \<noteq> None"
  by (simp add: live_keys_def value_at_head)

lemma idx_between:
  assumes "represents xs cr cur H"
  shows "between (fst (idxBounds pfx fromKey)) (snd (idxBounds pfx fromKey)) xs =
    map (\<lambda>k. (idxKey k, encodeRev (fst (the (live (newest k H)))))) (list_keys pfx fromKey cur H)"
proof -
  let ?Q = "\<lambda>x. fst (idxBounds pfx fromKey) \<le> x \<and> x < snd (idxBounds pfx fromKey)"
  let ?ks = "map fst (filter (\<lambda>(k, v). ?Q k) xs)"
  let ?A = "{k \<in> live_keys cur H. HasPrefix k pfx \<and> fromKey \<le> k}"
  note s = representsD(2) [OF assms]
  have dom: "idxKey k \<in> fst ` set xs \<longleftrightarrow> k \<in> live_keys cur H" for k
    using representsD(9) [OF assms, of k] live_keys_head [OF assms, of k] map_of_eq_None_iff [of xs "idxKey k"] by auto
  have "set ?ks = fst ` set xs \<inter> Collect ?Q" by force
  also have "\<dots> = idxKey ` ?A"
  proof (intro set_eqI iffI)
    fix x assume "x \<in> fst ` set xs \<inter> Collect ?Q"
    then obtain k where "x = idxKey k" "HasPrefix k pfx" "fromKey \<le> k" "x \<in> fst ` set xs"
      unfolding idxBounds_range by blast
    then show "x \<in> idxKey ` ?A" using dom [of k] by simp
  next
    fix x assume "x \<in> idxKey ` ?A"
    then obtain k where "x = idxKey k" "k \<in> ?A" by blast
    then show "x \<in> fst ` set xs \<inter> Collect ?Q" using dom [of k] idxBounds_range [of pfx fromKey x] by blast
  qed
  finally have "set ?ks = set (map idxKey (list_keys pfx fromKey cur H))" by (simp add: list_keys_def)
  moreover have "sorted_wrt (<) ?ks" using s by simp
  moreover have "sorted_wrt (<) (map idxKey (list_keys pfx fromKey cur H))"
    by (simp add: strict_sorted_map_idxKey list_keys_def)
  ultimately have "?ks = map idxKey (list_keys pfx fromKey cur H)"
    by (intro strict_sorted_equal)
  moreover have "the (map_of xs (idxKey k)) = encodeRev (fst (the (live (newest k H))))" if "k \<in> set (list_keys pfx fromKey cur H)" for k
    using that representsD(9) [OF assms, of k] live_keys_head [OF assms, of k] by (auto simp: list_keys_def)
  ultimately show ?thesis
    unfolding between_def by (subst sorted_keys_map_of [OF s]) simp
qed

lemma list_loop_take:
  "(\<And>k. k \<in> set ks \<Longrightarrow> getLogEntry P k (decodeRev (f k)) s = Inr (g k)) \<Longrightarrow> (limit > 0 \<Longrightarrow> int (length out) \<le> limit) \<Longrightarrow>
   list_loop P limit s (map (\<lambda>k. (idxKey k, f k)) ks) None out = Inr (take_limit limit (out @ map g ks))"
proof (induction ks arbitrary: out)
  case Nil
  then show ?case by (auto simp: take_limit_def)
next
  case (Cons k ks)
  show ?case
  proof (cases "limit > 0 \<and> int (length out) \<ge> limit")
    case True
    with Cons.prems(2) have "nat limit = length out" by auto
    with True show ?thesis by (simp add: take_limit_def)
  next
    case False
    have "drop 1 (idxKey k) = k" by (simp add: idxKey_def)
    moreover have "list_loop P limit s (map (\<lambda>k. (idxKey k, f k)) ks) None (out @ [g k]) = Inr (take_limit limit ((out @ [g k]) @ map g ks))"
      by (rule Cons.IH) (use Cons.prems False in auto)
    ultimately show ?thesis using Cons.prems(1) [of k] False by auto
  qed
qed

context pebble_db
begin

lemma listCurrent_represents:
  assumes "healthy (s_db s)" "represents (contents (s_db s)) cr cur H" "is_rev cur"
  shows "listCurrent P pfx fromKey limit s = Inr (take_limit limit (map (\<lambda>k. the (value_at k cur H)) (list_keys pfx fromKey cur H)))"
proof -
  have "getLogEntry P k (decodeRev (encodeRev (fst (the (live (newest k H)))))) s = Inr (the (value_at k cur H))"
    if k: "k \<in> set (list_keys pfx fromKey cur H)" for k
  proof -
    obtain c where l: "live (newest k H) = Some c"
      using k live_keys_head [OF assms(2), of k] by (auto simp: list_keys_def)
    then have "newest k (changes (contents (s_db s))) = Some c"
      unfolding newest_head [OF assms(2)] by (auto simp: live_def split: option.splits if_splits)
    then have c: "c \<in> set (changes (contents (s_db s)))" "r_key (snd c) = k" by (simp_all add: newestD)
    have h: "c \<in> set H" using c(1) representsD(5) [OF assms(2)] by blast
    have "is_i64 (fst c)"
      using representsD(6,7) [OF assms(2) h] assms(3) by (auto simp: is_rev_def is_i64_def max_i64_def)
    with getLogEntry_eq [OF assms(1,2) c(1) assms(3)] c(2) l show ?thesis
      by (simp add: value_at_head [OF assms(2)])
  qed
  from list_loop_take [OF this, of _ limit "[]"] show ?thesis
    using assms(1) idx_between [OF assms(2), of pfx fromKey] by (simp add: listCurrent_def Iter_eq case_prod_beta)
qed

lemma countCurrent_represents:
  assumes "healthy (s_db s)" "represents (contents (s_db s)) cr cur H"
  shows "countCurrent P pfx fromKey s = Inr (int (length (list_keys pfx fromKey cur H)))"
  using assms(1) idx_between [OF assms(2), of pfx fromKey] by (simp add: countCurrent_def Iter_eq case_prod_beta)

end

end
