(* ===== verification/Store_Apply.thy ===== *)
theory Store_Apply
  imports Store_Refine
begin

text \<open>
  Applying log entries to the state machine of \<open>src/internal/store/store.go\<close> extends the change history that its
  database represents, and compaction keeps what reads at or after the compacted revision see. The
  batch under construction is followed as the database contents it would produce, while the scans of
  a compaction see the committed contents, as in the source.
\<close>

section \<open>Applying one change\<close>

lemma log_part_upd:
  "sorted_keys xs \<Longrightarrow> log_part (upd_sorted k v xs) = (if is_log k then upd_sorted k v (log_part xs) else log_part xs)"
  unfolding log_part_def by (rule filter_upd_sorted)

lemma log_part_del: "log_part (del_sorted k xs) = del_sorted k (log_part xs)"
  unfolding log_part_def by (rule filter_del_sorted)

lemma not_log [simp]: "\<not> is_log (idxKey k)" "\<not> is_log metaCompactKey" "\<not> is_log metaCurrentRevKey" "\<not> is_log metaLastSeqKey"
  by (simp_all add: is_log_def idxKey_def metaCompactKey_def metaCurrentRevKey_def metaLastSeqKey_def prefix_defs)

lemma not_idx [simp]: "idxKey k \<noteq> metaCompactKey" "idxKey k \<noteq> metaCurrentRevKey" "idxKey k \<noteq> metaLastSeqKey"
  "is_log l \<Longrightarrow> idxKey k \<noteq> l"
  by (auto simp: idxKey_def metaCompactKey_def metaCurrentRevKey_def metaLastSeqKey_def prefix_defs is_log_def)

lemma wf_log_part: "wf_log xs \<longleftrightarrow> (\<forall>(k, v) \<in> set (log_part xs). (\<exists>rv t. log_key k rv t) \<and> (\<exists>r. unmarshalRecord v = Inr r))"
  by (auto simp: wf_log_def log_part_def)

text \<open>What a database represents depends on its log part and its index.\<close>

lemma represents_cong:
  assumes "represents xs cr cur H" "log_part ys = log_part xs" "sorted_keys ys" "\<And>k. map_of ys (idxKey k) = map_of xs (idxKey k)"
  shows "represents ys cr cur H"
  using assms unfolding represents_def wf_log_part grouped_def changes_def by simp

definition meta_key :: "bytes \<Rightarrow> bool" where
  "meta_key k \<longleftrightarrow> k = metaCompactKey \<or> k = metaCurrentRevKey \<or> k = metaLastSeqKey"

lemma represents_meta: "represents xs cr cur H \<Longrightarrow> meta_key k \<Longrightarrow> represents (upd_sorted k v xs) cr cur H"
  by (rule represents_cong) (auto simp: log_part_upd meta_key_def representsD(2))

definition idx_op :: "int \<Rightarrow> srecord \<Rightarrow> batch_op" where
  "idx_op rv r = (if r_delete r then BDelete (idxKey (r_key r)) else BSet (idxKey (r_key r)) (encodeRev rv))"

definition put_ops :: "bytes \<Rightarrow> int \<Rightarrow> srecord \<Rightarrow> batch_op list" where
  "put_ops k rv r = [BSet k (marshalRecord r), idx_op rv r]"

lemma put_ops_log_part:
  assumes "sorted_keys ys" "is_log k" "\<forall>x \<in> set (log_part ys). fst x < k"
  shows "log_part (apply_batch (put_ops k rv r) ys) = log_part ys @ [(k, marshalRecord r)]"
proof -
  have "upd_sorted k (marshalRecord r) (log_part ys) = log_part ys @ [(k, marshalRecord r)]"
    using assms(3) by (intro upd_sorted_last) auto
  moreover have "idxKey (r_key r) \<notin> fst ` set (log_part zs)" for zs :: "(bytes \<times> bytes) list"
    by (auto simp: log_part_def)
  ultimately show ?thesis using assms(1,2)
    by (simp add: put_ops_def idx_op_def log_part_upd log_part_del del_sorted_absent)
qed

lemma put_ops_idx:
  assumes "is_log k"
  shows "map_of (apply_batch (put_ops k rv r) ys) (idxKey key) =
    (if key = r_key r then (if r_delete r then None else Some (encodeRev rv)) else map_of ys (idxKey key))"
  using assms not_idx(4) [of k key] by (auto simp: put_ops_def idx_op_def)

lemma sorted_put_ops [simp]: "sorted_keys ys \<Longrightarrow> sorted_keys (apply_batch (put_ops k rv r) ys)"
  by simp

lemma changes_put:
  assumes "sorted_keys ys" "log_key k rv t" "\<forall>x \<in> set (log_part ys). fst x < k" "record_ok r"
  shows "changes (apply_batch (put_ops k rv r) ys) = changes ys @ [(rv, r)]"
  using put_ops_log_part [OF assms(1) log_keyD(5) [OF assms(2)] assms(3)] log_keyD(1) [OF assms(2)]
  by (simp add: changes_def dec_def unmarshal_marshal [OF assms(4)])

lemma ordered_snoc:
  assumes "ordered H" "\<forall>d \<in> set H. fst d \<le> rv" "\<forall>d \<in> set H. fst d = rv \<longrightarrow> r_key (snd d) \<noteq> r_key r"
  shows "ordered (H @ [(rv, r)])"
  using assms unfolding ordered_def map_append sorted_append distinct_append by (auto simp: not_in_image)

lemma grouped_snoc:
  assumes "grouped ys" "log_part zs = log_part ys @ [a]"
    and "\<And>x. x \<in> set (log_part ys) \<Longrightarrow> fst (dec x) = fst (dec a) \<Longrightarrow>
      length (fst x) = 11 \<and> length (fst a) = 11 \<and> r_key (snd (dec x)) \<noteq> r_key (snd (dec a))"
  shows "grouped zs"
  unfolding grouped_def assms(2)
proof (intro ballI impI)
  fix x y assume a: "x \<in> set (log_part ys @ [a])" "y \<in> set (log_part ys @ [a])" "fst (dec x) = fst (dec y)"
  consider "x \<in> set (log_part ys)" "y \<in> set (log_part ys)" | "x \<in> set (log_part ys)" "y = a"
    | "x = a" "y \<in> set (log_part ys)" | "x = a" "y = a" using a(1,2) by (auto simp del: split_paired_All)
  then show "x = y \<or> length (fst x) = 11 \<and> length (fst y) = 11 \<and> r_key (snd (dec x)) \<noteq> r_key (snd (dec y))"
  proof cases
    case 1
    with assms(1) a(3) show ?thesis unfolding grouped_def by blast
  next
    case 2
    with assms(3) [of x] a(3) show ?thesis by blast
  next
    case 3
    with assms(3) [of y] a(3) show ?thesis by metis
  qed simp
qed

text \<open>Adding a record behind all others, at a revision where its key has not changed yet.\<close>

lemma put_represents:
  assumes rep: "represents ys cr cur H" and k: "log_key k rv t" and lt: "\<forall>x \<in> set (log_part ys). fst x < k"
    and r: "record_ok r" and cur: "cur \<le> rv"
    and sub: "\<And>x. x \<in> set (log_part ys) \<Longrightarrow> fst (dec x) = rv \<Longrightarrow> length (fst x) = 11 \<and> length k = 11"
    and new: "\<forall>d \<in> set H. fst d = rv \<longrightarrow> r_key (snd d) \<noteq> r_key r"
  shows "represents (apply_batch (put_ops k rv r) ys) cr rv (H @ [(rv, r)])"
proof -
  let ?zs = "apply_batch (put_ops k rv r) ys"
  note D = representsD [OF rep]
  note lp = put_ops_log_part [OF D(2) log_keyD(5) [OF k] lt, of rv r]
  note ch = changes_put [OF D(2) k lt r]
  have dk: "dec (k, marshalRecord r) = (rv, r)" using log_keyD(1) [OF k] by (simp add: dec_def unmarshal_marshal [OF r])
  have "wf_log ?zs" using D(1) k unmarshal_marshal [OF r] unfolding wf_log_part lp by auto
  moreover have "sorted_keys ?zs" using D(2) by simp
  moreover have "grouped ?zs"
  proof (rule grouped_snoc [OF D(3) lp], unfold dk fst_conv snd_conv)
    fix x assume x: "x \<in> set (log_part ys)" "fst (dec x) = rv"
    have "dec x \<in> set H" using D(5) x(1) by (auto simp: changes_def)
    with new x(2) sub [OF x] show "length (fst x) = 11 \<and> length k = 11 \<and> r_key (snd (dec x)) \<noteq> r_key r" by blast
  qed
  moreover have "ordered (H @ [(rv, r)])" 
    using D(4) order_trans [OF D(7) cur] new by (intro ordered_snoc) blast+
  moreover have "subseq (changes ?zs) (H @ [(rv, r)])" using D(10) unfolding ch by (simp add: list_emb_append_mono)
  moreover have "\<forall>c \<in> set (H @ [(rv, r)]). 0 < fst c \<and> fst c \<le> rv" 
    using D(6) order_trans [OF D(7) cur] log_keyD(2) [OF k] by simp
  moreover have "newest key (up_to u (changes ?zs)) = newest key (up_to u (H @ [(rv, r)]))" if "cr \<le> u" for key u
    unfolding ch up_to_append newest_append D(8) [OF that] ..
  moreover have "map_of ?zs (idxKey key) = map_option (\<lambda>c. encodeRev (fst c)) (live (newest key (H @ [(rv, r)])))" for key
    using D(9) [of key] by (simp add: put_ops_idx [OF log_keyD(5) [OF k]] newest_append newest_def [of key "[(rv, r)]"] live_def)
  ultimately show ?thesis unfolding represents_def by blast
qed

section \<open>Applying one entry\<close>

fun subops_ops :: "int \<Rightarrow> nat \<Rightarrow> txn_subop list \<Rightarrow> batch_op list" where
  "subops_ops rv i [] = []"
| "subops_ops rv i (op # ops) = put_ops (logKeyWithSub rv i) rv (subop_record op) @ subops_ops rv (Suc i) ops"

definition entry_ops :: "entry \<Rightarrow> batch_op list" where
  "entry_ops e = (if e_Op e = OpTxn then subops_ops (e_Revision e) 0 (projr (DecodeTxnOps (e_Value e)))
     else put_ops (logKey (e_Revision e)) (e_Revision e) (entry_record e))"

text \<open>The changes that a log entry makes, and what an entry must satisfy after the revision \<open>cur\<close>.\<close>

definition entry_changes :: "entry \<Rightarrow> change list" where
  "entry_changes e = (if e_Op e = OpCompact then []
     else if e_Op e = OpTxn then map (\<lambda>op. (e_Revision e, subop_record op)) (projr (DecodeTxnOps (e_Value e)))
     else [(e_Revision e, entry_record e)])"

definition subops_ok :: "txn_subop list \<Rightarrow> bool" where
  "subops_ok ops \<longleftrightarrow> length ops \<le> 65536 \<and> distinct (map so_Key ops) \<and> list_all (\<lambda>op. record_ok (subop_record op)) ops"

definition apply_ok :: "int \<Rightarrow> entry \<Rightarrow> bool" where
  "apply_ok cur e \<longleftrightarrow> cur < e_Revision e \<and> is_rev (e_Revision e) \<and>
     (if e_Op e = OpTxn then (case DecodeTxnOps (e_Value e) of Inl _ \<Rightarrow> False | Inr ops \<Rightarrow> subops_ok ops)
      else record_ok (entry_record e))"

lemma represents_mono: "represents xs cr cur H \<Longrightarrow> cur \<le> cur' \<Longrightarrow> represents xs cr cur' H"
  unfolding represents_def by (meson order_trans)

lemma record_keys [simp]: "r_key (subop_record op) = so_Key op" "r_delete (subop_record op) = (so_Op op = OpDelete)"
  "r_key (entry_record e) = e_Key e" "r_delete (entry_record e) = (e_Op e = OpDelete)"
  by (simp_all add: subop_record_def entry_record_def)

lemma logKeyWithSub_less:
  assumes "0 \<le> rv" "is_i64 rv" "i < j" "j < 65536"
  shows "logKeyWithSub rv i < logKeyWithSub rv j"
  using log_less_iff(1) [OF assms(1,2,1,2), of "put_be 2 i" "put_be 2 j"] put_be_less_iff [of i 2 j] assms(3,4)
  by (simp add: logKeyWithSub_def)

lemma subops_represents:
  assumes "represents ys cr cur H" "cur \<le> rv" "0 < rv" "is_rev rv"
    and "\<And>x. x \<in> set (log_part ys) \<Longrightarrow> i < 65536 \<Longrightarrow> fst x < logKeyWithSub rv i"
    and "\<And>x. x \<in> set (log_part ys) \<Longrightarrow> fst (dec x) = rv \<Longrightarrow> length (fst x) = 11"
    and "\<And>d. d \<in> set H \<Longrightarrow> fst d = rv \<Longrightarrow> r_key (snd d) \<notin> so_Key ` set ops"
    and "distinct (map so_Key ops)" "list_all (\<lambda>op. record_ok (subop_record op)) ops" "i + length ops \<le> 65536"
  shows "represents (apply_batch (subops_ops rv i ops) ys) cr rv (H @ map (\<lambda>op. (rv, subop_record op)) ops)"
  using assms
proof (induction ops arbitrary: i ys cur H)
  case Nil
  then show ?case using represents_mono by simp
next
  case (Cons op ops)
  let ?k = "logKeyWithSub rv i" and ?r = "subop_record op"
  let ?zs = "apply_batch (put_ops ?k rv ?r) ys"
  note D = representsD [OF Cons.prems(1)]
  have i: "i < 65536" using Cons.prems(10) by simp
  note k = log_keys(2) [OF Cons.prems(3,4), of i]
  have lt: "\<forall>x \<in> set (log_part ys). fst x < ?k" using Cons.prems(5) i by blast
  have r: "record_ok ?r" using Cons.prems(9) by simp
  have rep: "represents ?zs cr rv (H @ [(rv, ?r)])"
    by (rule put_represents [OF Cons.prems(1) k lt r Cons.prems(2)]) (use Cons.prems(6,7) in auto)
  have lp: "log_part ?zs = log_part ys @ [(?k, marshalRecord ?r)]"
    by (rule put_ops_log_part [OF D(2) log_keyD(5) [OF k] lt])
  have "represents (apply_batch (subops_ops rv (Suc i) ops) ?zs) cr rv ((H @ [(rv, ?r)]) @ map (\<lambda>op. (rv, subop_record op)) ops)"
  proof (rule Cons.IH [OF rep order_refl Cons.prems(3,4)])
    fix x assume x: "x \<in> set (log_part ?zs)" and i': "Suc i < 65536"
    have "?k < logKeyWithSub rv (Suc i)"
      using logKeyWithSub_less [OF _ is_revD(1) [OF Cons.prems(4)], of i "Suc i"] i' Cons.prems(3) by simp
    moreover have "fst x \<le> ?k" using x lt unfolding lp by auto
    ultimately show "fst x < logKeyWithSub rv (Suc i)" by simp
  next
    fix x assume x: "x \<in> set (log_part ?zs)" "fst (dec x) = rv"
    then consider "x \<in> set (log_part ys)" | "x = (?k, marshalRecord ?r)" unfolding lp by auto
    then show "length (fst x) = 11" using Cons.prems(6) [OF _ x(2)] by cases simp_all
  next
    fix d assume d: "d \<in> set (H @ [(rv, ?r)])" "fst d = rv"
    then consider "d \<in> set H" | "d = (rv, ?r)" by auto
    then show "r_key (snd d) \<notin> so_Key ` set ops" using Cons.prems(7) [OF _ d(2)] Cons.prems(8) by cases auto
  qed (use Cons.prems(8-10) in simp_all)
  then show ?case by simp
qed

lemma log_part_before:
  assumes "represents ys cr cur H" "cur < rv" "is_rev rv" "x \<in> set (log_part ys)"
  shows "fst x < prefixLog # put_i64 rv @ t" "fst (dec x) < rv"
proof -
  obtain k v where x: "x = (k, v)" by (cases x)
  from wf_log_partD [OF representsD(1) [OF assms(1)] assms(4) [unfolded x]] obtain rv' t' r where
    l: "log_key k rv' t'" "dec (k, v) = (rv', r)" by metis
  have "dec x \<in> set H" using representsD(5) [OF assms(1)] assms(4) by (auto simp: changes_def)
  from representsD(7) [OF assms(1) this] have "rv' \<le> cur" using l(2) x by simp
  with assms(2) have lt: "rv' < rv" by simp
  with l(2) x show "fst (dec x) < rv" by simp
  show "fst x < prefixLog # put_i64 rv @ t"
    using log_less_iff(1) [of rv' rv t' t] lt l(1) x log_keyD(2,4) [OF l(1)] is_revD [OF assms(3)] by (simp add: log_key_def)
qed

lemma entry_represents:
  assumes "represents ys cr cur H" "apply_ok cur e" "0 \<le> cur" "e_Op e \<noteq> OpCompact"
  shows "represents (apply_batch (entry_ops e) ys) cr (e_Revision e) (H @ entry_changes e)"
proof -
  let ?rv = "e_Revision e"
  have rv: "cur < ?rv" "is_rev ?rv" "0 < ?rv" using assms(2,3) by (simp_all add: apply_ok_def)
  note before = log_part_before [OF assms(1) rv(1,2)]
  have new: "d \<in> set H \<Longrightarrow> fst d \<noteq> ?rv" for d using representsD(7) [OF assms(1), of d] rv(1) by auto
  show ?thesis
  proof (cases "e_Op e = OpTxn")
    case True
    then obtain ops where ops: "DecodeTxnOps (e_Value e) = Inr ops" "subops_ok ops"
      using assms(2) by (auto simp: apply_ok_def split: sum.splits)
    have "represents (apply_batch (subops_ops ?rv 0 ops) ys) cr ?rv (H @ map (\<lambda>op. (?rv, subop_record op)) ops)"
    proof (rule subops_represents [OF assms(1) less_imp_le [OF rv(1)] rv(3,2)])
      show "x \<in> set (log_part ys) \<Longrightarrow> 0 < (65536::nat) \<Longrightarrow> fst x < logKeyWithSub ?rv 0" for x
        using before(1) by (simp add: logKeyWithSub_def)
      show "x \<in> set (log_part ys) \<Longrightarrow> fst (dec x) = ?rv \<Longrightarrow> length (fst x) = 11" for x using before(2) [of x] by simp
      show "d \<in> set H \<Longrightarrow> fst d = ?rv \<Longrightarrow> r_key (snd d) \<notin> so_Key ` set ops" for d using new by blast
    qed (use ops(2) in \<open>simp_all add: subops_ok_def\<close>)
    then show ?thesis using True ops(1) by (simp add: entry_ops_def entry_changes_def op_defs)
  next
    case False
    have lt: "\<forall>x \<in> set (log_part ys). fst x < logKey ?rv" using before(1) [of _ "[]"] by (simp add: logKey_def)
    have "represents (apply_batch (put_ops (logKey ?rv) ?rv (entry_record e)) ys) cr ?rv (H @ [(?rv, entry_record e)])"
    proof (rule put_represents [OF assms(1) log_keys(1) [OF rv(3,2)] lt])
      show "x \<in> set (log_part ys) \<Longrightarrow> fst (dec x) = ?rv \<Longrightarrow> length (fst x) = 11 \<and> length (logKey ?rv) = 11" for x
        using before(2) [of x] by simp
      show "\<forall>d \<in> set H. fst d = ?rv \<longrightarrow> r_key (snd d) \<noteq> r_key (entry_record e)" using new by blast
    qed (use assms(2) False rv(1) in \<open>simp_all add: apply_ok_def\<close>)
    then show ?thesis using False assms(4) by (simp add: entry_ops_def entry_changes_def)
  qed
qed

context pebble_db
begin

lemma apply_subops_eq: "healthy db \<Longrightarrow> apply_subops P db rv i ops b = Inr (b @ subops_ops rv i ops)"
  by (induction rv i ops arbitrary: b rule: subops_ops.induct) (simp_all add: Add_eq put_ops_def idx_op_def)

lemma applyEntry_eq:
  "healthy db \<Longrightarrow> apply_ok cur e \<Longrightarrow> applyEntry P db b e = Inr (b @ entry_ops e)"
  by (auto simp: applyEntry_def applyTxnEntry_def apply_ok_def entry_ops_def Add_eq apply_subops_eq put_ops_def idx_op_def
      split: sum.splits)

end

section \<open>Compaction\<close>

definition has_later :: "(bytes \<times> bytes) list \<Rightarrow> int \<Rightarrow> bytes \<times> bytes \<Rightarrow> bool" where
  "has_later xs c x \<longleftrightarrow> (\<exists>y \<in> set (log_part xs). r_key (snd (dec y)) = r_key (snd (dec x)) \<and> fst (dec x) < fst (dec y) \<and> fst (dec y) \<le> c)"

definition compacted :: "(bytes \<times> bytes) list \<Rightarrow> int \<Rightarrow> int \<Rightarrow> (bytes \<times> bytes) list" where
  "compacted xs cr c = filter (\<lambda>x. cr \<le> fst (dec x) \<and> fst (dec x) < c \<and> has_later xs c x) (log_part xs)"

definition compact_ops :: "(bytes \<times> bytes) list \<Rightarrow> int \<Rightarrow> int \<Rightarrow> batch_op list" where
  "compact_ops xs cr c = BSet metaCompactKey (encodeRev c) # map (\<lambda>x. BDelete (fst x)) (compacted xs cr c)"

lemma apply_deletes: "apply_batch (map (\<lambda>x. BDelete (fst x)) ds) ys = filter (\<lambda>x. fst x \<notin> fst ` set ds) ys"
proof (induction ds arbitrary: ys)
  case (Cons d ds)
  have "filter (\<lambda>x. fst x \<notin> fst ` set ds) (del_sorted (fst d) ys) = filter (\<lambda>x. fst x \<notin> fst ` set (d # ds)) ys"
    by (auto simp: del_sorted_def intro!: filter_cong)
  with Cons show ?case by simp
qed simp

text \<open>How the contents \<open>ys\<close> that a batch would produce relate to the committed contents \<open>xs\<close>: committed
  records are missing only when a later change of the key, not after the compacted revision, is committed.\<close>

definition pending :: "(bytes \<times> bytes) list \<Rightarrow> (bytes \<times> bytes) list \<Rightarrow> int \<Rightarrow> int \<Rightarrow> bool" where
  "pending xs ys cr cur0 \<longleftrightarrow>
     (\<forall>x \<in> set (log_part ys). x \<in> set (log_part xs) \<or> cur0 < fst (dec x)) \<and>
     (\<forall>x \<in> set (log_part xs). fst (dec x) \<le> cur0) \<and>
     (\<forall>x \<in> set (log_part xs). x \<notin> set (log_part ys) \<longrightarrow> has_later xs cr x)"

lemma has_later_mono: "has_later xs cr x \<Longrightarrow> cr \<le> c \<Longrightarrow> has_later xs c x"
  by (force simp: has_later_def)

text \<open>A change with a later one has a later one that is not compacted away.\<close>

lemma later_survives:
  assumes "has_later xs c x" "\<forall>y \<in> set (log_part xs). y \<notin> S \<longrightarrow> has_later xs c y"
  obtains z where "z \<in> set (log_part xs)" "z \<in> S" "r_key (snd (dec z)) = r_key (snd (dec x))" "fst (dec x) < fst (dec z)" "fst (dec z) \<le> c"
proof -
  let ?L = "\<lambda>y. y \<in> set (log_part xs) \<and> r_key (snd (dec y)) = r_key (snd (dec x)) \<and> fst (dec x) < fst (dec y) \<and> fst (dec y) \<le> c"
  let ?M = "{y. ?L y}"
  have f: "finite ?M" by (rule finite_subset [of _ "set (log_part xs)"]) auto
  have ne: "?M \<noteq> {}" using assms(1) unfolding has_later_def by blast
  obtain z where z: "z \<in> ?M" "\<And>y. y \<in> ?M \<Longrightarrow> fst (dec y) \<le> fst (dec z)"
  proof -
    have "finite ((\<lambda>y. fst (dec y)) ` ?M)" "(\<lambda>y. fst (dec y)) ` ?M \<noteq> {}" using f ne by simp_all
    from Max_in [OF this] Max_ge [OF this(1)] show ?thesis using that by (metis (no_types, lifting) imageE image_eqI)
  qed
  have zL: "?L z" using z(1) by blast
  have "z \<in> S"
  proof (rule ccontr)
    assume "z \<notin> S"
    with assms(2) zL have "has_later xs c z" by blast
    then obtain y where "y \<in> set (log_part xs)" "r_key (snd (dec y)) = r_key (snd (dec z))" "fst (dec z) < fst (dec y)" "fst (dec y) \<le> c"
      unfolding has_later_def by blast
    moreover from this zL have "y \<in> ?M" by simp
    from z(2) [OF this] calculation(3) show False by simp
  qed
  with zL show ?thesis by (intro that [of z]) simp_all
qed

lemma newest_filter:
  assumes "ordered cs"
    and "\<And>d. d \<in> set cs \<Longrightarrow> \<not> Q d \<Longrightarrow> \<exists>z \<in> set cs. Q z \<and> r_key (snd z) = r_key (snd d) \<and> fst d < fst z \<and> fst z \<le> t"
  shows "newest key (up_to t (filter Q cs)) = newest key (up_to t cs)"
proof (cases "newest key (up_to t cs)")
  case None
  then have "newest key (filter Q (up_to t cs)) = None" unfolding newest_None by simp
  with None show ?thesis by (simp add: up_to_def conj_commute)
next
  case (Some c)
  note o = ordered_up_to [OF assms(1), of t]
  from Some have c: "c \<in> set cs" "fst c \<le> t" "r_key (snd c) = key"
    "\<And>d. d \<in> set cs \<Longrightarrow> fst d \<le> t \<Longrightarrow> r_key (snd d) = key \<Longrightarrow> d \<noteq> c \<Longrightarrow> fst d < fst c"
    unfolding newest_ordered [OF o] unfolding up_to_def set_filter by blast+
  have "Q c"
  proof (rule ccontr)
    assume "\<not> Q c"
    from assms(2) [OF c(1) this] obtain z where z: "z \<in> set cs" "r_key (snd z) = key" "fst c < fst z" "fst z \<le> t" using c(3) by blast
    from c(4) [OF z(1,4,2)] z(3) show False by fastforce
  qed
  with c have "newest key (up_to t (filter Q cs)) = Some c"
    unfolding newest_ordered [OF ordered_up_to [OF ordered_filter [OF assms(1)]]] by (simp add: up_to_def)
  with Some show ?thesis by simp
qed

lemma compact_log_part:
  "sorted_keys ys \<Longrightarrow> log_part (apply_batch (compact_ops xs cr c) ys) = filter (\<lambda>x. fst x \<notin> fst ` set (compacted xs cr c)) (log_part ys)"
proof -
  assume "sorted_keys ys"
  moreover have "log_part (filter (\<lambda>x. fst x \<notin> K) zs) = filter (\<lambda>x. fst x \<notin> K) (log_part zs)" for K zs
    unfolding log_part_def by (induction zs) auto
  ultimately show ?thesis by (simp add: compact_ops_def apply_deletes log_part_upd)
qed

lemma compact_idx: "map_of (apply_batch (compact_ops xs cr c) ys) (idxKey key) = map_of ys (idxKey key)"
proof -
  have l: "is_log (fst x)" if "x \<in> set (compacted xs cr c)" for x using that by (auto simp: compacted_def log_part_def)
  have "idxKey key \<notin> fst ` set (compacted xs cr c)" unfolding not_in_image using l not_idx(4) by metis
  moreover have "map_of (filter (\<lambda>x. fst x \<notin> K) zs) k = map_of zs k" if "k \<notin> K" for k :: bytes and K and zs :: "(bytes \<times> bytes) list"
    using that by (induction zs) auto
  ultimately show ?thesis by (simp add: compact_ops_def apply_deletes)
qed

lemma compacted_key:
  assumes "pending xs ys cr cur0" "sorted_keys xs" "x \<in> set (log_part ys)"
  shows "fst x \<in> fst ` set (compacted xs cr' c) \<longleftrightarrow> x \<in> set (compacted xs cr' c)"
proof
  assume "fst x \<in> fst ` set (compacted xs cr' c)"
  then obtain y where y: "y \<in> set (compacted xs cr' c)" "fst y = fst x" by auto
  then have yx: "y \<in> set (log_part xs)" by (simp add: compacted_def)
  have "fst (dec x) = fst (dec y)" using y(2) by (simp add: dec_def)
  with yx assms(1,3) have "x \<in> set (log_part xs)" unfolding pending_def by (metis not_less)
  with yx y(2) sorted_keys_distinct [OF sorted_keys_log_part [OF assms(2)]] have "x = y"
    by (metis distinct_map inj_on_eq_iff)
  with y(1) show "x \<in> set (compacted xs cr' c)" by simp
qed simp

lemma compact_pending:
  assumes "pending xs ys cr cur0" "sorted_keys xs" "sorted_keys ys" "cr \<le> c"
  shows "pending xs (apply_batch (compact_ops xs cr c) ys) c cur0"
proof -
  have "has_later xs c x" if "x \<in> set (log_part xs)" "x \<notin> set (log_part ys) \<or> fst x \<in> fst ` set (compacted xs cr c)" for x
  proof (cases "x \<in> set (log_part ys)")
    case True
    with that(2) compacted_key [OF assms(1,2) True] show ?thesis by (simp add: compacted_def)
  next
    case False
    with that(1) assms(1,4) show ?thesis unfolding pending_def using has_later_mono by blast
  qed
  with assms(1) show ?thesis unfolding pending_def compact_log_part [OF assms(3)] set_filter by blast
qed

lemma compact_represents:
  assumes "represents ys cr cur H" "pending xs ys cr cur0" "sorted_keys xs" "cr \<le> c"
  shows "represents (apply_batch (compact_ops xs cr c) ys) c cur H"
proof -
  let ?zs = "apply_batch (compact_ops xs cr c) ys" and ?K = "fst ` set (compacted xs cr c)"
  note D = representsD [OF assms(1)]
  note lp = compact_log_part [OF D(2), of xs cr c]
  note p = compact_pending [OF assms(2,3) D(2) assms(4)]
  have sub: "set (log_part ?zs) \<subseteq> set (log_part ys)" unfolding lp by auto
  have survive: "\<exists>z \<in> set (log_part ?zs). r_key (snd (dec z)) = r_key (snd (dec x)) \<and> fst (dec x) < fst (dec z) \<and> fst (dec z) \<le> c"
    if x: "x \<in> set (log_part ys)" "fst x \<in> ?K" for x
  proof -
    have "has_later xs c x" using x compacted_key [OF assms(2,3) x(1)] by (simp add: compacted_def)
    then show ?thesis
      by (rule later_survives [where S = "set (log_part ?zs)"]) (use p in \<open>unfold pending_def, blast\<close>)+
  qed
  let ?Q = "\<lambda>d. d \<in> set (changes ?zs)"
  have filt: "changes ?zs = filter ?Q (changes ys)"
  proof -
    have inj: "dec x = dec y \<Longrightarrow> x \<in> set (log_part ys) \<Longrightarrow> y \<in> set (log_part ys) \<Longrightarrow> x = y" for x y
      using D(3) unfolding grouped_def by metis
    have "fst x \<notin> ?K \<longleftrightarrow> dec x \<in> set (changes ?zs)" if "x \<in> set (log_part ys)" for x
      using that inj unfolding changes_def lp set_map set_filter by blast
    then show ?thesis
      unfolding changes_def [of ys] filter_map comp_def unfolding changes_def [of ?zs] lp
      by (metis (mono_tags, lifting) filter_cong)
  qed
  have new: "newest key (up_to t (changes ?zs)) = newest key (up_to t H)" if t: "c \<le> t" for key t
  proof -
    have "newest key (up_to t (filter ?Q (changes ys))) = newest key (up_to t (changes ys))"
    proof (rule newest_filter [OF ordered_changes [OF D(1-3)]])
      fix d assume d: "d \<in> set (changes ys)" "\<not> ?Q d"
      then obtain x where x: "x \<in> set (log_part ys)" "d = dec x" unfolding changes_def by auto
      with d(2) have "fst x \<in> ?K" unfolding changes_def lp by auto
      from survive [OF x(1) this] obtain z where
        "z \<in> set (log_part ?zs)" "r_key (snd (dec z)) = r_key (snd d)" "fst d < fst (dec z)" "fst (dec z) \<le> c" using x(2) by blast
      then show "\<exists>z \<in> set (changes ys). ?Q z \<and> r_key (snd z) = r_key (snd d) \<and> fst d < fst z \<and> fst z \<le> t"
        using sub t unfolding changes_def by (intro bexI [of _ "dec z"]) auto
    qed
    then show ?thesis using D(8) [of t key] t assms(4) filt by simp
  qed
  have "wf_log ?zs" using D(1) sub unfolding wf_log_part by blast
  moreover have "grouped ?zs" using D(3) sub unfolding grouped_def by blast
  moreover have "subseq (changes ?zs) H" using filt D(10) subseq_filter_left subseq_order.trans by metis
  ultimately show ?thesis
    using D(2,4,6,7,9) new unfolding represents_def compact_idx by (simp del: split_paired_All)
qed

section \<open>Batches of entries\<close>

text \<open>What the entries of a batch must satisfy after the current revision, the compacted revision and the
  last sequence: sequences and revisions ascend and compaction does not go back.\<close>

fun entries_ok :: "int \<Rightarrow> int \<Rightarrow> int \<Rightarrow> entry list \<Rightarrow> bool" where
  "entries_ok cur cr sq [] = True"
| "entries_ok cur cr sq (e # es) \<longleftrightarrow> sq < Sequence e \<and> is_rev (Sequence e) \<and>
     (if e_Op e = OpCompact then cr \<le> e_PrevRevision e \<and> is_rev (e_PrevRevision e) \<and> entries_ok cur (e_PrevRevision e) (Sequence e) es
      else apply_ok cur e \<and> e_Revision e \<le> Sequence e \<and> entries_ok (e_Revision e) cr (Sequence e) es)"

fun last_rev :: "int \<Rightarrow> entry list \<Rightarrow> int" where
  "last_rev cur [] = cur"
| "last_rev cur (e # es) = last_rev (if e_Op e = OpCompact then cur else e_Revision e) es"

fun last_compact :: "int \<Rightarrow> entry list \<Rightarrow> int" where
  "last_compact cr [] = cr"
| "last_compact cr (e # es) = last_compact (if e_Op e = OpCompact then e_PrevRevision e else cr) es"

definition last_seq :: "int \<Rightarrow> entry list \<Rightarrow> int" where
  "last_seq sq es = (if es = [] then sq else Sequence (last es))"

fun batch_ops :: "(bytes \<times> bytes) list \<Rightarrow> int \<Rightarrow> entry list \<Rightarrow> batch_op list" where
  "batch_ops xs cr [] = []"
| "batch_ops xs cr (e # es) =
     (if e_Op e = OpCompact then compact_ops xs cr (e_PrevRevision e) @ batch_ops xs (e_PrevRevision e) es
      else entry_ops e @ batch_ops xs cr es)"

lemma entries_ok_bounds:
  "entries_ok cur cr sq es \<Longrightarrow> cur \<le> last_rev cur es \<and> cr \<le> last_compact cr es \<and> sq \<le> last_seq sq es \<and>
     (is_rev cur \<longrightarrow> is_rev (last_rev cur es)) \<and> (is_rev cr \<longrightarrow> is_rev (last_compact cr es)) \<and> (is_rev sq \<longrightarrow> is_rev (last_seq sq es)) \<and>
     (cur \<le> sq \<longrightarrow> last_rev cur es \<le> last_seq sq es)"
proof (induction cur cr sq es rule: entries_ok.induct)
  case (2 cur cr sq e es)
  have "last_seq sq (e # es) = last_seq (Sequence e) es" by (simp add: last_seq_def)
  with 2 show ?case by (cases "e_Op e = OpCompact") (auto simp: apply_ok_def)
qed (simp add: last_seq_def)

lemma last_seq_less: "entries_ok cur cr sq es \<Longrightarrow> es \<noteq> [] \<Longrightarrow> sq < last_seq sq es"
proof (cases es)
  case (Cons e es')
  assume "entries_ok cur cr sq es" "es \<noteq> []"
  with Cons have "sq < Sequence e" "\<exists>cur cr. entries_ok cur cr (Sequence e) es'" by (auto split: if_splits)
  with entries_ok_bounds have "sq < last_seq (Sequence e) es'" by force
  then show ?thesis using Cons by (auto simp: last_seq_def split: if_splits)
qed simp

lemma in_upd_sorted:
  "sorted_keys l \<Longrightarrow> x \<in> set (upd_sorted k v l) \<longleftrightarrow> x = (k, v) \<or> x \<in> set l \<and> fst x \<noteq> k"
proof (induction k v l rule: upd_sorted.induct)
  case (2 k v a b l)
  then show ?case by (cases "k < a"; cases "k = a") force+
qed simp

lemma in_log_part_put:
  assumes "sorted_keys ys" "is_log k"
  shows "x \<in> set (log_part (apply_batch (put_ops k rv r) ys)) \<longleftrightarrow> x = (k, marshalRecord r) \<or> x \<in> set (log_part ys) \<and> fst x \<noteq> k"
proof -
  have "idxKey (r_key r) \<notin> fst ` set (upd_sorted k (marshalRecord r) (log_part ys))"
    unfolding set_upd_sorted using assms(2) not_idx(4) by (auto simp: log_part_def)
  then have "log_part (apply_batch (put_ops k rv r) ys) = upd_sorted k (marshalRecord r) (log_part ys)"
    using assms by (simp add: put_ops_def idx_op_def log_part_upd log_part_del del_sorted_absent)
  with in_upd_sorted [OF sorted_keys_log_part [OF assms(1)]] show ?thesis by simp
qed

lemma put_pending:
  assumes "pending xs ys cr cur0" "sorted_keys ys" "log_key k rv t" "cur0 < rv"
  shows "pending xs (apply_batch (put_ops k rv r) ys) cr cur0"
proof -
  note m = in_log_part_put [OF assms(2) log_keyD(5) [OF assms(3)], of _ rv r]
  have k: "fst (dec x) = rv" if "fst x = k" for x using that log_keyD(1) [OF assms(3)] by (simp add: dec_def)
  have p: "\<And>x. x \<in> set (log_part ys) \<Longrightarrow> x \<in> set (log_part xs) \<or> cur0 < fst (dec x)"
    "\<And>x. x \<in> set (log_part xs) \<Longrightarrow> fst (dec x) \<le> cur0"
    "\<And>x. x \<in> set (log_part xs) \<Longrightarrow> x \<notin> set (log_part ys) \<Longrightarrow> has_later xs cr x"
    using assms(1) unfolding pending_def by blast+
  have n: "fst x \<noteq> k" if "x \<in> set (log_part xs)" for x
    using k [of x] p(2) [OF that] assms(4) by auto
  have l: "cur0 < fst (dec (k, marshalRecord r))" using k [of "(k, marshalRecord r)"] assms(4) by simp
  show ?thesis unfolding pending_def m
  proof (intro conjI ballI impI)
    fix x assume "x \<in> set (log_part (apply_batch (put_ops k rv r) ys))"
    then show "x \<in> set (log_part xs) \<or> cur0 < fst (dec x)" unfolding m using p(1) [of x] l by auto
  next
    fix x assume x: "x \<in> set (log_part xs)" "\<not> (x = (k, marshalRecord r) \<or> x \<in> set (log_part ys) \<and> fst x \<noteq> k)"
    with n [OF x(1)] p(3) [OF x(1)] show "has_later xs cr x" by simp
  qed (rule p(2))
qed

lemma subops_pending:
  "pending xs ys cr cur0 \<Longrightarrow> sorted_keys ys \<Longrightarrow> 0 < rv \<Longrightarrow> is_rev rv \<Longrightarrow> cur0 < rv \<Longrightarrow>
   pending xs (apply_batch (subops_ops rv i ops) ys) cr cur0"
proof (induction rv i ops arbitrary: ys rule: subops_ops.induct)
  case (2 rv i op ops)
  have "pending xs (apply_batch (put_ops (logKeyWithSub rv i) rv (subop_record op)) ys) cr cur0"
    using 2(2,3) log_keys(2) [OF 2(4,5)] 2(6) by (rule put_pending)
  then show ?case using 2 by simp
qed simp

lemma entry_pending:
  assumes "pending xs ys cr cur0" "sorted_keys ys" "apply_ok cur e" "0 \<le> cur" "cur0 \<le> cur"
  shows "pending xs (apply_batch (entry_ops e) ys) cr cur0"
proof -
  have rv: "0 < e_Revision e" "is_rev (e_Revision e)" "cur0 < e_Revision e" using assms(3-5) by (auto simp: apply_ok_def)
  show ?thesis
    using subops_pending [OF assms(1,2) rv] put_pending [OF assms(1,2) log_keys(1) [OF rv(1,2)] rv(3)]
    by (simp add: entry_ops_def)
qed

lemma batch_represents:
  assumes "represents ys cr cur H" "pending xs ys cr cur0" "sorted_keys xs" "entries_ok cur cr sq es" "0 \<le> cur" "cur0 \<le> cur"
  shows "represents (apply_batch (batch_ops xs cr es) ys) (last_compact cr es) (last_rev cur es) (H @ concat (map entry_changes es))"
  using assms
proof (induction cur cr sq es arbitrary: ys H rule: entries_ok.induct)
  case (2 cur cr sq e es)
  note s = representsD(2) [OF 2(3)]
  show ?case
  proof (cases "e_Op e = OpCompact")
    case True
    then have c: "cr \<le> e_PrevRevision e" "entries_ok cur (e_PrevRevision e) (Sequence e) es" using 2(6) by auto
    from 2(1) [OF True compact_represents [OF 2(3,4,5) c(1)] compact_pending [OF 2(4,5) s c(1)] 2(5) c(2) 2(7,8)] True
    show ?thesis by (simp add: entry_changes_def)
  next
    case False
    then have e: "apply_ok cur e" "entries_ok (e_Revision e) cr (Sequence e) es" using 2(6) by auto
    then have rv: "0 \<le> e_Revision e" "cur0 \<le> e_Revision e" using 2(7,8) by (auto simp: apply_ok_def)
    from 2(2) [OF False entry_represents [OF 2(3) e(1) 2(7) False] entry_pending [OF 2(4) s e(1) 2(7,8)] 2(5) e(2) rv] False
    show ?thesis by simp
  qed
qed simp

lemma pending_refl: "represents xs cr cur H \<Longrightarrow> pending xs xs cr cur"
proof -
  assume rep: "represents xs cr cur H"
  have "fst (dec x) \<le> cur" if "x \<in> set (log_part xs)" for x
  proof -
    have "dec x \<in> set H" using representsD(5) [OF rep] that by (auto simp: changes_def)
    then show ?thesis by (rule representsD(7) [OF rep])
  qed
  then show ?thesis unfolding pending_def by blast
qed

section \<open>The store\<close>

definition meta_rev :: "(bytes \<times> bytes) list \<Rightarrow> bytes \<Rightarrow> int" where
  "meta_rev xs k = (case map_of xs k of None \<Rightarrow> 0 | Some v \<Rightarrow> decodeRev v)"

lemma meta_rev_upd: "meta_rev (upd_sorted k v xs) k' = (if k = k' then decodeRev v else meta_rev xs k')"
  by (simp add: meta_rev_def)

lemma meta_keys_distinct [simp]: "metaCompactKey \<noteq> metaCurrentRevKey" "metaCompactKey \<noteq> metaLastSeqKey" "metaCurrentRevKey \<noteq> metaLastSeqKey"
  "metaCurrentRevKey \<noteq> metaCompactKey" "metaLastSeqKey \<noteq> metaCompactKey" "metaLastSeqKey \<noteq> metaCurrentRevKey"
  by (simp_all add: metaCompactKey_def metaCurrentRevKey_def metaLastSeqKey_def str_def)

lemma not_meta: "\<not> meta_key (idxKey k)" "is_log k \<Longrightarrow> \<not> meta_key k"
  using not_idx(1-3) by (auto simp: meta_key_def)

fun op_key :: "batch_op \<Rightarrow> bytes" where
  "op_key (BSet k v) = k"
| "op_key (BDelete k) = k"

lemma map_of_apply_other: "k \<notin> op_key ` set b \<Longrightarrow> map_of (apply_batch b xs) k = map_of xs k"
proof (induction b arbitrary: xs)
  case (Cons op b)
  then show ?case by (cases op) auto
qed simp

lemma put_ops_keys: "op \<in> set (put_ops k rv r) \<Longrightarrow> is_log k \<Longrightarrow> \<not> meta_key (op_key op)"
  by (auto simp: put_ops_def idx_op_def not_meta split: if_splits)

lemma subops_keys: "0 < rv \<Longrightarrow> is_rev rv \<Longrightarrow> op \<in> set (subops_ops rv i ops) \<Longrightarrow> \<not> meta_key (op_key op)"
  by (induction rv i ops rule: subops_ops.induct) (auto dest: put_ops_keys log_keyD(5) [OF log_keys(2)])

lemma entry_keys:
  assumes "apply_ok cur e" "0 \<le> cur" "op \<in> set (entry_ops e)"
  shows "\<not> meta_key (op_key op)"
proof -
  have "0 < e_Revision e" "is_rev (e_Revision e)" using assms(1,2) by (auto simp: apply_ok_def)
  with assms(3) show ?thesis
    using subops_keys put_ops_keys log_keyD(5) [OF log_keys(1)] by (auto simp: entry_ops_def split: if_splits)
qed

lemma entry_meta: "apply_ok cur e \<Longrightarrow> 0 \<le> cur \<Longrightarrow> meta_key k \<Longrightarrow> meta_rev (apply_batch (entry_ops e) xs) k = meta_rev xs k"
proof -
  assume a: "apply_ok cur e" "0 \<le> cur" "meta_key k"
  have "k \<notin> op_key ` set (entry_ops e)" unfolding not_in_image using entry_keys [OF a(1,2)] a(3) by blast
  from map_of_apply_other [OF this] show ?thesis by (simp add: meta_rev_def)
qed

lemma compact_meta:
  assumes "is_i64 c" "meta_key k"
  shows "meta_rev (apply_batch (compact_ops xs cr c) ys) k = (if k = metaCompactKey then c else meta_rev ys k)"
proof -
  have "k \<notin> op_key ` set (map (\<lambda>x. BDelete (fst x)) (compacted xs cr c))"
    using assms(2) not_meta(2) by (auto simp: compacted_def log_part_def)
  from map_of_apply_other [OF this] show ?thesis using assms(1) by (simp add: compact_ops_def meta_rev_def)
qed

lemma batch_meta:
  "entries_ok cur cr sq es \<Longrightarrow> 0 \<le> cur \<Longrightarrow> meta_rev ys metaCompactKey = cr \<Longrightarrow>
   meta_rev (apply_batch (batch_ops xs cr es) ys) metaCompactKey = last_compact cr es"
proof (induction cur cr sq es arbitrary: ys rule: entries_ok.induct)
  case (2 cur cr sq e es)
  have m: "meta_key metaCompactKey" by (simp add: meta_key_def)
  from 2 show ?case
    by (cases "e_Op e = OpCompact") (auto simp: compact_meta [OF is_revD(1) m] entry_meta [OF _ _ m] apply_ok_def)
qed simp

lemma batch_meta_other:
  "entries_ok cur cr sq es \<Longrightarrow> 0 \<le> cur \<Longrightarrow> meta_key k \<Longrightarrow> k \<noteq> metaCompactKey \<Longrightarrow>
   meta_rev (apply_batch (batch_ops xs cr es) ys) k = meta_rev ys k"
proof (induction cur cr sq es arbitrary: ys rule: entries_ok.induct)
  case (2 cur cr sq e es)
  from 2 show ?case
    by (cases "e_Op e = OpCompact") (auto simp: compact_meta [OF is_revD(1) 2(5)] entry_meta [OF _ _ 2(5)] apply_ok_def)
qed simp

text \<open>The invariant of an open store: its database represents the history up to its counters, and the
  counters are stored in the database.\<close>

definition store_inv :: "('db \<Rightarrow> (bytes \<times> bytes) list) \<Rightarrow> 'db sstore \<Rightarrow> change list \<Rightarrow> bool" where
  "store_inv contents s H \<longleftrightarrow>
     represents (contents (s_db s)) (s_compactRev s) (s_currentRev s) H \<and>
     is_rev (s_currentRev s) \<and> is_rev (s_compactRev s) \<and> is_rev (s_lastSeq s) \<and> s_currentRev s \<le> s_lastSeq s \<and>
     meta_rev (contents (s_db s)) metaCompactKey = s_compactRev s \<and>
     meta_rev (contents (s_db s)) metaCurrentRevKey = s_currentRev s \<and>
     meta_rev (contents (s_db s)) metaLastSeqKey = s_lastSeq s"

definition store_entries_ok :: "'db sstore \<Rightarrow> entry list \<Rightarrow> bool" where
  "store_entries_ok s es = entries_ok (s_currentRev s) (s_compactRev s) (s_lastSeq s) es"

definition data_rev :: "entry list \<Rightarrow> int \<Rightarrow> int" where
  "data_rev es m = foldl (\<lambda>m e. if e_Op e = OpCompact then m else max m (e_Revision e)) m es"

definition max_seq :: "entry list \<Rightarrow> int \<Rightarrow> int" where
  "max_seq es m = foldl (\<lambda>m e. max m (Sequence e)) m es"

lemma data_rev_last:
  "entries_ok cur cr sq es \<Longrightarrow> 0 \<le> cur \<Longrightarrow> m \<le> cur \<Longrightarrow>
   data_rev es m = (if \<forall>e \<in> set es. e_Op e = OpCompact then m else last_rev cur es)"
proof (induction cur cr sq es arbitrary: m rule: entries_ok.induct)
  case (2 cur cr sq e es)
  show ?case
  proof (cases "e_Op e = OpCompact")
    case True
    with 2(1) [OF True, of m] 2(3-) show ?thesis by (simp add: data_rev_def)
  next
    case False
    with 2(3-) have e: "entries_ok (e_Revision e) cr (Sequence e) es" "0 \<le> e_Revision e" "max m (e_Revision e) = e_Revision e"
      by (auto simp: apply_ok_def)
    have "data_rev (e # es) m = data_rev es (e_Revision e)" using False e(3) by (simp add: data_rev_def)
    moreover have "last_rev (e_Revision e) es = e_Revision e" if "\<forall>e \<in> set es. e_Op e = OpCompact"
      using that by (induction es) auto
    ultimately show ?thesis using 2(2) [OF False e(1,2) order_refl] False by auto
  qed
qed (simp add: data_rev_def)

lemma max_seq_last:
  "entries_ok cur cr sq es \<Longrightarrow> m \<le> sq \<Longrightarrow> max_seq es m = (if es = [] then m else last_seq sq es)"
proof (induction cur cr sq es arbitrary: m rule: entries_ok.induct)
  case (2 cur cr sq e es)
  then have m: "max m (Sequence e) = Sequence e" by auto
  have "max_seq (e # es) m = max_seq es (Sequence e)" using m by (simp add: max_seq_def)
  with 2 show ?case by (cases "e_Op e = OpCompact") (auto simp: last_seq_def max_seq_def)
qed (simp add: max_seq_def)

lemma last_rev_compact: "\<forall>e \<in> set es. e_Op e = OpCompact \<Longrightarrow> last_rev cur es = cur"
  by (induction es) auto

definition meta_ops :: "int \<Rightarrow> int \<Rightarrow> batch_op list" where
  "meta_ops mr ms = (if mr > 0 then [BSet metaCurrentRevKey (encodeRev mr)] else []) @
     (if ms > 0 then [BSet metaLastSeqKey (encodeRev ms)] else [])"

lemma meta_ops_represents: "represents xs cr cur H \<Longrightarrow> represents (apply_batch (meta_ops mr ms) xs) cr cur H"
  by (simp add: meta_ops_def represents_meta meta_key_def)

lemma meta_ops_rev:
  assumes "is_i64 mr" "is_i64 ms"
  shows "meta_rev (apply_batch (meta_ops mr ms) xs) metaCompactKey = meta_rev xs metaCompactKey"
    "meta_rev (apply_batch (meta_ops mr ms) xs) metaCurrentRevKey = (if mr > 0 then mr else meta_rev xs metaCurrentRevKey)"
    "meta_rev (apply_batch (meta_ops mr ms) xs) metaLastSeqKey = (if ms > 0 then ms else meta_rev xs metaLastSeqKey)"
  using assms by (simp_all add: meta_ops_def meta_rev_upd)

text \<open>A committed batch gives contents that represent the extended history and hold the new counters.\<close>

lemma commit_inv:
  assumes inv: "store_inv contents s H" and ok: "store_entries_ok s es" and ne: "es \<noteq> []" and sorted: "sorted_keys (contents (s_db s))"
    and s': "contents (s_db s') = apply_batch (batch_ops (contents (s_db s)) (s_compactRev s) es @ meta_ops (data_rev es 0) (max_seq es 0)) (contents (s_db s))"
    "s_currentRev s' = max (s_currentRev s) (data_rev es 0)" "s_compactRev s' = last_compact (s_compactRev s) es" "s_lastSeq s' = max (s_lastSeq s) (max_seq es 0)"
  shows "store_inv contents s' (H @ concat (map entry_changes es))"
    "s_currentRev s' = last_rev (s_currentRev s) es" "s_lastSeq s' = last_seq (s_lastSeq s) es"
proof -
  let ?xs = "contents (s_db s)" and ?cur = "s_currentRev s" and ?cr = "s_compactRev s" and ?sq = "s_lastSeq s"
  have I: "represents ?xs ?cr ?cur H" "is_rev ?cur" "is_rev ?cr" "is_rev ?sq" "?cur \<le> ?sq" "meta_rev ?xs metaCompactKey = ?cr"
    "meta_rev ?xs metaCurrentRevKey = ?cur" "meta_rev ?xs metaLastSeqKey = ?sq"
    using inv by (simp_all add: store_inv_def)
  have es: "entries_ok ?cur ?cr ?sq es" using ok by (simp add: store_entries_ok_def)
  note bd = entries_ok_bounds [OF es]
  have n: "0 \<le> ?cur" "0 \<le> ?sq" using I(2,4) by (simp_all add: is_rev_def)
  have ms: "max_seq es 0 = last_seq ?sq es" using max_seq_last [OF es n(2)] ne by simp
  have sq: "0 < last_seq ?sq es" using last_seq_less [OF es ne] n(2) by simp
  note dr = data_rev_last [OF es n(1) n(1)]
  have mr: "max ?cur (data_rev es 0) = last_rev ?cur es" "is_i64 (data_rev es 0)"
    "(if data_rev es 0 > 0 then data_rev es 0 else ?cur) = last_rev ?cur es"
    using dr bd n(1) I(2) last_rev_compact [of es ?cur] by (auto simp: is_rev_def is_i64_def max_i64_def)
  show cur: "s_currentRev s' = last_rev ?cur es" and seq: "s_lastSeq s' = last_seq ?sq es"
    using s'(2,4) mr(1) ms bd by simp_all
  have i64: "is_i64 (max_seq es 0)" using ms bd I(4) is_revD(1) by simp
  let ?ys = "apply_batch (batch_ops ?xs ?cr es) ?xs"
  have "represents ?ys (last_compact ?cr es) (last_rev ?cur es) (H @ concat (map entry_changes es))"
    by (rule batch_represents [OF I(1) pending_refl [OF I(1)] sorted es n(1) order_refl])
  then have rep: "represents (contents (s_db s')) (last_compact ?cr es) (last_rev ?cur es) (H @ concat (map entry_changes es))"
    unfolding s'(1) apply_batch_append by (rule meta_ops_represents)
  have "meta_rev ?ys metaCompactKey = last_compact ?cr es" by (rule batch_meta [OF es n(1) I(6)])
  moreover have "meta_rev ?ys metaCurrentRevKey = ?cur" "meta_rev ?ys metaLastSeqKey = ?sq"
    using batch_meta_other [OF es n(1), of _ ?xs ?xs] I(7,8) by (simp_all add: meta_key_def)
  ultimately have "meta_rev (contents (s_db s')) metaCompactKey = last_compact ?cr es"
    "meta_rev (contents (s_db s')) metaCurrentRevKey = last_rev ?cur es"
    "meta_rev (contents (s_db s')) metaLastSeqKey = last_seq ?sq es"
    unfolding s'(1) apply_batch_append meta_ops_rev [OF mr(2) i64] by (simp_all only: mr(3) ms if_P [OF sq])
  with rep show "store_inv contents s' (H @ concat (map entry_changes es))"
    unfolding store_inv_def cur seq s'(3) using bd I by simp
qed

context pebble_db
begin

lemma hasLater_eq:
  assumes "healthy db" "wf_log (contents db)" "is_rev c" "x \<in> set (log_part (contents db))"
  shows "hasLaterRevisionAtOrBefore P db (r_key (snd (dec x))) (fst (dec x)) c = Inr (has_later (contents db) c x)"
proof (cases "fst (dec x) \<ge> c")
  case True
  then show ?thesis by (force simp: hasLaterRevisionAtOrBefore_def has_later_def)
next
  case False
  let ?rv = "fst (dec x)"
  obtain k v where x: "x = (k, v)" by (cases x)
  obtain t where l: "log_key k ?rv t" using wf_log_partD [OF assms(2) assms(4) [unfolded x]] x by (metis fst_conv)
  note rv = log_keyD(2,3) [OF l]
  have "filter (\<lambda>kv. ?rv + 1 \<le> fst (dec kv) \<and> fst (dec kv) < c + 1) (log_part (contents db)) =
      filter (\<lambda>kv. ?rv < fst (dec kv) \<and> fst (dec kv) \<le> c) (log_part (contents db))" by (intro filter_cong) auto
  then have b: "between (logKey (?rv + 1)) (logKey (c + 1)) (contents db) =
      filter (\<lambda>kv. ?rv < fst (dec kv) \<and> fst (dec kv) \<le> c) (log_part (contents db))"
    using between_log [OF assms(2), of "?rv + 1" "c + 1"] rv is_revD [OF rv(2)] is_revD [OF assms(3)] by simp
  have "(\<exists>d \<in> set (map dec (filter (\<lambda>kv. ?rv < fst (dec kv) \<and> fst (dec kv) \<le> c) (log_part (contents db)))). r_key (snd d) = r_key (snd (dec x))) =
      has_later (contents db) c x" unfolding has_later_def set_map set_filter by blast
  with b show ?thesis
    using False assms(1) is_revD [OF rv(2)] is_revD [OF assms(3)]
      later_loop_eq [OF decodable_filter [OF decodable_log [OF assms(2)], of "\<lambda>kv. ?rv < fst (dec kv) \<and> fst (dec kv) \<le> c"]]
    by (simp add: hasLaterRevisionAtOrBefore_def Iter_eq)
qed

lemma compact_loop_eq:
  assumes "healthy db" "wf_log (contents db)" "is_rev c" "set kvs \<subseteq> set (log_part (contents db))"
  shows "compact_loop P db c kvs None b = Inr (b @ map (\<lambda>x. BDelete (fst x)) (filter (has_later (contents db) c) kvs))"
  using assms(4)
proof (induction kvs arbitrary: b)
  case (Cons x kvs)
  obtain k v where x: "x = (k, v)" by (cases x)
  have l: "(k, v) \<in> set (log_part (contents db))" using Cons.prems x by simp
  obtain r where r: "unmarshalRecord v = Inr r" using decodable_log [OF assms(2)] l by (auto simp: decodable_def)
  from hasLater_eq [OF assms(1-3) l] have "hasLaterRevisionAtOrBefore P db (r_key r) (decodeLogKey k) c = Inr (has_later (contents db) c (k, v))"
    by (simp add: dec_Inr [OF r])
  with Cons r assms(1) show ?case unfolding x by (simp add: Add_eq)
qed simp

lemma applyCompact_eq:
  assumes "healthy (s_db s)" "wf_log (contents (s_db s))" "is_rev c" "is_rev (s_compactRev s)"
  shows "applyCompact P b c s = (Inr (b @ compact_ops (contents (s_db s)) (s_compactRev s) c), s\<lparr>s_compactRev := c\<rparr>)"
proof -
  let ?xs = "contents (s_db s)"
  have "between (logKey (s_compactRev s)) (logKey c) ?xs = filter (\<lambda>kv. s_compactRev s \<le> fst (dec kv) \<and> fst (dec kv) < c) (log_part ?xs)"
    using between_log [OF assms(2)] is_revD [OF assms(3)] is_revD [OF assms(4)] by blast
  moreover have "filter (has_later ?xs c) (filter (\<lambda>kv. s_compactRev s \<le> fst (dec kv) \<and> fst (dec kv) < c) (log_part ?xs)) = compacted ?xs (s_compactRev s) c"
    unfolding compacted_def filter_filter by (rule filter_cong) auto
  ultimately show ?thesis using assms(1)
    by (simp add: applyCompact_def Add_eq Iter_eq compact_loop_eq [OF assms(1-3)] compact_ops_def)
qed

lemma apply_loop_eq:
  assumes "healthy (s_db s)" "wf_log (contents (s_db s))" "entries_ok cur (s_compactRev s) sq es" "is_rev (s_compactRev s)"
  shows "apply_loop P es b mr ms s =
    (Inr (b @ batch_ops (contents (s_db s)) (s_compactRev s) es, data_rev es mr, max_seq es ms), s\<lparr>s_compactRev := last_compact (s_compactRev s) es\<rparr>)"
  using assms
proof (induction es arbitrary: s b mr ms cur sq)
  case (Cons e es)
  show ?case
  proof (cases "e_Op e = OpCompact")
    case True
    let ?s = "s\<lparr>s_compactRev := e_PrevRevision e\<rparr>"
    have c: "is_rev (e_PrevRevision e)" "entries_ok cur (s_compactRev ?s) (Sequence e) es" using Cons.prems(3) True by auto
    have h: "healthy (s_db ?s)" "wf_log (contents (s_db ?s))" "is_rev (s_compactRev ?s)" using Cons.prems c by simp_all
    from Cons.IH [OF h(1,2) c(2) h(3)] show ?thesis using True
      by (simp add: applyCompact_eq [OF Cons.prems(1,2) c(1) Cons.prems(4)] data_rev_def max_seq_def)
  next
    case False
    have c: "apply_ok cur e" "entries_ok (e_Revision e) (s_compactRev s) (Sequence e) es" using Cons.prems(3) False by auto
    from Cons.IH [OF Cons.prems(1,2) c(2) Cons.prems(4)] show ?thesis using False Cons.prems(1) c(1)
      by (simp add: applyEntry_eq data_rev_def max_seq_def)
  qed
qed (simp add: data_rev_def max_seq_def)

lemma commitBatch_eq:
  assumes "healthy (s_db s)"
  obtains db' where "commitBatch P b mr ms sync s =
      (None, s\<lparr>s_db := db', s_currentRev := max (s_currentRev s) mr, s_lastSeq := max (s_lastSeq s) ms\<rparr>)"
    "healthy db'" "contents db' = apply_batch (b @ meta_ops mr ms) (contents (s_db s))"
proof -
  let ?b = "b @ meta_ops mr ms"
  obtain db' where c: "p_Commit P ?b sync (s_db s) = (None, db')" "healthy db'" "contents db' = apply_batch ?b (contents (s_db s))"
    using Commit_eq [OF assms] by blast
  from c(1) have "commitBatch P b mr ms sync s = (None, s\<lparr>s_db := db', s_currentRev := max (s_currentRev s) mr, s_lastSeq := max (s_lastSeq s) ms\<rparr>)"
    using assms by (auto simp: commitBatch_def Add_eq meta_ops_def)
  then show ?thesis using c(2,3) by (rule that)
qed

lemma Apply_inv:
  assumes "healthy (s_db s)" "store_inv contents s H" "store_entries_ok s es"
  obtains s' where "store_Apply P es s = (None, s')" "healthy (s_db s')" "store_inv contents s' (H @ concat (map entry_changes es))"
    "s_currentRev s' = last_rev (s_currentRev s) es" "s_compactRev s' = last_compact (s_compactRev s) es" "s_lastSeq s' = last_seq (s_lastSeq s) es"
proof (cases "es = []")
  case True
  with assms show ?thesis by (intro that [of s]) (simp_all add: store_Apply_def last_seq_def)
next
  case False
  let ?cr = "s_compactRev s" and ?xs = "contents (s_db s)"
  have w: "wf_log ?xs" "is_rev ?cr" using assms(2) representsD(1) by (auto simp: store_inv_def)
  note l = apply_loop_eq [OF assms(1) w(1) assms(3) [unfolded store_entries_ok_def] w(2), of "[]" 0 0]
  let ?s = "s\<lparr>s_compactRev := last_compact ?cr es\<rparr>"
  obtain db' where c: "commitBatch P (batch_ops ?xs ?cr es) (data_rev es 0) (max_seq es 0) False ?s =
      (None, ?s\<lparr>s_db := db', s_currentRev := max (s_currentRev ?s) (data_rev es 0), s_lastSeq := max (s_lastSeq ?s) (max_seq es 0)\<rparr>)"
    "healthy db'" "contents db' = apply_batch (batch_ops ?xs ?cr es @ meta_ops (data_rev es 0) (max_seq es 0)) (contents (s_db ?s))"
    by (rule commitBatch_eq [of ?s]) (use assms(1) in auto)
  let ?s' = "broadcast (?s\<lparr>s_db := db', s_currentRev := max (s_currentRev ?s) (data_rev es 0), s_lastSeq := max (s_lastSeq ?s) (max_seq es 0)\<rparr>)"
  have "store_Apply P es s = (None, ?s')" using False l c(1) by (simp add: store_Apply_def)
  moreover have "contents (s_db ?s') = apply_batch (batch_ops ?xs ?cr es @ meta_ops (data_rev es 0) (max_seq es 0)) ?xs"
    using c(3) by (simp add: broadcast_def)
  note i = commit_inv [OF assms(2,3) False sorted this]
  ultimately show ?thesis using c(2) i by (intro that [of ?s']) (simp_all add: broadcast_def)
qed

end

section \<open>Recovery and reopening\<close>

lemma empty_log: "represents xs cr 0 H \<Longrightarrow> log_part xs = []"
proof -
  assume r: "represents xs cr 0 H"
  have "H = []" using representsD(6,7) [OF r] by (metis last_in_set not_less)
  then show ?thesis using representsD(5) [OF r] by (simp add: changes_def)
qed

context pebble_db
begin

lemma cleanup_none:
  assumes "healthy (s_db s)" "represents (contents (s_db s)) cr cur H" "apply_ok cur' e" "cur \<le> cur'" "0 \<le> cur"
  shows "cleanup_stale P (s_db s) e b = Inr b"
proof -
  let ?xs = "contents (s_db s)" and ?rv = "e_Revision e"
  have rv: "cur < ?rv" "is_rev ?rv" "0 < ?rv" using assms(3-5) by (auto simp: apply_ok_def)
  note wf = representsD(1,2) [OF assms(2)]
  note b = log_part_before(2) [OF assms(2) rv(1,2)]
  have "map_of ?xs (logKey ?rv) = None"
  proof (rule ccontr)
    assume "map_of ?xs (logKey ?rv) \<noteq> None"
    then obtain v where "map_of ?xs (logKey ?rv) = Some v" by blast
    from b [OF map_of_log_key(1) [OF wf this rv(3,2)]] map_of_log_key(2) [OF wf this rv(3,2)] show False by simp
  qed
  moreover have "between (logKey ?rv) (logKey (?rv + 1)) ?xs = []"
    using between_log [OF wf(1), of ?rv "?rv + 1"] is_revD [OF rv(2)] rv(3) b by (force simp: filter_empty_conv)
  ultimately show ?thesis using assms(1) is_revD(3) [OF rv(2)]
    by (simp add: cleanup_stale_def Get_eq Iter_eq)
qed

lemma recover_loop_eq:
  assumes "healthy (s_db s)" "represents (contents (s_db s)) cr0 cur0 H" "entries_ok cur (s_compactRev s) sq es" "is_rev (s_compactRev s)"
    and "cur0 \<le> cur" "0 \<le> cur0"
  shows "recover_loop P es b mr ms s = apply_loop P es b mr ms s"
  using assms
proof (induction es arbitrary: s b mr ms cur sq)
  case (Cons e es)
  note wf = representsD(1) [OF Cons.prems(2)]
  show ?case
  proof (cases "e_Op e = OpCompact")
    case True
    let ?s = "s\<lparr>s_compactRev := e_PrevRevision e\<rparr>"
    have c: "is_rev (e_PrevRevision e)" "entries_ok cur (s_compactRev ?s) (Sequence e) es" using Cons.prems(3) True by auto
    have h: "healthy (s_db ?s)" "represents (contents (s_db ?s)) cr0 cur0 H" "is_rev (s_compactRev ?s)" using Cons.prems c by simp_all
    from Cons.IH [OF h(1,2) c(2) h(3) Cons.prems(5,6)] show ?thesis using True
      by (simp add: applyCompact_eq [OF Cons.prems(1) wf c(1) Cons.prems(4)] Let_def)
  next
    case False
    have c: "apply_ok cur e" "entries_ok (e_Revision e) (s_compactRev s) (Sequence e) es" using Cons.prems(3) False by auto
    then have "cur0 \<le> e_Revision e" using Cons.prems(5) by (simp add: apply_ok_def)
    from Cons.IH [OF Cons.prems(1,2) c(2) Cons.prems(4) this Cons.prems(6)] show ?thesis using False
      by (simp add: cleanup_none [OF Cons.prems(1,2) c(1) Cons.prems(5,6)] applyEntry_eq [OF Cons.prems(1) c(1)] Let_def)
  qed
qed simp

lemma Recover_inv:
  assumes "healthy (s_db s)" "store_inv contents s H" "store_entries_ok s es"
  obtains s' where "store_Recover P es s = (None, s')" "healthy (s_db s')" "store_inv contents s' (H @ concat (map entry_changes es))"
    "s_currentRev s' = last_rev (s_currentRev s) es" "s_compactRev s' = last_compact (s_compactRev s) es" "s_lastSeq s' = last_seq (s_lastSeq s) es"
proof (cases "es = []")
  case True
  with assms show ?thesis by (intro that [of s]) (simp_all add: store_Recover_def last_seq_def)
next
  case False
  let ?cr = "s_compactRev s" and ?xs = "contents (s_db s)"
  have rep: "represents ?xs ?cr (s_currentRev s) H" "is_rev ?cr" "0 \<le> s_currentRev s"
    using assms(2) by (auto simp: store_inv_def is_rev_def)
  note ok = assms(3) [unfolded store_entries_ok_def]
  note l = recover_loop_eq [OF assms(1) rep(1) ok rep(2) order_refl rep(3), of "[]" 0 0]
    apply_loop_eq [OF assms(1) representsD(1) [OF rep(1)] ok rep(2), of "[]" 0 0]
  let ?s = "s\<lparr>s_compactRev := last_compact ?cr es\<rparr>"
  obtain db' where c: "commitBatch P (batch_ops ?xs ?cr es) (data_rev es 0) (max_seq es 0) True ?s =
      (None, ?s\<lparr>s_db := db', s_currentRev := max (s_currentRev ?s) (data_rev es 0), s_lastSeq := max (s_lastSeq ?s) (max_seq es 0)\<rparr>)"
    "healthy db'" "contents db' = apply_batch (batch_ops ?xs ?cr es @ meta_ops (data_rev es 0) (max_seq es 0)) (contents (s_db ?s))"
    by (rule commitBatch_eq [of ?s]) (use assms(1) in auto)
  let ?s' = "?s\<lparr>s_db := db', s_currentRev := max (s_currentRev ?s) (data_rev es 0), s_lastSeq := max (s_lastSeq ?s) (max_seq es 0)\<rparr>"
  have "store_Recover P es s = (None, ?s')" using False l c(1) by (simp add: store_Recover_def)
  moreover have "contents (s_db ?s') = apply_batch (batch_ops ?xs ?cr es @ meta_ops (data_rev es 0) (max_seq es 0)) ?xs"
    using c(3) by simp
  note i = commit_inv [OF assms(2,3) False sorted this]
  ultimately show ?thesis using c(2) i by (intro that [of ?s']) simp_all
qed

lemma loadMeta_inv:
  assumes "healthy (s_db s)" "store_inv contents s H"
  shows "loadMeta P (new_store (s_db s)) = (None, (new_store (s_db s))
    \<lparr>s_currentRev := s_currentRev s, s_compactRev := s_compactRev s, s_lastSeq := s_lastSeq s\<rparr>)"
proof -
  let ?xs = "contents (s_db s)"
  have i: "represents ?xs (s_compactRev s) (s_currentRev s) H" "s_currentRev s \<le> s_lastSeq s" "meta_rev ?xs metaCompactKey = s_compactRev s"
     "meta_rev ?xs metaCurrentRevKey = s_currentRev s" "meta_rev ?xs metaLastSeqKey = s_lastSeq s"
    using assms(2) by (simp_all add: store_inv_def)
  have e: "between logLower logUpper ?xs = []" if "map_of ?xs metaCurrentRevKey = None"
  proof -
    have "s_currentRev s = 0" using that i(4) by (simp add: meta_rev_def)
    then show ?thesis using empty_log [of ?xs "s_compactRev s" H] between_log_upper [OF representsD(1) [OF i(1)]] i(1) by simp
  qed
  show ?thesis
    using assms(1) i(2-5) e unfolding loadMeta_def meta_rev_def new_store_def
    by (cases "map_of ?xs metaCompactKey"; cases "map_of ?xs metaCurrentRevKey"; cases "map_of ?xs metaLastSeqKey")
      (simp_all add: Get_eq IterRev_eq Let_def)
qed

end

end
