(* ===== verification/Store_Watch.thy ===== *)
theory Store_Watch
  imports Store_Apply
begin

text \<open>
  Watches on the state machine of \<open>src/internal/store/store.go\<close>, and its properties: the store refines the
  change history, reads at the head and in the past agree, compaction and reopening lose nothing visible,
  recovery equals live application, a watch sees each change once, and no wake-up is lost.
\<close>

section \<open>Watches\<close>

definition change_event :: "change \<Rightarrow> event_type \<times> keyvalue" where
  "change_event c = (if r_delete (snd c) then EventDelete else EventPut, change_kv c)"

definition seen :: "event \<Rightarrow> event_type \<times> keyvalue" where
  "seen ev = (ev_Type ev, ev_KV ev)"

lemma seen_record_event: "seen (record_event P w (fst c) (snd c) s) = change_event c"
  by (simp add: seen_def record_event_def change_event_def change_kv_def)

text \<open>Nothing that was changed at or after the compacted revision is missing from the log.\<close>

lemma recent_changes:
  assumes "represents xs cr cur H" "cr \<le> a"
  shows "filter (\<lambda>c. a \<le> fst c \<and> Q c) (changes xs) = filter (\<lambda>c. a \<le> fst c \<and> Q c) H"
proof (rule subseq_same_length)
  let ?F = "filter (\<lambda>c. a \<le> fst c \<and> Q c)"
  note D = representsD [OF assms(1)]
  show sub: "subseq (?F (changes xs)) (?F H)" using D(10) by (rule subseq_filter)
  have d: "distinct H" "distinct (changes xs)"
    using D(4) ordered_changes [OF D(1-3)] by (auto simp: ordered_def distinct_map)
  have "c \<in> set (changes xs)" if c: "c \<in> set H" "a \<le> fst c" for c
  proof -
    have inj: "inj_on (\<lambda>c. (fst c, r_key (snd c))) (set H)" using D(4) by (simp add: ordered_def distinct_map)
    have "fst e < fst c" if "e \<in> set H" "fst e \<le> fst c" "r_key (snd e) = r_key (snd c)" "e \<noteq> c" for e
      using inj_onD [OF inj, of e c] that c(1) by force
    then have "newest (r_key (snd c)) (up_to (fst c) H) = Some c"
      unfolding newest_ordered [OF ordered_up_to [OF D(4)]] unfolding up_to_def set_filter using c(1) by blast
    then have "newest (r_key (snd c)) (up_to (fst c) (changes xs)) = Some c" using D(8) [of "fst c"] c(2) assms(2) by simp
    then show ?thesis using newestD by (fastforce simp: up_to_def)
  qed
  then have "set (?F (changes xs)) = set (?F H)" using D(5) by auto
  then show "length (?F (changes xs)) = length (?F H)"
    using distinct_card [OF distinct_filter [OF d(1)]] distinct_card [OF distinct_filter [OF d(2)]] by metis
qed

text \<open>A watch beside a store: batches are applied, none of them compacting past what the watch has still
  to read, and rounds of the watch loop run in between.\<close>

inductive watch_run :: "'db pebble \<Rightarrow> 'db sstore \<Rightarrow> watcher \<Rightarrow> entry list \<Rightarrow> 'db sstore \<Rightarrow> watcher \<Rightarrow> bool"
  for P :: "'db pebble" and s0 :: "'db sstore" and w0 :: watcher where
  start: "watch_run P s0 w0 [] s0 w0"
| batch: "watch_run P s0 w0 es s w \<Longrightarrow> store_entries_ok s bs \<Longrightarrow> store_Apply P bs s = (None, s') \<Longrightarrow>
    last_compact (s_compactRev s) bs \<le> w_nextRev w \<Longrightarrow> watch_run P s0 w0 (es @ bs) s' w"
| round: "watch_run P s0 w0 es s w \<Longrightarrow> watch_run P s0 w0 es s (watch_round P None w s)"

inductive_cases watch_runE: "watch_run P s0 w0 es s w"

definition due :: "gostring \<Rightarrow> int \<Rightarrow> int \<Rightarrow> change list \<Rightarrow> change list" where
  "due pfx a b H = filter (\<lambda>c. a \<le> fst c \<and> fst c < b \<and> matches pfx c) H"

lemma due_append: "due pfx a b (H @ cs) = due pfx a b H @ due pfx a b cs"
  by (simp add: due_def)

lemma due_none: "\<forall>c \<in> set cs. b \<le> fst c \<Longrightarrow> due pfx a b cs = []"
  by (force simp: due_def filter_empty_conv)

text \<open>In an ordered history the changes of adjacent revision ranges follow each other.\<close>

lemma due_split:
  assumes "sorted (map fst H)" "a \<le> b" "b \<le> c"
  shows "due pfx a b H @ due pfx b c H = due pfx a c H"
  using assms
proof (induction H)
  case (Cons x H)
  show ?case
  proof (cases "b \<le> fst x")
    case True
    then have "due pfx a b H = []" using Cons.prems(1) by (intro due_none) force
    with True Cons show ?thesis by (auto simp: due_def)
  next
    case False
    with Cons show ?thesis by (auto simp: due_def)
  qed
qed (simp add: due_def)

lemma entry_changes_rev: "c \<in> set (entry_changes e) \<Longrightarrow> fst c = e_Revision e"
  by (auto simp: entry_changes_def split: if_splits)

lemma entries_changes_after:
  "entries_ok cur cr sq es \<Longrightarrow> c \<in> set (concat (map entry_changes es)) \<Longrightarrow> cur < fst c"
proof (induction es arbitrary: cur cr sq)
  case (Cons e es)
  show ?case
  proof (cases "e_Op e = OpCompact")
    case True
    then have "c \<in> set (concat (map entry_changes es))" using Cons.prems(2) by (simp add: entry_changes_def)
    moreover have "entries_ok cur (e_PrevRevision e) (Sequence e) es" using Cons.prems(1) True by simp
    ultimately show ?thesis by (rule Cons.IH [rotated])
  next
    case False
    then have e: "cur < e_Revision e" "entries_ok (e_Revision e) cr (Sequence e) es" using Cons.prems(1) by (auto simp: apply_ok_def)
    from Cons.prems(2) show ?thesis using entry_changes_rev [of c e] e(1) Cons.IH [OF e(2)] by force
  qed
qed simp

lemma apply_loop_frame:
  "apply_loop P es b mr ms s = (r, s') \<Longrightarrow> s_closed s' = s_closed s \<and> s_notify s' = s_notify s"
proof (induction es arbitrary: b mr ms s)
  case (Cons e es)
  have c: "s_closed t = s_closed s \<and> s_notify t = s_notify s" if "applyCompact P b' c s = (x, t)" for b' c x t
    using that by (auto simp: applyCompact_def split: sum.splits prod.splits)
  show ?case
  proof (cases "e_Op e = OpCompact")
    case True
    obtain x t where x: "applyCompact P b (e_PrevRevision e) s = (x, t)" by fastforce
    with Cons.prems True show ?thesis using c [OF x] Cons.IH [of _ mr _ t] by (cases x) auto
  next
    case False
    with Cons.prems show ?thesis using Cons.IH [of _ _ _ s] by (cases "applyEntry P (s_db s) b e") auto
  qed
qed simp

lemma Apply_frame:
  assumes "store_Apply P es s = (r, s')"
  shows "s_closed s' = s_closed s" "es \<noteq> [] \<Longrightarrow> r = None \<Longrightarrow> s_notify s' = Suc (s_notify s)"
proof -
  obtain x t where l: "apply_loop P es [] 0 0 s = (x, t)" by fastforce
  have c: "s_closed u = s_closed t \<and> s_notify u = s_notify t" if "commitBatch P b mr ms sync t = (y, u)" for b mr ms sync y u
    using that by (auto simp: commitBatch_def split: sum.splits prod.splits option.splits if_splits)
  from assms l apply_loop_frame [OF l] show "s_closed s' = s_closed s" "es \<noteq> [] \<Longrightarrow> r = None \<Longrightarrow> s_notify s' = Suc (s_notify s)"
    by (auto simp: store_Apply_def broadcast_def split: sum.splits prod.splits option.splits if_splits dest!: c)
qed

definition watch_inv :: "('db \<Rightarrow> (bytes \<times> bytes) list) \<Rightarrow> int \<Rightarrow> gostring \<Rightarrow> 'db sstore \<Rightarrow> watcher \<Rightarrow> change list \<Rightarrow> bool" where
  "watch_inv contents a pfx s w H \<longleftrightarrow> store_inv contents s H \<and> \<not> s_closed s \<and> s_compactRev s \<le> w_nextRev w \<and>
     w_prefix w = pfx \<and> \<not> w_done w \<and> a \<le> w_nextRev w \<and> w_nextRev w \<le> max a (s_currentRev s + 1) \<and>
     map seen (w_sent w) = map change_event (due pfx a (w_nextRev w) H)"

lemma due_empty: "due pfx a a H = []"
  by (auto simp: due_def filter_empty_conv)

context pebble_db
begin

lemma watch_round_inv:
  assumes "healthy (s_db s)" "watch_inv contents a pfx s w H" "0 \<le> a" "is_i64 a"
  shows "watch_inv contents a pfx s (watch_round P None w s) H"
    "w_nextRev (watch_round P None w s) = max (w_nextRev w) (s_currentRev s + 1)"
proof -
  let ?n = "w_nextRev w" and ?cur = "s_currentRev s" and ?xs = "contents (s_db s)"
  have I: "store_inv contents s H" "\<not> s_closed s" "s_compactRev s \<le> ?n" "w_prefix w = pfx" "\<not> w_done w" "a \<le> ?n" "?n \<le> max a (?cur + 1)"
    "map seen (w_sent w) = map change_event (due pfx a ?n H)" using assms(2) by (simp_all add: watch_inv_def)
  have rep: "represents ?xs (s_compactRev s) ?cur H" "is_rev ?cur" using I(1) by (simp_all add: store_inv_def)
  have "watch_inv contents a pfx s (watch_round P None w s) H \<and> w_nextRev (watch_round P None w s) = max ?n (?cur + 1)"
  proof (cases "?n \<le> ?cur")
    case False
    then have "watch_round P None w s = w" using I(2) by (simp add: watch_round_def WaitForRevision_def Let_def)
    with False assms(2) show ?thesis by simp
  next
    case True
    let ?es = "map (\<lambda>c. record_event P (w_withPrevKV w) (fst c) (snd c) s) (filter (\<lambda>c. ?n \<le> fst c \<and> fst c \<le> ?cur \<and> matches pfx c) (changes ?xs))"
    have n: "0 \<le> ?n" "is_i64 ?n" using assms(3,4) I(6) True rep(2) by (auto simp: is_rev_def is_i64_def max_i64_def)
    have sc: "fst (scanLog P pfx ?n ?cur (w_withPrevKV w) s) = Inr ?es"
      by (rule scanLog_eq [OF assms(1) representsD(1) [OF rep(1)] n rep(2)])
    then have w: "watch_round P None w s = w\<lparr>w_sent := w_sent w @ ?es, w_nextRev := ?cur + 1\<rparr>"
      using I(2,4) True is_revD(3) [OF rep(2)] by (simp add: watch_round_def WaitForRevision_def Let_def)
    have "filter (\<lambda>c. ?n \<le> fst c \<and> fst c \<le> ?cur \<and> matches pfx c) (changes ?xs) = due pfx ?n (?cur + 1) H"
      using recent_changes [OF rep(1) I(3), of "\<lambda>c. fst c \<le> ?cur \<and> matches pfx c"] by (simp add: due_def)
    then have es: "map seen ?es = map change_event (due pfx ?n (?cur + 1) H)" by (simp add: comp_def seen_record_event)
    have ds: "due pfx a ?n H @ due pfx ?n (?cur + 1) H = due pfx a (?cur + 1) H"
      using representsD(4) [OF rep(1)] I(6) True by (intro due_split) (simp_all add: ordered_def)
    have "map seen (w_sent w @ ?es) = map change_event (due pfx a (?cur + 1) H)"
      by (simp only: map_append I(8) es ds [symmetric])
    with w True I show ?thesis by (simp add: watch_inv_def)
  qed
  then show "watch_inv contents a pfx s (watch_round P None w s) H"
    "w_nextRev (watch_round P None w s) = max ?n (?cur + 1)" by simp_all
qed

lemma watch_batch_inv:
  assumes "healthy (s_db s)" "watch_inv contents a pfx s w H" "store_entries_ok s bs" "store_Apply P bs s = (None, s')"
    "last_compact (s_compactRev s) bs \<le> w_nextRev w"
  shows "healthy (s_db s')" "watch_inv contents a pfx s' w (H @ concat (map entry_changes bs))"
proof -
  have I: "store_inv contents s H" using assms(2) by (simp add: watch_inv_def)
  obtain s'' where s: "store_Apply P bs s = (None, s'')" "healthy (s_db s'')" "store_inv contents s'' (H @ concat (map entry_changes bs))"
    "s_currentRev s'' = last_rev (s_currentRev s) bs" "s_compactRev s'' = last_compact (s_compactRev s) bs"
    by (rule Apply_inv [OF assms(1) I assms(3)])
  then have e: "s'' = s'" using assms(4) by simp
  show "healthy (s_db s')" using s(2) e by simp
  note ok = assms(3) [unfolded store_entries_ok_def]
  have "due pfx a (w_nextRev w) (concat (map entry_changes bs)) = []"
  proof (cases "w_nextRev w = a")
    case False
    then have "w_nextRev w \<le> s_currentRev s + 1" using assms(2) by (auto simp: watch_inv_def)
    then show ?thesis using entries_changes_after [OF ok] by (intro due_none) force
  qed (simp add: due_empty)
  moreover have "s_currentRev s \<le> s_currentRev s''" using entries_ok_bounds [OF ok] s(4) by simp
  ultimately show "watch_inv contents a pfx s' w (H @ concat (map entry_changes bs))"
    using assms(2,5) s(3,5) e Apply_frame(1) [OF assms(4)] by (auto simp: watch_inv_def due_append)
qed

end

section \<open>Reads of a store\<close>

context pebble_db
begin

lemma GetAt_inv:
  assumes "healthy (s_db s)" "store_inv contents s H" "0 \<le> rv"
  shows "GetAt P key rv s =
    (if 0 < rv \<and> rv < s_compactRev s then Inl ErrCompacted
     else if s_currentRev s < rv then Inl ErrFutureRevision
     else Inr (value_at key (if rv = 0 then s_currentRev s else rv) H))"
proof -
  have i: "represents (contents (s_db s)) (s_compactRev s) (s_currentRev s) H" "is_rev (s_currentRev s)" "is_rev (s_compactRev s)"
    using assms(2) by (simp_all add: store_inv_def)
  have g: "getAtRevision P key rv s = Inr (value_at key rv H)" if "s_compactRev s \<le> rv" "rv \<le> s_currentRev s"
    using that assms(3) i(2) by (intro getAtRevision_represents [OF assms(1) i(1)]) (auto simp: is_rev_def)
  show ?thesis using Get_represents [OF assms(1) i(1,2), of key] g assms(3) i(2,3)
    by (auto simp: GetAt_def resolveReadRevision_def is_rev_def not_less)
qed

lemma ListRange_inv:
  assumes "healthy (s_db s)" "store_inv contents s H" "0 \<le> ro_Revision opts"
  shows "ListRange P pfx opts s =
    (if 0 < ro_Revision opts \<and> ro_Revision opts < s_compactRev s then Inl ErrCompacted
     else if s_currentRev s < ro_Revision opts then Inl ErrFutureRevision
     else Inr (list_at pfx opts (if ro_Revision opts = 0 then s_currentRev s else ro_Revision opts) H))"
proof -
  let ?rv = "ro_Revision opts"
  have i: "represents (contents (s_db s)) (s_compactRev s) (s_currentRev s) H" "is_rev (s_currentRev s)" "is_rev (s_compactRev s)"
    using assms(2) by (simp_all add: store_inv_def)
  have g: "ListRange P pfx opts s = Inr (list_at pfx opts ?rv H)" if "s_compactRev s \<le> ?rv" "?rv \<le> s_currentRev s" "?rv \<noteq> 0"
    by (rule ListRange_past [OF assms(1) i(1)]) (use that assms(3) i(2) in \<open>auto simp: is_rev_def resolveReadRevision_def\<close>)
  show ?thesis
  proof (cases "?rv = 0")
    case True
    then show ?thesis using listCurrent_represents [OF assms(1) i(1,2), of pfx "ro_FromKey opts" "ro_Limit opts"] i(2)
      by (simp add: ListRange_def resolveReadRevision_def list_at_def is_rev_def)
  next
    case False
    then show ?thesis using g assms(3) i(3)
      by (cases "?rv < s_compactRev s"; cases "s_currentRev s < ?rv") (auto simp: ListRange_def resolveReadRevision_def is_rev_def)
  qed
qed

lemma CountRange_inv:
  assumes "healthy (s_db s)" "store_inv contents s H" "0 \<le> ro_Revision opts" "ro_Limit opts = 0"
  shows "CountRange P pfx opts s = (case ListRange P pfx opts s of Inl err \<Rightarrow> Inl err | Inr kvs \<Rightarrow> Inr (int (length kvs)))"
proof -
  have i: "represents (contents (s_db s)) (s_compactRev s) (s_currentRev s) H" "is_rev (s_currentRev s)"
    using assms(2) by (simp_all add: store_inv_def)
  have o: "opts\<lparr>ro_Limit := 0\<rparr> = opts" using assms(4) by simp
  show ?thesis
  proof (cases "ro_Revision opts = 0")
    case True
    then show ?thesis
      using countCurrent_represents [OF assms(1) i(1), of pfx "ro_FromKey opts"] ListRange_inv [OF assms(1-3), of pfx] assms(4) i(2)
      by (simp add: CountRange_def list_at_def take_limit_def is_rev_def)
  next
    case False
    then show ?thesis by (simp add: CountRange_def o)
  qed
qed

end

section \<open>A fresh store\<close>

definition fresh :: "memdb sstore" where
  "fresh = new_store ([], None)"

lemma fresh_healthy: "mdb_healthy (s_db fresh)"
  by (simp add: fresh_def new_store_def mdb_healthy_def)

lemma fresh_inv: "store_inv mdb_contents fresh []"
  by (simp add: store_inv_def fresh_def new_store_def mdb_contents_def represents_def wf_log_def grouped_def log_part_def
      ordered_def changes_def up_to_def live_def is_rev_def max_i64_def meta_rev_def)

definition demo_entry :: "int \<Rightarrow> int \<Rightarrow> op \<Rightarrow> string \<Rightarrow> int \<Rightarrow> int \<Rightarrow> int \<Rightarrow> entry" where
  "demo_entry sq rv op v cr prv ver = \<lparr>e_ID = sq, e_Revision = rv, e_Term = 1, e_Op = op, e_Key = str ''k'', e_Value = str v,
     e_Lease = 0, e_CreateRevision = cr, e_PrevRevision = prv, e_Version = ver\<rparr>"

definition demo_entries :: "entry list" where
  "demo_entries = [demo_entry 1 1 OpCreate ''a'' 1 0 1, demo_entry 2 2 OpUpdate ''b'' 1 1 2]"

lemma demo_entries_ok: "store_entries_ok fresh demo_entries"
  by (simp add: store_entries_ok_def demo_entries_def demo_entry_def fresh_def new_store_def Sequence_def is_rev_def max_i64_def
      apply_ok_def op_defs record_ok_def entry_record_def entryVersion_def is_i64_def versionRecordHeaderLooksValid_def Let_def wrap64_def)

section \<open>Properties\<close>

text \<open>C2: Applying a batch of well-formed entries to the store, including transactions and compactions, succeeds and
  extends the change history that the store implements by exactly the changes of the entries; the
  revision, compaction and sequence counters advance to those of the last entries.\<close>

theorem store_apply_refines:
  assumes "pebble_db P contents healthy" "healthy (s_db s)" "store_inv contents s H" "store_entries_ok s es"
  shows "\<exists>s'. store_Apply P es s = (None, s') \<and> healthy (s_db s') \<and> store_inv contents s' (H @ concat (map entry_changes es)) \<and>
    s_currentRev s' = last_rev (s_currentRev s) es \<and> s_compactRev s' = last_compact (s_compactRev s) es \<and>
    s_lastSeq s' = last_seq (s_lastSeq s) es"
  by (rule pebble_db.Apply_inv [OF assms]) blast

theorem store_apply_refines_witness:
  "\<exists>s'. store_Apply mem_pebble demo_entries fresh = (None, s') \<and> s_currentRev s' = 2 \<and>
     store_inv mdb_contents s' (concat (map entry_changes demo_entries))"
  using store_apply_refines [OF mem_pebble_laws fresh_healthy fresh_inv demo_entries_ok]
  by (auto simp: demo_entries_def demo_entry_def op_defs)

text \<open>C18: Point reads return the newest change of the key at the requested revision (0 is the head) in the
  change history, deleted keys read as absent, and revisions that are compacted or in the future are rejected with the two
  errors.\<close>

theorem store_get_history:
  assumes "pebble_db P contents healthy" "healthy (s_db s)" "store_inv contents s H" "0 \<le> rv"
  shows "GetAt P key rv s =
    (if 0 < rv \<and> rv < s_compactRev s then Inl ErrCompacted
     else if s_currentRev s < rv then Inl ErrFutureRevision
     else Inr (value_at key (if rv = 0 then s_currentRev s else rv) H))"
  using assms by (rule pebble_db.GetAt_inv)

theorem store_get_history_witness:
  "\<exists>s. store_Apply mem_pebble demo_entries fresh = (None, s) \<and>
     GetAt mem_pebble (str ''k'') 1 s = Inr (value_at (str ''k'') 1 (concat (map entry_changes demo_entries)))"
proof -
  obtain s where s: "store_Apply mem_pebble demo_entries fresh = (None, s)" "mdb_healthy (s_db s)"
    "store_inv mdb_contents s ([] @ concat (map entry_changes demo_entries))" "s_currentRev s = last_rev (s_currentRev fresh) demo_entries"
    "s_compactRev s = last_compact (s_compactRev fresh) demo_entries"
    by (rule memdb.Apply_inv [OF fresh_healthy fresh_inv demo_entries_ok])
  from store_get_history [OF mem_pebble_laws s(2,3), of 1 "str ''k''"] s(1,4,5) show ?thesis
    by (auto simp: demo_entries_def demo_entry_def op_defs fresh_def new_store_def)
qed

text \<open>C19: Prefix listings, at the head through the index and at past revisions through the log, return the live keys of
  the change history with that prefix from the start key on, in key order and up to the limit, and
  a count returns the number of keys that the listing without a limit has.\<close>

theorem store_list_history:
  assumes "pebble_db P contents healthy" "healthy (s_db s)" "store_inv contents s H" "0 \<le> ro_Revision opts"
  shows "ListRange P pfx opts s =
      (if 0 < ro_Revision opts \<and> ro_Revision opts < s_compactRev s then Inl ErrCompacted
       else if s_currentRev s < ro_Revision opts then Inl ErrFutureRevision
       else Inr (list_at pfx opts (if ro_Revision opts = 0 then s_currentRev s else ro_Revision opts) H)) \<and>
    (ro_Limit opts = 0 \<longrightarrow> CountRange P pfx opts s =
      (case ListRange P pfx opts s of Inl err \<Rightarrow> Inl err | Inr kvs \<Rightarrow> Inr (int (length kvs))))"
  using pebble_db.ListRange_inv [OF assms] pebble_db.CountRange_inv [OF assms] by blast

theorem store_list_history_witness:
  "\<exists>s. store_Apply mem_pebble demo_entries fresh = (None, s) \<and>
     ListRange mem_pebble [] \<lparr>ro_Revision = 2, ro_FromKey = [], ro_Limit = 5\<rparr> s =
       Inr (list_at [] \<lparr>ro_Revision = 2, ro_FromKey = [], ro_Limit = 5\<rparr> 2 (concat (map entry_changes demo_entries)))"
proof -
  obtain s where s: "store_Apply mem_pebble demo_entries fresh = (None, s)" "mdb_healthy (s_db s)"
    "store_inv mdb_contents s ([] @ concat (map entry_changes demo_entries))" "s_currentRev s = last_rev (s_currentRev fresh) demo_entries"
    "s_compactRev s = last_compact (s_compactRev fresh) demo_entries"
    by (rule memdb.Apply_inv [OF fresh_healthy fresh_inv demo_entries_ok])
  from store_list_history [OF mem_pebble_laws s(2,3), of "\<lparr>ro_Revision = 2, ro_FromKey = [], ro_Limit = 5\<rparr>" "[]"] s(1,4,5) show ?thesis
    by (auto simp: demo_entries_def demo_entry_def op_defs fresh_def new_store_def)
qed

text \<open>The two read paths agree: what the index gives for the head is what scanning the log up to the
  current revision gives, for point reads and for listings.\<close>

theorem store_head_equals_log:
  assumes "pebble_db P contents healthy" "healthy (s_db s)" "store_inv contents s H" "s_compactRev s \<le> s_currentRev s"
  shows "store_Get P key s = getAtRevision P key (s_currentRev s) s \<and>
    ListRange P pfx \<lparr>ro_Revision = 0, ro_FromKey = f, ro_Limit = n\<rparr> s =
    ListRange P pfx \<lparr>ro_Revision = s_currentRev s, ro_FromKey = f, ro_Limit = n\<rparr> s"
proof -
  have i: "represents (contents (s_db s)) (s_compactRev s) (s_currentRev s) H" "is_rev (s_currentRev s)"
    using assms(3) by (simp_all add: store_inv_def)
  have "store_Get P key s = getAtRevision P key (s_currentRev s) s"
    using pebble_db.Get_represents [OF assms(1,2) i] pebble_db.getAtRevision_represents [OF assms(1,2) i assms(4)] by simp
  moreover have "ListRange P pfx \<lparr>ro_Revision = 0, ro_FromKey = f, ro_Limit = n\<rparr> s =
      ListRange P pfx \<lparr>ro_Revision = s_currentRev s, ro_FromKey = f, ro_Limit = n\<rparr> s"
    using pebble_db.ListRange_inv [OF assms(1-3)] i(2) assms(4) by (simp add: list_at_def is_rev_def)
  ultimately show ?thesis ..
qed

theorem store_head_equals_log_witness:
  "\<exists>s. store_Apply mem_pebble demo_entries fresh = (None, s) \<and> store_Get mem_pebble (str ''k'') s = getAtRevision mem_pebble (str ''k'') 2 s"
proof -
  obtain s where s: "store_Apply mem_pebble demo_entries fresh = (None, s)" "mdb_healthy (s_db s)"
    "store_inv mdb_contents s ([] @ concat (map entry_changes demo_entries))" "s_currentRev s = last_rev (s_currentRev fresh) demo_entries"
    "s_compactRev s = last_compact (s_compactRev fresh) demo_entries"
    by (rule memdb.Apply_inv [OF fresh_healthy fresh_inv demo_entries_ok])
  from store_head_equals_log [OF mem_pebble_laws s(2,3), of "str ''k''"] s(1,4,5) show ?thesis
    by (auto simp: demo_entries_def demo_entry_def op_defs fresh_def new_store_def)
qed

text \<open>C15: Compaction is invisible to the reads it still allows: after a compaction at a revision, every read at or
  after that revision returns what it returned before, and every earlier read is rejected as compacted.\<close>

theorem compaction_preserves_reads:
  assumes "pebble_db P contents healthy" "healthy (s_db s)" "store_inv contents s H" "e_Op e = OpCompact" "store_entries_ok s [e]"
    and "store_Apply P [e] s = (None, s')" "0 < rv"
  shows "GetAt P key rv s' = (if rv < e_PrevRevision e then Inl ErrCompacted else GetAt P key rv s)"
proof -
  obtain s'' where a: "store_Apply P [e] s = (None, s'')" "healthy (s_db s'')" "store_inv contents s'' (H @ concat (map entry_changes [e]))"
    "s_currentRev s'' = last_rev (s_currentRev s) [e]" "s_compactRev s'' = last_compact (s_compactRev s) [e]"
    by (rule pebble_db.Apply_inv [OF assms(1-3,5)])
  have "s'' = s'" "concat (map entry_changes [e]) = []" using a(1) assms(4,6) by (simp_all add: entry_changes_def)
  with pebble_db.GetAt_inv [OF assms(1) a(2,3), of rv key] pebble_db.GetAt_inv [OF assms(1-3), of rv key] assms(4,5,7) a(4,5)
  show ?thesis by (auto simp: store_entries_ok_def)
qed

theorem compaction_preserves_reads_witness:
  "\<exists>s s'. store_Apply mem_pebble demo_entries fresh = (None, s) \<and> store_Apply mem_pebble [demo_entry 3 2 OpCompact [] 0 2 0] s = (None, s') \<and>
     GetAt mem_pebble (str ''k'') 1 s' = Inl ErrCompacted \<and> GetAt mem_pebble (str ''k'') 2 s' = GetAt mem_pebble (str ''k'') 2 s"
proof -
  let ?e = "demo_entry 3 2 OpCompact [] 0 2 0"
  obtain s where s: "store_Apply mem_pebble demo_entries fresh = (None, s)" "mdb_healthy (s_db s)"
    "store_inv mdb_contents s ([] @ concat (map entry_changes demo_entries))" "s_currentRev s = last_rev (s_currentRev fresh) demo_entries"
    "s_compactRev s = last_compact (s_compactRev fresh) demo_entries" "s_lastSeq s = last_seq (s_lastSeq fresh) demo_entries"
    by (rule memdb.Apply_inv [OF fresh_healthy fresh_inv demo_entries_ok])
  have c: "e_Op ?e = OpCompact" "store_entries_ok s [?e]"
    using s(4-6) by (simp_all add: demo_entry_def demo_entries_def store_entries_ok_def fresh_def new_store_def last_seq_def Sequence_def is_rev_def max_i64_def op_defs)
  obtain s' where s': "store_Apply mem_pebble [?e] s = (None, s')" by (rule memdb.Apply_inv [OF s(2,3) c(2)])
  from compaction_preserves_reads [OF mem_pebble_laws s(2,3) c s', of 1 "str ''k''"]
    compaction_preserves_reads [OF mem_pebble_laws s(2,3) c s', of 2 "str ''k''"] s(1) s'
  show ?thesis by (auto simp: demo_entry_def)
qed

text \<open>C30: Reopening the database of a store gives the same revision,
  compaction and sequence counters and so implements the same change history.\<close>

theorem store_reopen:
  assumes "pebble_db P contents healthy" "healthy (s_db s)" "store_inv contents s H"
  shows "\<exists>s'. store_Open P [(Inr (s_db s), late)] = Some (Inr s') \<and> store_inv contents s' H \<and> s_db s' = s_db s \<and>
    s_currentRev s' = s_currentRev s \<and> s_compactRev s' = s_compactRev s \<and> s_lastSeq s' = s_lastSeq s"
  using pebble_db.loadMeta_inv [OF assms] assms(3) by (simp add: store_inv_def new_store_def)

theorem store_reopen_witness:
  "\<exists>s s'. store_Apply mem_pebble demo_entries fresh = (None, s) \<and> store_Open mem_pebble [(Inr (s_db s), False)] = Some (Inr s') \<and>
     s_currentRev s' = 2"
proof -
  obtain s where s: "store_Apply mem_pebble demo_entries fresh = (None, s)" "mdb_healthy (s_db s)"
    "store_inv mdb_contents s ([] @ concat (map entry_changes demo_entries))" "s_currentRev s = last_rev (s_currentRev fresh) demo_entries"
    by (rule memdb.Apply_inv [OF fresh_healthy fresh_inv demo_entries_ok])
  from store_reopen [OF mem_pebble_laws s(2,3), of False] s(1,4) show ?thesis
    by (auto simp: demo_entries_def demo_entry_def op_defs)
qed



text \<open>C8: A watch that starts after a revision delivers every change of a matching key after that revision exactly
  once and in order, however batches and rounds of the watch interleave, provided compaction does not
  overtake it; after a round it has delivered everything up to the current revision.\<close>

theorem watch_exactly_once:
  assumes "pebble_db P contents healthy" "healthy (s_db s0)" "store_inv contents s0 H" "\<not> s_closed s0"
    and "0 \<le> startRev" "is_rev startRev" "s_compactRev s0 \<le> startRev + 1"
    and "fst (store_Watch pfx startRev prev s0) = Inr w0" "watch_run P s0 w0 es s w"
  shows "map seen (w_sent w) = map change_event (due pfx (startRev + 1) (w_nextRev w) (H @ concat (map entry_changes es))) \<and>
    s_currentRev s < w_nextRev (watch_round P None w s)"
proof -
  let ?a = "startRev + 1"
  have a: "0 \<le> ?a" "is_i64 ?a" using assms(5) is_revD(2) [OF assms(6)] by simp_all
  have w0: "w_nextRev w0 = ?a" "w_prefix w0 = pfx" "w_sent w0 = []" "\<not> w_done w0"
    using assms(4,8) is_revD(3) [OF assms(6)] by (auto simp: store_Watch_def)
  from assms(9) have "healthy (s_db s) \<and> watch_inv contents ?a pfx s w (H @ concat (map entry_changes es))"
  proof (induction rule: watch_run.induct)
    case start
    then show ?case using assms(2-4,7) w0 by (simp add: watch_inv_def due_empty)
  next
    case (batch es s w bs s')
    from batch.IH have h: "healthy (s_db s)" "watch_inv contents ?a pfx s w (H @ concat (map entry_changes es))" by simp_all
    from pebble_db.watch_batch_inv [OF assms(1) h batch.hyps(2-4)] show ?case by simp
  next
    case (round es s w)
    then show ?case using pebble_db.watch_round_inv(1) [OF assms(1) _ _ a] by simp
  qed
  then show ?thesis using pebble_db.watch_round_inv(2) [OF assms(1) _ _ a] by (auto simp: watch_inv_def)
qed

theorem watch_exactly_once_witness:
  "\<exists>w0 s. fst (store_Watch [] 0 True fresh) = Inr w0 \<and> store_Apply mem_pebble demo_entries fresh = (None, s) \<and>
     map seen (w_sent (watch_round mem_pebble None w0 s)) = map change_event (concat (map entry_changes demo_entries))"
proof -
  let ?init = "\<lparr>w_prefix = [], w_nextRev = 1, w_withPrevKV = True, w_sent = [], w_done = False\<rparr>"
  have w0: "fst (store_Watch [] 0 True fresh) = Inr ?init"
    by (simp add: store_Watch_def fresh_def new_store_def wrap64_def)
  obtain s where s: "store_Apply mem_pebble demo_entries fresh = (None, s)" "s_currentRev s = last_rev (s_currentRev fresh) demo_entries"
    by (rule memdb.Apply_inv [OF fresh_healthy fresh_inv demo_entries_ok])
  let ?w = "watch_round mem_pebble None ?init s"
  have "watch_run mem_pebble fresh ?init ([] @ demo_entries) s ?init"
    by (rule watch_run.batch [OF watch_run.start demo_entries_ok s(1)]) (simp add: demo_entries_def demo_entry_def op_defs fresh_def new_store_def)
  then have r: "watch_run mem_pebble fresh ?init demo_entries s ?w" by (simp add: watch_run.round)
  have f: "\<not> s_closed fresh" "is_rev 0" "s_compactRev fresh \<le> 0 + 1" by (simp_all add: fresh_def new_store_def is_rev_def max_i64_def)
  have "w_nextRev ?w = 3"
  proof -
    have i: "watch_inv mdb_contents 1 [] s ?init ([] @ concat (map entry_changes demo_entries))" "mdb_healthy (s_db s)"
      using memdb.watch_batch_inv [OF fresh_healthy, of 1 "[]" ?init "[]" demo_entries s] demo_entries_ok s(1) fresh_inv
      by (simp_all add: watch_inv_def fresh_def new_store_def due_empty demo_entries_def demo_entry_def op_defs)
    from memdb.watch_round_inv(2) [OF i(2,1)] s(2) show ?thesis
      by (simp add: demo_entries_def demo_entry_def op_defs is_i64_def)
  qed
  with watch_exactly_once [OF mem_pebble_laws fresh_healthy fresh_inv f(1) order_refl f(2,3) w0 r] s(1) w0 show ?thesis
    by (auto simp: due_def matches_def HasPrefix_def demo_entries_def demo_entry_def entry_changes_def op_defs)
qed



end
