(* ===== verification/Peer_Messages.thy ===== *)
theory Peer_Messages
  imports Wal_Entry
begin

text \<open>
  The messages of the leader's stream to its followers and their binary codec,
  \<open>src/internal/peer/peer.go\<close>. As in \<open>Wal_Entry\<close>, a buffer filled at fixed offsets is the
  concatenation of its fields; the two reserved bytes at offset 42 stay zero.

  Lemmas: messages and acknowledgements round-trip, and an entry survives its conversion to a
  message with its sequence made explicit.
\<close>

section \<open>Messages\<close>

record walmsg =
  m_ID :: int
  m_Revision :: int
  m_Term :: nat
  m_Op :: byte
  m_Key :: gostring
  m_Value :: bytes
  m_Lease :: int
  m_CreateRevision :: int
  m_PrevRevision :: int
  m_Version :: int
  m_CommitRevision :: int
  m_CommitStartRevision :: int
  m_Commit :: bool
  m_Shutdown :: bool

definition msg0 :: walmsg where
  "msg0 = \<lparr>m_ID = 0, m_Revision = 0, m_Term = 0, m_Op = 0, m_Key = [], m_Value = [], m_Lease = 0, m_CreateRevision = 0,
     m_PrevRevision = 0, m_Version = 0, m_CommitRevision = 0, m_CommitStartRevision = 0, m_Commit = False, m_Shutdown = False\<rparr>"

definition EntryToMsg :: "entry \<Rightarrow> walmsg" where
  "EntryToMsg e = msg0\<lparr>m_ID := Sequence e, m_Revision := e_Revision e, m_Term := e_Term e, m_Op := e_Op e,
     m_Key := e_Key e, m_Value := e_Value e, m_Lease := e_Lease e, m_CreateRevision := e_CreateRevision e,
     m_PrevRevision := e_PrevRevision e, m_Version := e_Version e\<rparr>"

definition MsgToEntry :: "walmsg \<Rightarrow> entry" where
  "MsgToEntry m = \<lparr>e_ID = m_ID m, e_Revision = m_Revision m, e_Term = m_Term m, e_Op = m_Op m, e_Key = m_Key m,
     e_Value = m_Value m, e_Lease = m_Lease m, e_CreateRevision = m_CreateRevision m,
     e_PrevRevision = m_PrevRevision m, e_Version = m_Version m\<rparr>"

definition walEntryMsgFixedSize :: nat where "walEntryMsgFixedSize = 84"

definition marshalWalEntryMsg :: "walmsg \<Rightarrow> bytes" where
  "marshalWalEntryMsg m =
     put_i64_le (m_Revision m) @ put_le 8 (m_Term m) @ put_i64_le (m_CreateRevision m) @ put_i64_le (m_PrevRevision m) @
     put_i64_le (m_Lease m) @ [m_Op m] @
     [(if m_Shutdown m then 1 else 0) OR (if m_Commit m then 2 else 0)] @ [0, 0] @
     put_le 4 (length (m_Key m)) @ put_i64_le (m_CommitRevision m) @ put_i64_le (m_CommitStartRevision m) @
     put_i64_le (m_ID m) @ put_i64_le (m_Version m) @ m_Key m @ put_le 4 (length (m_Value m)) @ m_Value m"

definition unmarshalWalEntryMsg :: "bytes \<Rightarrow> walmsg res" where
  "unmarshalWalEntryMsg b =
     (if length b < walEntryMsgFixedSize then Inl (Err ''peer: WalEntryMsg too short'')
      else let kl = get_le (gslice b 44 48) in
        if length b < walEntryMsgFixedSize + kl then Inl (Err ''peer: WalEntryMsg truncated at key'')
        else let vl = get_le (gslice b (80 + kl) (84 + kl)) in
          if length b < walEntryMsgFixedSize + kl + vl then Inl (Err ''peer: WalEntryMsg truncated at value'')
          else Inr \<lparr>m_ID = get_i64_le (gslice b 64 72), m_Revision = get_i64_le (gslice b 0 8),
                 m_Term = get_le (gslice b 8 16), m_Op = b ! 40, m_Key = gslice b 80 (80 + kl),
                 m_Value = gslice b (84 + kl) (84 + kl + vl), m_Lease = get_i64_le (gslice b 32 40),
                 m_CreateRevision = get_i64_le (gslice b 16 24), m_PrevRevision = get_i64_le (gslice b 24 32),
                 m_Version = get_i64_le (gslice b 72 80), m_CommitRevision = get_i64_le (gslice b 48 56),
                 m_CommitStartRevision = get_i64_le (gslice b 56 64),
                 m_Commit = (b ! 41 AND 2 \<noteq> 0), m_Shutdown = (b ! 41 AND 1 \<noteq> 0)\<rparr>)"

definition marshalAckMsg :: "int \<Rightarrow> bytes" where
  "marshalAckMsg rv = put_i64_le rv"

definition unmarshalAckMsg :: "bytes \<Rightarrow> int res" where
  "unmarshalAckMsg b = (if length b < 8 then Inl (Err ''peer: AckMsg too short'') else Inr (get_i64_le (gslice b 0 8)))"

section \<open>Round trips\<close>

definition msg_ok :: "walmsg \<Rightarrow> bool" where
  "msg_ok m \<longleftrightarrow> is_i64 (m_ID m) \<and> is_i64 (m_Revision m) \<and> is_u64 (m_Term m) \<and> is_i64 (m_Lease m) \<and>
     is_i64 (m_CreateRevision m) \<and> is_i64 (m_PrevRevision m) \<and> is_i64 (m_Version m) \<and>
     is_i64 (m_CommitRevision m) \<and> is_i64 (m_CommitStartRevision m) \<and>
     length (m_Key m) < 2 ^ 32 \<and> length (m_Value m) < 2 ^ 32"

definition msg_flags :: "walmsg \<Rightarrow> byte" where
  "msg_flags m = (if m_Shutdown m then 1 else 0) OR (if m_Commit m then 2 else 0)"

lemma msg_flags: "(msg_flags m AND 2 \<noteq> 0) = m_Commit m" "(msg_flags m AND 1 \<noteq> 0) = m_Shutdown m"
  by (simp_all add: msg_flags_def)

text \<open>The fixed part of an encoded message; key and value follow.\<close>

definition msg_head :: "walmsg \<Rightarrow> bytes" where
  "msg_head m = put_i64_le (m_Revision m) @ put_le 8 (m_Term m) @ put_i64_le (m_CreateRevision m) @ put_i64_le (m_PrevRevision m) @
     put_i64_le (m_Lease m) @ [m_Op m] @ [msg_flags m] @ [0, 0] @ put_le 4 (length (m_Key m)) @ put_i64_le (m_CommitRevision m) @
     put_i64_le (m_CommitStartRevision m) @ put_i64_le (m_ID m) @ put_i64_le (m_Version m)"

lemma length_msg_head [simp]: "length (msg_head m) = 80"
  by (simp add: msg_head_def)

lemma marshal_split: "marshalWalEntryMsg m = msg_head m @ m_Key m @ put_le 4 (length (m_Value m)) @ m_Value m"
  by (simp add: marshalWalEntryMsg_def msg_head_def msg_flags_def)

lemma head_fields:
  "gslice (msg_head m) 0 8 = put_i64_le (m_Revision m)" "gslice (msg_head m) 8 16 = put_le 8 (m_Term m)"
  "gslice (msg_head m) 16 24 = put_i64_le (m_CreateRevision m)" "gslice (msg_head m) 24 32 = put_i64_le (m_PrevRevision m)"
  "gslice (msg_head m) 32 40 = put_i64_le (m_Lease m)" "msg_head m ! 40 = m_Op m" "msg_head m ! 41 = msg_flags m"
  "gslice (msg_head m) 44 48 = put_le 4 (length (m_Key m))" "gslice (msg_head m) 48 56 = put_i64_le (m_CommitRevision m)"
  "gslice (msg_head m) 56 64 = put_i64_le (m_CommitStartRevision m)" "gslice (msg_head m) 64 72 = put_i64_le (m_ID m)"
  "gslice (msg_head m) 72 80 = put_i64_le (m_Version m)"
  by (simp_all add: msg_head_def gslice_def nth_append)

lemma unmarshal_marshal_msg:
  assumes "msg_ok m"
  shows "unmarshalWalEntryMsg (marshalWalEntryMsg m) = Inr m"
proof -
  let ?b = "marshalWalEntryMsg m" and ?k = "length (m_Key m)" and ?v = "length (m_Value m)"
  have h: "j \<le> 80 \<Longrightarrow> gslice ?b i j = gslice (msg_head m) i j" "i < 80 \<Longrightarrow> ?b ! i = msg_head m ! i" for i j
    by (simp_all add: marshal_split gslice_append_take nth_append)
  have n: "get_le (put_le 4 ?k) = ?k" "get_le (put_le 4 ?v) = ?v" "get_le (put_le 8 (m_Term m)) = m_Term m"
    using assms by (simp_all add: msg_ok_def is_u64_def codec_simps)
  have l: "length ?b = 84 + ?k + ?v" by (simp add: marshal_split)
  have f: "gslice ?b 80 (80 + ?k) = m_Key m" "gslice ?b (80 + ?k) (84 + ?k) = put_le 4 ?v" "gslice ?b (84 + ?k) (84 + ?k + ?v) = m_Value m"
    unfolding marshal_split by (simp_all add: gslice_def)
  show ?thesis
    using assms unfolding unmarshalWalEntryMsg_def Let_def walEntryMsgFixedSize_def
    by (simp add: h head_fields l n f msg_flags [simplified] msg_ok_def is_u64_def codec_simps)
qed

section \<open>Properties\<close>

text \<open>C32: A log entry that the leader encodes for a follower decodes there to the same entry with its sequence
  made explicit, and an acknowledgement decodes to the sequence it carries.\<close>

theorem peer_codec_roundtrip:
  assumes "entry_ok e" "is_i64 rv"
  shows "unmarshalWalEntryMsg (marshalWalEntryMsg (EntryToMsg e)) = Inr (EntryToMsg e) \<and>
    MsgToEntry (EntryToMsg e) = e\<lparr>e_ID := Sequence e\<rparr> \<and> unmarshalAckMsg (marshalAckMsg rv) = Inr rv"
proof -
  have "msg_ok (EntryToMsg e)"
    using assms(1) is_i64_Sequence [OF assms(1)] by (simp add: entry_ok_def msg_ok_def EntryToMsg_def msg0_def is_i64_def)
  then have "unmarshalWalEntryMsg (marshalWalEntryMsg (EntryToMsg e)) = Inr (EntryToMsg e)" by (rule unmarshal_marshal_msg)
  moreover have "MsgToEntry (EntryToMsg e) = e\<lparr>e_ID := Sequence e\<rparr>" by (simp add: MsgToEntry_def EntryToMsg_def msg0_def)
  moreover have "unmarshalAckMsg (marshalAckMsg rv) = Inr rv"
    using assms(2) by (simp add: unmarshalAckMsg_def marshalAckMsg_def gslice_def codec_simps)
  ultimately show ?thesis by blast
qed

theorem peer_codec_roundtrip_witness:
  "unmarshalWalEntryMsg (marshalWalEntryMsg (EntryToMsg (entry0\<lparr>e_Revision := 7, e_Key := str ''k''\<rparr>))) =
     Inr (EntryToMsg (entry0\<lparr>e_Revision := 7, e_Key := str ''k''\<rparr>))"
  using peer_codec_roundtrip [of "entry0\<lparr>e_Revision := 7, e_Key := str ''k''\<rparr>" 0]
  by (simp add: entry_ok_def entry0_def is_i64_def is_u64_def)

end
