(* ===== verification/Peer_Server.thy ===== *)
theory Peer_Server
  imports Peer_Messages "HOL-Library.AList"
begin

text \<open>
  The leader's side of replication, \<open>src/internal/peer/server.go\<close>: the ring buffer of committed entries, the
  fan-out of entries and commit marks to the followers' channels, acknowledgements and the
  wait for them, and the stream of one follower from its registration to its end.

  A Go channel is identified by a number; its contents and whether it is closed are in a map from numbers,
  so that a reconnecting follower's new channel is told from its old one. A buffered channel of capacity
  one used as a signal is a flag. Go maps that are only iterated over are association lists; the
  results do not depend on the order of iteration.
\<close>

section \<open>Ring buffer\<close>

record entrybuffer =
  eb_entries :: "entry list"
  eb_cap :: nat

definition newEntryBuffer :: "nat \<Rightarrow> entrybuffer" where
  "newEntryBuffer cap = \<lparr>eb_entries = [], eb_cap = cap\<rparr>"

definition eb_push :: "entry \<Rightarrow> entrybuffer \<Rightarrow> entrybuffer" where
  "eb_push e b =
     (let es = eb_entries b @ [e]
      in b\<lparr>eb_entries := (if length es > eb_cap b then drop (length es - eb_cap b) es else es)\<rparr>)"

fun since_loop :: "int \<Rightarrow> entry list \<Rightarrow> entry list" where
  "since_loop fromRev [] = []"
| "since_loop fromRev (e # es) = (if Sequence e \<ge> fromRev then e # es else since_loop fromRev es)"

definition eb_since :: "int \<Rightarrow> entrybuffer \<Rightarrow> entry list option" where
  "eb_since fromRev b = (case eb_entries b of
       [] \<Rightarrow> Some []
     | e # _ \<Rightarrow> if fromRev < Sequence e then None else Some (since_loop fromRev (eb_entries b)))"

section \<open>Server\<close>

datatype waitmode = WaitNone | WaitQuorum | WaitAll | WaitOther

record chan =
  ch_queue :: "walmsg list"
  ch_closed :: bool

definition chanCap :: nat where "chanCap = 512"

record server =
  sv_buf :: entrybuffer
  sv_pending :: "entry list"
  sv_followers :: "(gostring \<times> nat) list"
  sv_chans :: "nat \<Rightarrow> chan"
  sv_nextChan :: nat
  sv_followerAckRevs :: "(gostring \<times> int) list"
  sv_maxBroadcastRev :: int
  sv_ackNotify :: bool
  sv_startRev :: int
  sv_gracefulGoodbyes :: "gostring list"
  sv_shutdown :: bool
  sv_disconnect :: bool

definition NewServer :: "nat \<Rightarrow> server" where
  "NewServer cap = \<lparr>sv_buf = newEntryBuffer cap, sv_pending = [], sv_followers = [],
     sv_chans = (\<lambda>_. \<lparr>ch_queue = [], ch_closed = False\<rparr>), sv_nextChan = 0, sv_followerAckRevs = [],
     sv_maxBroadcastRev = 0, sv_ackNotify = False, sv_startRev = 0, sv_gracefulGoodbyes = [], sv_shutdown = False,
     sv_disconnect = False\<rparr>"

definition ConnectedFollowers :: "server \<Rightarrow> nat" where
  "ConnectedFollowers s = length (sv_followers s)"

definition SetStartRev :: "int \<Rightarrow> server \<Rightarrow> server" where
  "SetStartRev rv s = s\<lparr>sv_startRev := rv\<rparr>"

text \<open>The non-blocking send of a message to every follower; a follower whose channel is full has it closed and is dropped.\<close>

definition send_one :: "walmsg \<Rightarrow> gostring \<times> nat \<Rightarrow> server \<Rightarrow> server" where
  "send_one m f s =
     (let c = sv_chans s (snd f)
      in if length (ch_queue c) < chanCap
         then s\<lparr>sv_chans := (sv_chans s)(snd f := c\<lparr>ch_queue := ch_queue c @ [m]\<rparr>)\<rparr>
         else s\<lparr>sv_chans := (sv_chans s)(snd f := c\<lparr>ch_closed := True\<rparr>), sv_followers := AList.delete (fst f) (sv_followers s)\<rparr>)"

definition send_all :: "walmsg \<Rightarrow> server \<Rightarrow> server" where
  "send_all m s = fold (send_one m) (sv_followers s) s"

definition Broadcast :: "entry \<Rightarrow> server \<Rightarrow> server" where
  "Broadcast e s = send_all (EntryToMsg e) (s\<lparr>sv_pending := sv_pending s @ [e]\<rparr>)"

fun commit_loop :: "int \<Rightarrow> int \<Rightarrow> entry list \<Rightarrow> server \<Rightarrow> entry list \<times> server" where
  "commit_loop startRev rv [] s = ([], s)"
| "commit_loop startRev rv (e # es) s =
     (if Sequence e < startRev then commit_loop startRev rv es s
      else if Sequence e \<le> rv then
        commit_loop startRev rv es
          (s\<lparr>sv_buf := eb_push e (sv_buf s), sv_maxBroadcastRev := max (sv_maxBroadcastRev s) (Sequence e)\<rparr>)
      else case commit_loop startRev rv es s of (keep, s) \<Rightarrow> (e # keep, s))"

definition commit_msg :: "int \<Rightarrow> int \<Rightarrow> walmsg" where
  "commit_msg startRev rv = msg0\<lparr>m_Commit := True, m_CommitStartRevision := startRev, m_CommitRevision := rv\<rparr>"

definition BroadcastCommit :: "int \<Rightarrow> int \<Rightarrow> server \<Rightarrow> server" where
  "BroadcastCommit startRev rv s = (case commit_loop startRev rv (sv_pending s) s of (keep, s) \<Rightarrow>
     send_all (commit_msg startRev rv) (s\<lparr>sv_pending := keep\<rparr>))"

definition notifyACK :: "server \<Rightarrow> server" where
  "notifyACK s = s\<lparr>sv_ackNotify := True\<rparr>"

section \<open>Waiting for acknowledgements\<close>

definition requiredFollowerACKs :: "nat \<Rightarrow> waitmode \<Rightarrow> nat" where
  "requiredFollowerACKs connected mode = (case mode of
       WaitNone \<Rightarrow> 0
     | WaitAll \<Rightarrow> connected
     | WaitQuorum \<Rightarrow> (connected + 1) div 2
     | WaitOther \<Rightarrow> (connected + 1) div 2)"

definition ack_rev :: "gostring \<Rightarrow> server \<Rightarrow> int" where
  "ack_rev f s = (case map_of (sv_followerAckRevs s) f of None \<Rightarrow> 0 | Some r \<Rightarrow> r)"

definition connected :: "gostring \<Rightarrow> server \<Rightarrow> bool" where
  "connected f s = (map_of (sv_followers s) f \<noteq> None)"

text \<open>\<open>WaitForFollowers\<close> takes a snapshot, then checks after every wake-up. \<open>wait_snapshot\<close> is the number of
  acknowledgements needed and the followers asked; \<open>None\<close> when it returns at once. A check returns or waits for the next signal.\<close>

definition wait_snapshot :: "waitmode \<Rightarrow> server \<Rightarrow> (nat \<times> gostring list) option" where
  "wait_snapshot mode s =
     (if sv_followers s = [] then None
      else let target = requiredFollowerACKs (length (sv_followers s)) mode
           in if target = 0 then None else Some (target, map fst (sv_followers s)))"

definition wait_check :: "nat \<Rightarrow> gostring list \<Rightarrow> int \<Rightarrow> server \<Rightarrow> bool" where
  "wait_check target required rv s =
     (let live = filter (\<lambda>f. connected f s) required;
          acked = length (filter (\<lambda>f. ack_rev f s \<ge> rv) live);
          pending = length (filter (\<lambda>f. ack_rev f s < rv) live)
      in acked \<ge> target \<or> pending = 0)"

text \<open>The whole wait over the states it sees at its checks and what ends each wait:
  a signal or the end of the context.\<close>

fun wait_loop :: "nat \<Rightarrow> gostring list \<Rightarrow> int \<Rightarrow> (server \<times> goerr option) list \<Rightarrow> goerr option option" where
  "wait_loop target required rv [] = None"
| "wait_loop target required rv ((s, ctxErr) # rest) =
     (if wait_check target required rv s then Some None
      else if ctxErr \<noteq> None then Some ctxErr
      else wait_loop target required rv rest)"

definition WaitForFollowers :: "waitmode \<Rightarrow> int \<Rightarrow> server \<Rightarrow> (server \<times> goerr option) list \<Rightarrow> goerr option option" where
  "WaitForFollowers mode rv s seen = (case wait_snapshot mode s of
       None \<Rightarrow> Some None
     | Some (target, required) \<Rightarrow> wait_loop target required rv seen)"

definition MinFollowerAppliedRev :: "server \<Rightarrow> int" where
  "MinFollowerAppliedRev s = fold (\<lambda>f m. if ack_rev (fst f) s < m then ack_rev (fst f) s else m) (sv_followers s) max_i64"

section \<open>One follower's stream\<close>

definition errResync :: goerr where "errResync = Err ''resync_required''"

record stream =
  fs_node :: gostring
  fs_chan :: nat
  fs_maxSent :: int

text \<open>Registration: the snapshot of the buffer and the new channel are taken in one critical section.\<close>

definition follow_open :: "gostring \<Rightarrow> int \<Rightarrow> server \<Rightarrow> (stream \<times> entry list) res \<times> server" where
  "follow_open node fromRev s =
     (if sv_startRev s > 0 \<and> fromRev < sv_startRev s then (Inl errResync, s)
      else case eb_since fromRev (sv_buf s) of
        None \<Rightarrow> (Inl errResync, s)
      | Some snapshot \<Rightarrow>
          let c = sv_nextChan s;
              maxSent = (if snapshot \<noteq> [] then Sequence (last snapshot) else wrap64 (fromRev - 1))
          in (Inr (\<lparr>fs_node = node, fs_chan = c, fs_maxSent = maxSent\<rparr>, snapshot),
              s\<lparr>sv_followers := AList.update node c (sv_followers s),
                sv_chans := (sv_chans s)(c := \<lparr>ch_queue = [], ch_closed = False\<rparr>), sv_nextChan := Suc c\<rparr>))"

definition snapshot_msgs :: "entry list \<Rightarrow> walmsg list" where
  "snapshot_msgs snapshot = map EntryToMsg snapshot @
     (if snapshot \<noteq> [] then [commit_msg (Sequence (hd snapshot)) (Sequence (last snapshot))] else [])"

text \<open>One round of the sending loop. The \<open>select\<close> takes one of the ready cases: the next message of the channel (or its
  end), the shutdown signal, or the end of the stream's context; \<open>sendErr\<close> is the outcome of the send.\<close>

datatype follow_case = TakeMsg | TakeShutdown | TakeDone
datatype follow_out = FollowSkip | FollowSent walmsg | FollowEnd "walmsg option" "goerr option" | FollowWait

definition follow_step :: "follow_case \<Rightarrow> goerr option \<Rightarrow> stream \<Rightarrow> server \<Rightarrow> follow_out \<times> stream \<times> server" where
  "follow_step pick sendErr f s =
     (let c = sv_chans s (fs_chan f)
      in case pick of
           TakeMsg \<Rightarrow>
             (case ch_queue c of
                m # q \<Rightarrow>
                  let s' = s\<lparr>sv_chans := (sv_chans s)(fs_chan f := c\<lparr>ch_queue := q\<rparr>)\<rparr>
                  in if \<not> m_Commit m \<and> m_ID m \<le> fs_maxSent f then (FollowSkip, f, s')
                     else
                       let f' = (if m_Commit m then f else f\<lparr>fs_maxSent := m_ID m\<rparr>)
                       in (case sendErr of Some e \<Rightarrow> (FollowEnd None (Some e), f', s') | None \<Rightarrow> (FollowSent m, f', s'))
              | [] \<Rightarrow>
                  if ch_closed c
                  then (FollowEnd None (Some (Err ''follower stream closed: too slow, reconnect required'')), f, s)
                  else (FollowWait, f, s))
         | TakeShutdown \<Rightarrow>
             if sv_shutdown s then (FollowEnd (Some (msg0\<lparr>m_Shutdown := True\<rparr>)) None, f, s) else (FollowWait, f, s)
         | TakeDone \<Rightarrow> (FollowEnd None (Some ErrCanceled), f, s))"

definition follow_ack :: "stream \<Rightarrow> int \<Rightarrow> server \<Rightarrow> server" where
  "follow_ack f rv s =
     (if map_of (sv_followers s) (fs_node f) \<noteq> Some (fs_chan f) then s
      else notifyACK (if rv > ack_rev (fs_node f) s
                      then s\<lparr>sv_followerAckRevs := AList.update (fs_node f) rv (sv_followerAckRevs s)\<rparr> else s))"

text \<open>The deferred clean-up when the stream ends, for whatever reason.\<close>

definition follow_close :: "stream \<Rightarrow> server \<Rightarrow> server" where
  "follow_close f s =
     (if map_of (sv_followers s) (fs_node f) = Some (fs_chan f) then
        let graceful = (fs_node f \<in> set (sv_gracefulGoodbyes s));
            s = s\<lparr>sv_followers := AList.delete (fs_node f) (sv_followers s),
                  sv_followerAckRevs := AList.delete (fs_node f) (sv_followerAckRevs s),
                  sv_gracefulGoodbyes := removeAll (fs_node f) (sv_gracefulGoodbyes s)\<rparr>
        in notifyACK (if \<not> graceful then s\<lparr>sv_disconnect := True\<rparr> else s)
      else s)"

definition GoodBye :: "gostring \<Rightarrow> server \<Rightarrow> server" where
  "GoodBye node s = s\<lparr>sv_gracefulGoodbyes := List.insert node (sv_gracefulGoodbyes s)\<rparr>"

definition BroadcastShutdown :: "server \<Rightarrow> server" where
  "BroadcastShutdown s = s\<lparr>sv_shutdown := True\<rparr>"

section \<open>Acknowledgements\<close>

lemma length_filter_all: "length (filter P xs) + length (filter (\<lambda>x. \<not> P x) xs) = length xs"
  by (induction xs) auto

text \<open>While no follower that was asked disconnects, a check that ends the wait has seen enough acknowledgements.\<close>

lemma wait_check_acked:
  assumes "wait_check target required rv s" "\<forall>f \<in> set required. connected f s" "target \<le> length required"
  shows "target \<le> length (filter (\<lambda>f. rv \<le> ack_rev f s) required)"
proof -
  have live: "filter (\<lambda>f. connected f s) required = required" using assms(2) by (simp add: filter_id_conv)
  have "length (filter (\<lambda>f. rv \<le> ack_rev f s) required) + length (filter (\<lambda>f. ack_rev f s < rv) required) = length required"
    using length_filter_all [of "\<lambda>f. rv \<le> ack_rev f s" required] by (simp add: linorder_not_le)
  then show ?thesis using assms(1,3) unfolding wait_check_def live Let_def by linarith
qed

lemma wait_loop_check: "wait_loop target required rv checks = Some None \<Longrightarrow> \<exists>(s, e) \<in> set checks. wait_check target required rv s"
  by (induction target required rv checks rule: wait_loop.induct) (auto split: if_splits)

lemma requiredFollowerACKs_le: "requiredFollowerACKs c mode \<le> c"
  by (cases mode) (auto simp: requiredFollowerACKs_def)

section \<open>Ring buffer\<close>

definition last_n :: "nat \<Rightarrow> 'a list \<Rightarrow> 'a list" where
  "last_n k xs = drop (length xs - k) xs"

lemma eb_push_last_n: "eb_entries (eb_push e b) = last_n (eb_cap b) (eb_entries b @ [e])" "eb_cap (eb_push e b) = eb_cap b"
  by (simp_all add: eb_push_def last_n_def Let_def)

lemma last_n_snoc: "last_n k (last_n k xs @ [x]) = last_n k (xs @ [x])"
proof (cases "k \<le> length xs")
  case True
  show ?thesis
  proof (cases k)
    case (Suc j)
    have "Suc (length xs - k) = length xs - j" using True Suc by simp
    then show ?thesis using True Suc by (simp add: last_n_def)
  qed (simp add: last_n_def)
qed (simp add: last_n_def)

lemma eb_push_all: "eb_entries b = last_n (eb_cap b) xs \<Longrightarrow> eb_entries (fold eb_push es b) = last_n (eb_cap b) (xs @ es) \<and> eb_cap (fold eb_push es b) = eb_cap b"
proof (induction es arbitrary: b xs)
  case (Cons e es)
  have "eb_entries (eb_push e b) = last_n (eb_cap (eb_push e b)) (xs @ [e])" using Cons.prems by (simp add: eb_push_last_n last_n_snoc)
  from Cons.IH [OF this] show ?case by (simp add: eb_push_last_n)
qed simp

text \<open>Entries in the order of their sequences.\<close>

definition ascending :: "entry list \<Rightarrow> bool" where
  "ascending es \<longleftrightarrow> sorted_wrt (<) (map Sequence es)"

lemma ascending_simps: "ascending (e # es) \<longleftrightarrow> (\<forall>x \<in> set es. Sequence e < Sequence x) \<and> ascending es"
  "ascending (xs @ ys) \<longleftrightarrow> ascending xs \<and> ascending ys \<and> (\<forall>x \<in> set xs. \<forall>y \<in> set ys. Sequence x < Sequence y)" "ascending []"
  by (auto simp: ascending_def sorted_wrt_append)

lemma since_loop_filter: "ascending es \<Longrightarrow> since_loop fromRev es = filter (\<lambda>e. fromRev \<le> Sequence e) es"
proof (induction es)
  case (Cons e es)
  show ?case
  proof (cases "fromRev \<le> Sequence e")
    case True
    then have "\<forall>x \<in> set es. fromRev \<le> Sequence x" using Cons.prems by (force simp: ascending_simps)
    then show ?thesis using True by (simp add: filter_id_conv)
  qed (use Cons in \<open>simp add: ascending_simps\<close>)
qed simp

lemma eb_since_tail:
  assumes "eb_entries b = last_n (eb_cap b) L" "ascending L" "eb_since fromRev b = Some snapshot" "0 < eb_cap b"
  shows "snapshot = filter (\<lambda>e. fromRev \<le> Sequence e) L"
proof (cases "eb_entries b")
  case Nil
  then have "drop (length L - eb_cap b) L = []" using assms(1) by (simp add: last_n_def)
  then have "length L = 0" using assms(4) unfolding drop_eq_Nil by arith
  then have "L = []" by simp
  then show ?thesis using assms(3) Nil by (simp add: eb_since_def)
next
  case (Cons e es)
  let ?k = "length L - eb_cap b"
  have s: "Sequence e \<le> fromRev" "snapshot = since_loop fromRev (e # es)" using assms(3) Cons by (auto simp: eb_since_def split: if_splits)
  have l: "L = take ?k L @ e # es" using append_take_drop_id [of ?k L] assms(1) Cons by (simp add: last_n_def)
  have a: "ascending (take ?k L)" "ascending (e # es)" "\<forall>x \<in> set (take ?k L). Sequence x < Sequence e"
    using assms(2) l ascending_simps(2) [of "take ?k L" "e # es"] by auto
  have "filter (\<lambda>x. fromRev \<le> Sequence x) (take ?k L) = []" using a(3) s(1) by (force simp: filter_empty_conv)
  then have "filter (\<lambda>x. fromRev \<le> Sequence x) L = filter (\<lambda>x. fromRev \<le> Sequence x) (e # es)"
    by (subst l) (simp only: filter_append append_Nil)
  then show ?thesis using s(2) since_loop_filter [OF a(2)] by simp
qed

section \<open>Runs of the server\<close>

lemma send_all_frame: "sv_buf (send_all m s) = sv_buf s" "sv_pending (send_all m s) = sv_pending s" "sv_startRev (send_all m s) = sv_startRev s"
proof -
  have "sv_buf (fold (send_one m) fs s) = sv_buf s \<and> sv_pending (fold (send_one m) fs s) = sv_pending s \<and> sv_startRev (fold (send_one m) fs s) = sv_startRev s" for fs
    by (induction fs arbitrary: s) (simp_all add: send_one_def Let_def)
  then show "sv_buf (send_all m s) = sv_buf s" "sv_pending (send_all m s) = sv_pending s" "sv_startRev (send_all m s) = sv_startRev s"
    by (simp_all add: send_all_def)
qed

lemma Broadcast_all: "sv_buf (fold Broadcast es s) = sv_buf s" "sv_pending (fold Broadcast es s) = sv_pending s @ es"
  "sv_startRev (fold Broadcast es s) = sv_startRev s"
  by (induction es arbitrary: s) (simp_all add: Broadcast_def send_all_frame)

lemma commit_start: "sv_startRev (BroadcastCommit startRev rv s) = sv_startRev s"
proof -
  have "sv_startRev (snd (commit_loop startRev rv es s)) = sv_startRev s" for es
    by (induction es arbitrary: s) (simp_all add: case_prod_beta)
  then show ?thesis by (simp add: BroadcastCommit_def send_all_frame case_prod_beta)
qed

lemma commit_loop_eq:
  "ascending (old @ es) \<Longrightarrow> es \<noteq> [] \<Longrightarrow> startRev = Sequence (hd es) \<Longrightarrow> rv = Sequence (last es) \<Longrightarrow>
     fst (commit_loop startRev rv (old @ es) s) = [] \<and> sv_buf (snd (commit_loop startRev rv (old @ es) s)) = fold eb_push es (sv_buf s)"
proof (induction old)
  case Nil
  have "\<forall>e \<in> set xs. startRev \<le> Sequence e \<and> Sequence e \<le> rv \<Longrightarrow>
      fst (commit_loop startRev rv xs s) = [] \<and> sv_buf (snd (commit_loop startRev rv xs s)) = fold eb_push xs (sv_buf s)" for xs
    by (induction xs arbitrary: s) auto
  moreover have "\<forall>e \<in> set es. startRev \<le> Sequence e \<and> Sequence e \<le> rv"
  proof
    fix e assume e: "e \<in> set es"
    obtain a b where s: "es = a @ [last es]" "es = hd es # b" using Nil.prems(2) by (metis append_butlast_last_id list.collapse)
    have "e = last es \<or> Sequence e < rv" "e = hd es \<or> startRev < Sequence e"
      using e s Nil.prems ascending_simps(1) [of "hd es" b] ascending_simps(2) [of a "[last es]"] by (metis Un_iff append_Nil set_ConsD set_append list.set_intros(1))+
    then show "startRev \<le> Sequence e \<and> Sequence e \<le> rv" using Nil.prems(3,4) by auto
  qed
  ultimately show ?case by simp
next
  case (Cons o' old)
  have "Sequence o' < startRev" using Cons.prems by (auto simp: ascending_simps)
  then show ?case using Cons by (simp add: ascending_simps)
qed

text \<open>The committed log \<open>L\<close> of a server in any interleaving of committed and abandoned batches with the events of the streams. Sequences of
  later batches are greater, abandoned ones included.\<close>

inductive server_run :: "nat \<Rightarrow> entry list \<Rightarrow> server \<Rightarrow> bool" for cap where
  init: "server_run cap [] (SetStartRev rv (NewServer cap))"
| batch: "server_run cap L s \<Longrightarrow> es \<noteq> [] \<Longrightarrow> ascending (L @ es) \<Longrightarrow> ascending (sv_pending s @ es) \<Longrightarrow>
    server_run cap (L @ es) (BroadcastCommit (Sequence (hd es)) (Sequence (last es)) (fold Broadcast es s))"
| abandoned: "server_run cap L s \<Longrightarrow> server_run cap L (fold Broadcast es s)"
| opened: "server_run cap L s \<Longrightarrow> server_run cap L (snd (follow_open node fromRev s))"
| stepped: "server_run cap L s \<Longrightarrow> server_run cap L (snd (snd (follow_step pick sendErr f s)))"
| acked: "server_run cap L s \<Longrightarrow> server_run cap L (follow_ack f rv s)"
| closed: "server_run cap L s \<Longrightarrow> server_run cap L (follow_close f s)"
| goodbye: "server_run cap L s \<Longrightarrow> server_run cap L (GoodBye node s)"
| shutdown: "server_run cap L s \<Longrightarrow> server_run cap L (BroadcastShutdown s)"

lemma stream_frames:
  "sv_buf (snd (follow_open node fromRev s)) = sv_buf s" "sv_buf (snd (snd (follow_step pick sendErr f s))) = sv_buf s"
  "sv_buf (follow_ack f rv s) = sv_buf s" "sv_buf (follow_close f s) = sv_buf s" "sv_buf (GoodBye node s) = sv_buf s"
  "sv_buf (BroadcastShutdown s) = sv_buf s"
  by (auto simp: follow_open_def follow_step_def follow_ack_def follow_close_def GoodBye_def BroadcastShutdown_def notifyACK_def Let_def
      split: option.split list.split follow_case.split)

lemma server_run_buf: "server_run cap L s \<Longrightarrow> eb_cap (sv_buf s) = cap \<and> eb_entries (sv_buf s) = last_n cap L \<and> ascending L"
proof (induction rule: server_run.induct)
  case (init rv)
  then show ?case by (simp add: SetStartRev_def NewServer_def newEntryBuffer_def last_n_def ascending_simps)
next
  case (batch L s es)
  let ?s = "fold Broadcast es s"
  have c: "fst (commit_loop (Sequence (hd es)) (Sequence (last es)) (sv_pending s @ es) ?s) = [] \<and>
      sv_buf (snd (commit_loop (Sequence (hd es)) (Sequence (last es)) (sv_pending s @ es) ?s)) = fold eb_push es (sv_buf ?s)"
    by (rule commit_loop_eq) (use batch in simp_all)
  have "sv_buf (BroadcastCommit (Sequence (hd es)) (Sequence (last es)) ?s) = fold eb_push es (sv_buf s)"
    using c by (cases "commit_loop (Sequence (hd es)) (Sequence (last es)) (sv_pending s @ es) ?s")
      (simp add: BroadcastCommit_def Broadcast_all send_all_frame)
  moreover have "eb_entries (fold eb_push es (sv_buf s)) = last_n cap (L @ es) \<and> eb_cap (fold eb_push es (sv_buf s)) = cap"
    using eb_push_all [of "sv_buf s" L es] batch by simp
  ultimately show ?case using batch.hyps by simp
qed (simp_all add: stream_frames Broadcast_all)

section \<open>Properties\<close>

text \<open>C31: A follower that is admitted gets everything it misses: in every run of the leader's server, the snapshot sent to a
  follower that asks from a sequence on consists of exactly the committed entries from that sequence on, in order, and the
  ring buffer never exceeds its capacity; abandoned batches never show up.\<close>

theorem catch_up_snapshot:
  assumes "server_run cap L s" "0 < cap"
  shows "length (eb_entries (sv_buf s)) \<le> cap \<and>
    (case fst (follow_open node fromRev s) of
       Inl err \<Rightarrow> err = errResync
     | Inr (f, snapshot) \<Rightarrow> snapshot = filter (\<lambda>e. fromRev \<le> Sequence e) L)"
proof -
  note b = server_run_buf [OF assms(1)]
  have "length (eb_entries (sv_buf s)) \<le> cap" using b by (simp add: last_n_def)
  moreover have "snapshot = filter (\<lambda>e. fromRev \<le> Sequence e) L" if "eb_since fromRev (sv_buf s) = Some snapshot" for snapshot
    using eb_since_tail [of "sv_buf s" L] b that assms(2) by simp
  ultimately show ?thesis by (auto simp: follow_open_def Let_def split: option.split)
qed

theorem catch_up_snapshot_witness:
  "\<exists>s f. server_run 2 [entry0\<lparr>e_ID := 1\<rparr>, entry0\<lparr>e_ID := 2\<rparr>, entry0\<lparr>e_ID := 3\<rparr>] s \<and>
     fst (follow_open [] 3 s) = Inr (f, [entry0\<lparr>e_ID := 3\<rparr>]) \<and> fst (follow_open [] 1 s) = Inl errResync"
proof -
  let ?L = "[entry0\<lparr>e_ID := 1\<rparr>, entry0\<lparr>e_ID := 2\<rparr>, entry0\<lparr>e_ID := 3\<rparr>]"
  let ?s = "BroadcastCommit (Sequence (hd ?L)) (Sequence (last ?L)) (fold Broadcast ?L (SetStartRev 1 (NewServer 2)))"
  have "server_run 2 ([] @ ?L) ?s"
    by (rule server_run.batch [OF server_run.init]) (simp_all add: ascending_simps Sequence_def entry0_def SetStartRev_def NewServer_def)
  then have r: "server_run 2 ?L ?s" by simp
  have b: "eb_entries (sv_buf ?s) = [entry0\<lparr>e_ID := 2\<rparr>, entry0\<lparr>e_ID := 3\<rparr>]" using server_run_buf [OF r] by (simp add: last_n_def)
  have st: "sv_startRev ?s = 1" unfolding commit_start Broadcast_all by (simp add: SetStartRev_def)
  obtain f s' where o: "follow_open [] 3 ?s = (Inr (f, [entry0\<lparr>e_ID := 3\<rparr>]), s')" "follow_open [] 1 ?s = (Inl errResync, ?s)"
    using b st by (simp add: follow_open_def eb_since_def Sequence_def entry0_def Let_def)
  from catch_up_snapshot [OF r, where node = "[]" and fromRev = 3] o r show ?thesis by (intro exI [of _ ?s] exI [of _ f]) simp
qed



end
