(* ===== verification/Peer_Client.thy ===== *)
theory Peer_Client
  imports Peer_Server
begin

text \<open>
  The follower's side of replication, \<open>src/internal/peer/client.go\<close>.

  Received entries are staged; a commit mark makes a run of them durable and visible. The two callbacks that append a
  committed batch to the log and apply it are parameters of the client over a state \<open>'n\<close> of the follower; theory \<open>Follower\<close> has the
  ones that \<open>followLoop\<close> passes. A stream is the list of messages it delivers and the error that ends it.
\<close>

section \<open>Processing messages\<close>

datatype 'a outcome = Continue 'a | Return int goerr

type_synonym 'n callback = "entry list \<Rightarrow> 'n \<Rightarrow> goerr option \<times> 'n"

definition take_upto :: "int \<Rightarrow> entry list \<Rightarrow> entry list" where
  "take_upto rv staged = takeWhile (\<lambda>e. Sequence e \<le> rv) staged"

definition drop_before :: "int \<Rightarrow> entry list \<Rightarrow> entry list" where
  "drop_before rv staged = dropWhile (\<lambda>e. Sequence e < rv) staged"

fun run_from :: "int \<Rightarrow> entry list \<Rightarrow> bool" where
  "run_from rv [] = True"
| "run_from rv (e # es) = (Sequence e = rv \<and> run_from (wrap64 (rv + 1)) es)"

text \<open>One message; \<open>ackErr\<close> is the outcome of sending the acknowledgement. The acknowledged sequences are kept.\<close>

definition follow_msg :: "'n callback \<Rightarrow> 'n callback \<Rightarrow> goerr option \<Rightarrow> walmsg \<Rightarrow> entry list \<times> int \<Rightarrow> 'n \<times> int list
    \<Rightarrow> (entry list \<times> int) outcome \<times> 'n \<times> int list" where
  "follow_msg walFn applyFn ackErr m st na = (case st of (staged, fromRev) \<Rightarrow> (case na of (n, acks) \<Rightarrow>
     if \<not> m_Commit m then (Continue (staged @ [MsgToEntry m], fromRev), n, acks)
     else
       let startRev = (if m_CommitStartRevision m = 0 then m_CommitRevision m else m_CommitStartRevision m)
       in if m_CommitRevision m < fromRev then (Continue (staged, fromRev), n, acks)
          else
            let staged = drop_before startRev staged;
                batch = take_upto (m_CommitRevision m) staged
            in if batch = [] \<or> Sequence (hd staged) \<noteq> startRev \<or> Sequence (last batch) \<noteq> m_CommitRevision m
               then (Return fromRev errResync, n, acks)
               else if \<not> run_from startRev batch then (Return fromRev errResync, n, acks)
               else (case walFn batch n of
                       (Some err, n) \<Rightarrow> (Return startRev err, n, acks)
                     | (None, n) \<Rightarrow>
                         let lastSeq = Sequence (last batch);
                             fromRev = (if wrap64 (lastSeq + 1) > fromRev then wrap64 (lastSeq + 1) else fromRev)
                         in (case ackErr of
                               Some err \<Rightarrow> (Return fromRev err, n, acks)
                             | None \<Rightarrow>
                                 (case applyFn batch n of
                                    (Some err, n) \<Rightarrow> (Return fromRev err, n, acks @ [lastSeq])
                                  | (None, n) \<Rightarrow> (Continue (drop (length batch) staged, fromRev), n, acks @ [lastSeq]))))))"

text \<open>A stream: its messages with the outcome of the acknowledgements, then the error that ended it.\<close>

fun follow_msgs :: "'n callback \<Rightarrow> 'n callback \<Rightarrow> (walmsg \<times> goerr option) list \<Rightarrow> goerr \<Rightarrow> entry list \<times> int \<Rightarrow> 'n \<times> int list
    \<Rightarrow> int \<times> goerr \<times> 'n \<times> int list" where
  "follow_msgs walFn applyFn [] endErr st na = (snd st, endErr, na)"
| "follow_msgs walFn applyFn ((m, ackErr) # ms) endErr st na =
     (case follow_msg walFn applyFn ackErr m st na of
        (Return rv err, na) \<Rightarrow> (rv, err, na)
      | (Continue st, na) \<Rightarrow> follow_msgs walFn applyFn ms endErr st na)"

definition errLeaderShutdown :: goerr where "errLeaderShutdown = Err ''leader_shutdown''"
definition errLeaderUnreachable :: goerr where "errLeaderUnreachable = Err ''leader_unreachable''"

text \<open>One streaming attempt. The connection fails, or delivers the messages \<open>ms\<close> and then ends with \<open>endErr\<close>. The receiver
  hands the messages before a shutdown message to the loop; the loop takes \<open>taken\<close> of them before its \<open>select\<close>
  takes the receiver's error, since both may be ready.\<close>

definition recv_msgs :: "(walmsg \<times> goerr option) list \<Rightarrow> (walmsg \<times> goerr option) list" where
  "recv_msgs ms = takeWhile (\<lambda>(m, _). \<not> m_Shutdown m) ms"

definition recv_err :: "(walmsg \<times> goerr option) list \<Rightarrow> goerr \<Rightarrow> goerr" where
  "recv_err ms endErr = (if list_ex (\<lambda>(m, _). m_Shutdown m) ms then errLeaderShutdown else endErr)"

record attempt =
  at_conn :: "(walmsg \<times> goerr option) list res"
  at_end :: goerr
  at_taken :: nat
  at_done :: bool
  at_pauseDone :: bool

definition followOnce :: "'n callback \<Rightarrow> 'n callback \<Rightarrow> attempt \<Rightarrow> int \<Rightarrow> 'n \<Rightarrow> int \<times> goerr \<times> 'n \<times> int list" where
  "followOnce walFn applyFn a fromRev n = (case at_conn a of
       Inl err \<Rightarrow> (fromRev, err, n, [])
     | Inr ms \<Rightarrow> follow_msgs walFn applyFn (take (at_taken a) (recv_msgs ms)) (recv_err ms (at_end a)) ([], fromRev) (n, []))"

section \<open>Retries\<close>

text \<open>The loop of \<open>Follow\<close> over its attempts; \<open>at_done\<close> and \<open>at_pauseDone\<close> say whether the context is done after the attempt
  and during the pause. The result is the error it returns, \<open>None\<close> while it goes on.\<close>

fun client_Follow :: "'n callback \<Rightarrow> 'n callback \<Rightarrow> nat \<Rightarrow> nat \<Rightarrow> int \<Rightarrow> attempt list \<Rightarrow> 'n \<Rightarrow> goerr option \<times> 'n" where
  "client_Follow walFn applyFn maxRetries failures fromRev [] n = (None, n)"
| "client_Follow walFn applyFn maxRetries failures fromRev (a # as) n =
     (case followOnce walFn applyFn a fromRev n of (nextSeq, err, n, acks) \<Rightarrow>
        if at_done a then (Some ErrCanceled, n)
        else if err = errResync then (Some err, n)
        else if err = errLeaderShutdown then (Some err, n)
        else
          let failures = (if nextSeq > fromRev then 0 else Suc failures)
          in if maxRetries > 0 \<and> failures \<ge> maxRetries then (Some errLeaderUnreachable, n)
             else if at_pauseDone a then (Some ErrCanceled, n)
             else client_Follow walFn applyFn maxRetries failures nextSeq as n)"

section \<open>What a stream makes the follower do\<close>

text \<open>The entries of a contiguous run starting at \<open>rv\<close>.\<close>

lemma run_from_append: "run_from rv (xs @ ys) \<longleftrightarrow> run_from rv xs \<and> run_from ((if xs = [] then rv else wrap64 (Sequence (last xs) + 1))) ys"
proof (induction xs arbitrary: rv)
  case (Cons x xs)
  then show ?case by (cases xs) auto
qed simp

text \<open>Whatever arrives, the callbacks are only called on runs without a gap, taken from what was received.\<close>

definition received :: "walmsg list \<Rightarrow> entry set" where
  "received ms = MsgToEntry ` {m \<in> set ms. \<not> m_Commit m}"

lemma follow_msg_batch:
  assumes "follow_msg walFn applyFn ackErr m (staged, fromRev) (n, acks) = (out, n', acks')"
  obtains (quiet) "n' = n" "acks' = acks" "\<And>st fr. out = Continue (st, fr) \<Longrightarrow> set st \<subseteq> set staged \<union> received [m]"
  | (batch) b r1 n1 where "b \<noteq> []" "run_from (Sequence (hd b)) b" "set b \<subseteq> set staged" "walFn b n = (r1, n1)"
      "(r1 \<noteq> None \<and> n' = n1 \<and> acks' = acks \<or> r1 = None \<and> ackErr \<noteq> None \<and> n' = n1 \<and> acks' = acks \<or>
        r1 = None \<and> ackErr = None \<and> n' = snd (applyFn b n1) \<and> acks' = acks @ [Sequence (last b)])"
      "\<And>st fr. out = Continue (st, fr) \<Longrightarrow> set st \<subseteq> set staged"
      "\<And>st fr. out = Continue (st, fr) \<Longrightarrow> r1 = None \<and> ackErr = None \<and> fst (applyFn b n1) = None"
proof (cases "m_Commit m")
  case False
  then show ?thesis using assms by (intro quiet) (auto simp: follow_msg_def received_def)
next
  case True
  define s where "s = (if m_CommitStartRevision m = 0 then m_CommitRevision m else m_CommitStartRevision m)"
  define st where "st = drop_before s staged"
  define b where "b = take_upto (m_CommitRevision m) st"
  have st: "set st \<subseteq> set staged" by (auto simp: st_def drop_before_def dest: set_dropWhileD)
  have b: "set b \<subseteq> set staged" using st by (auto simp: b_def take_upto_def dest: set_takeWhileD)
  note f = assms [unfolded follow_msg_def prod.case, folded s_def, unfolded Let_def, folded s_def, folded st_def, folded b_def]
  show ?thesis
  proof (cases "m_CommitRevision m < fromRev \<or> (b = [] \<or> Sequence (hd st) \<noteq> s \<or> Sequence (last b) \<noteq> m_CommitRevision m) \<or> \<not> run_from s b")
    case True
    then show ?thesis using f \<open>m_Commit m\<close> by (intro quiet) (auto split: if_splits)
  next
    case False
    have h: "hd b = hd st" using False by (cases st) (auto simp: b_def take_upto_def split: if_splits)
    obtain r1 n1 where w: "walFn b n = (r1, n1)" by (cases "walFn b n")
    obtain r2 n2 where a: "applyFn b n1 = (r2, n2)" by (cases "applyFn b n1")
    show ?thesis
    proof (rule batch [OF _ _ b w])
      show "b \<noteq> []" "run_from (Sequence (hd b)) b" using False h by simp_all
      show "r1 \<noteq> None \<and> n' = n1 \<and> acks' = acks \<or> r1 = None \<and> ackErr \<noteq> None \<and> n' = n1 \<and> acks' = acks \<or>
        r1 = None \<and> ackErr = None \<and> n' = snd (applyFn b n1) \<and> acks' = acks @ [Sequence (last b)]"
        using f \<open>m_Commit m\<close> False w a by (cases r1; cases ackErr; cases r2) auto
      show "set x \<subseteq> set staged" if "out = Continue (x, fr)" for x fr
        using f \<open>m_Commit m\<close> False w a that st by (cases r1; cases ackErr; cases r2) (auto dest: in_set_dropD)
      show "r1 = None \<and> ackErr = None \<and> fst (applyFn b n1) = None" if "out = Continue (x, fr)" for x fr
        using f \<open>m_Commit m\<close> False w a that by (cases r1; cases ackErr; cases r2) auto
    qed
  qed
qed

lemma follow_msgs_inv:
  assumes step: "\<And>b n acks. b \<noteq> [] \<Longrightarrow> run_from (Sequence (hd b)) b \<Longrightarrow> set b \<subseteq> R \<Longrightarrow> I n acks \<Longrightarrow>
      I (snd (walFn b n)) acks \<and> (fst (walFn b n) = None \<longrightarrow> I (snd (applyFn b (snd (walFn b n)))) (acks @ [Sequence (last b)]))"
    and "follow_msgs walFn applyFn ms endErr (staged, fromRev) (n, acks) = (rv, err, n', acks')"
    and "received (map fst ms) \<subseteq> R" "set staged \<subseteq> R" "I n acks"
  shows "I n' acks'"
  using assms(2-5)
proof (induction ms arbitrary: staged fromRev n acks)
  case (Cons x ms)
  obtain m ackErr where x: "x = (m, ackErr)" by (cases x)
  obtain out n1 acks1 where o: "follow_msg walFn applyFn ackErr m (staged, fromRev) (n, acks) = (out, n1, acks1)"
    by (cases "follow_msg walFn applyFn ackErr m (staged, fromRev) (n, acks)")
  have r: "received [m] \<subseteq> R" "received (map fst ms) \<subseteq> R" using Cons.prems(2) x by (auto simp: received_def)
  have i: "I n1 acks1 \<and> (\<forall>st fr. out = Continue (st, fr) \<longrightarrow> set st \<subseteq> R)"
  proof (cases rule: follow_msg_batch [OF o])
    case 1
    then show ?thesis using Cons.prems(3,4) r(1) by blast
  next
    case (2 b r1 m1)
    have s: "I (snd (walFn b n)) acks \<and> (fst (walFn b n) = None \<longrightarrow> I (snd (applyFn b (snd (walFn b n)))) (acks @ [Sequence (last b)]))"
      by (rule step) (use 2 Cons.prems(3,4) in auto)
    then have "I n1 acks1" using 2(4,5) by auto
    then show ?thesis using 2(6) Cons.prems(3) by blast
  qed
  show ?case
  proof (cases out)
    case (Return r e)
    then show ?thesis using Cons.prems(1) o x i by simp
  next
    case (Continue st)
    obtain st' fr where st: "st = (st', fr)" by (cases st)
    show ?thesis by (rule Cons.IH) (use Cons.prems(1) o x i Continue st r(2) in auto)
  qed
qed simp

definition attempt_msgs :: "attempt \<Rightarrow> walmsg list" where
  "attempt_msgs a = (case at_conn a of Inl _ \<Rightarrow> [] | Inr ms \<Rightarrow> map fst ms)"

lemma followOnce_inv:
  assumes step: "\<And>b n acks. b \<noteq> [] \<Longrightarrow> run_from (Sequence (hd b)) b \<Longrightarrow> set b \<subseteq> R \<Longrightarrow> I n acks \<Longrightarrow>
      I (snd (walFn b n)) acks \<and> (fst (walFn b n) = None \<longrightarrow> I (snd (applyFn b (snd (walFn b n)))) (acks @ [Sequence (last b)]))"
    and "followOnce walFn applyFn a fromRev n = (rv, err, n', acks')" "received (filter (\<lambda>m. \<not> m_Shutdown m) (attempt_msgs a)) \<subseteq> R" "I n []"
  shows "I n' acks'"
proof (cases "at_conn a")
  case (Inr ms)
  have "m_Shutdown m = False" if "(m, e) \<in> set (take (at_taken a) (recv_msgs ms))" for m e
    using set_takeWhileD [OF in_set_takeD [OF that, unfolded recv_msgs_def]] by simp
  moreover have "set (take (at_taken a) (recv_msgs ms)) \<subseteq> set ms"
    unfolding recv_msgs_def by (meson in_set_takeD set_takeWhileD subsetI)
  ultimately have "set (map fst (take (at_taken a) (recv_msgs ms))) \<subseteq> set (filter (\<lambda>m. \<not> m_Shutdown m) (attempt_msgs a))"
    using Inr by (auto simp: attempt_msgs_def)
  then have "received (map fst (take (at_taken a) (recv_msgs ms))) \<subseteq> received (filter (\<lambda>m. \<not> m_Shutdown m) (attempt_msgs a))"
    unfolding received_def by blast
  then have r: "received (map fst (take (at_taken a) (recv_msgs ms))) \<subseteq> R" using assms(3) by blast
  have "follow_msgs walFn applyFn (take (at_taken a) (recv_msgs ms)) (recv_err ms (at_end a)) ([], fromRev) (n, []) = (rv, err, n', acks')"
    using assms(2) Inr by (simp add: followOnce_def)
  from follow_msgs_inv [of R I walFn applyFn, OF step this r] assms(4) show ?thesis by simp
qed (use assms in \<open>auto simp: followOnce_def\<close>)

lemma client_Follow_inv:
  assumes step: "\<And>b n acks. b \<noteq> [] \<Longrightarrow> run_from (Sequence (hd b)) b \<Longrightarrow> set b \<subseteq> R \<Longrightarrow> I n acks \<Longrightarrow>
      I (snd (walFn b n)) acks \<and> (fst (walFn b n) = None \<longrightarrow> I (snd (applyFn b (snd (walFn b n)))) (acks @ [Sequence (last b)]))"
    and forget: "\<And>n acks. I n acks \<Longrightarrow> I n []"
    and "client_Follow walFn applyFn maxRetries failures fromRev as n = (r, n')"
    and "\<forall>a \<in> set as. received (filter (\<lambda>m. \<not> m_Shutdown m) (attempt_msgs a)) \<subseteq> R" "I n []"
  shows "I n' []"
  using assms(3-5)
proof (induction as arbitrary: failures fromRev n)
  case (Cons a as)
  obtain rv err n1 acks1 where o: "followOnce walFn applyFn a fromRev n = (rv, err, n1, acks1)" by (cases "followOnce walFn applyFn a fromRev n")
  have "I n1 acks1" by (rule followOnce_inv [of R I, OF step o]) (use Cons.prems in auto)
  then have i: "I n1 []" by (rule forget)
  have rest: "I n' []" if "client_Follow walFn applyFn maxRetries f rv as n1 = (r, n')" for f
    by (rule Cons.IH [OF that _ i]) (use Cons.prems in simp)
  show ?case using Cons.prems(1) o i rest by (auto simp: Let_def split: if_splits)
qed simp

text \<open>The messages of one batch, and a stream of batches.\<close>

definition batch_msgs :: "entry list \<Rightarrow> walmsg list" where
  "batch_msgs es = map EntryToMsg es @ [commit_msg (Sequence (hd es)) (Sequence (last es))]"

fun contig :: "int \<Rightarrow> entry list \<Rightarrow> bool" where
  "contig rv [] = True"
| "contig rv (e # es) = (Sequence e = rv \<and> contig (rv + 1) es)"

lemma contig_append: "contig rv (xs @ ys) \<longleftrightarrow> contig rv xs \<and> contig (rv + int (length xs)) ys"
  by (induction xs arbitrary: rv) (auto simp: algebra_simps)

lemma contig_bounds: "contig rv es \<Longrightarrow> e \<in> set es \<Longrightarrow> rv \<le> Sequence e \<and> Sequence e < rv + int (length es)"
  by (induction es arbitrary: rv) fastforce+

lemma contig_last: "contig rv es \<Longrightarrow> es \<noteq> [] \<Longrightarrow> Sequence (last es) = rv + int (length es) - 1"
proof (induction es arbitrary: rv)
  case (Cons e es)
  then show ?case by (cases es) auto
qed simp

lemma contig_nth: "contig rv es \<Longrightarrow> i < length es \<Longrightarrow> Sequence (es ! i) = rv + int i"
proof (induction es arbitrary: rv i)
  case (Cons e es)
  then show ?case by (cases i) auto
qed simp

lemma run_from_contig: "0 \<le> rv \<Longrightarrow> rv + int (length es) < 2 ^ 63 \<Longrightarrow> run_from rv es = contig rv es"
proof (induction es arbitrary: rv)
  case (Cons e es)
  then show ?case by (simp add: wrap64_pos)
qed simp

lemma stage_entries:
  "follow_msgs walFn applyFn (map (\<lambda>m. (m, None)) (map EntryToMsg es @ ms)) endErr (st, fr) na =
   follow_msgs walFn applyFn (map (\<lambda>m. (m, None)) ms) endErr (st @ map (MsgToEntry \<circ> EntryToMsg) es, fr) na"
  by (induction es arbitrary: st) (simp_all add: follow_msg_def EntryToMsg_def msg0_def case_prod_beta)

lemma follow_batch:
  assumes "es \<noteq> []" "contig F es" "0 < F" "F + int (length es) < 2 ^ 63" "\<forall>e \<in> set es. e_ID e = Sequence e"
    and "fst (walFn es n) = None" "fst (applyFn es (snd (walFn es n))) = None"
  shows "follow_msgs walFn applyFn (map (\<lambda>m. (m, None)) (batch_msgs es @ ms)) endErr ([], F) (n, acks) =
    follow_msgs walFn applyFn (map (\<lambda>m. (m, None)) ms) endErr ([], F + int (length es))
      (snd (applyFn es (snd (walFn es n))), acks @ [Sequence (last es)])"
proof -
  have norm: "map (MsgToEntry \<circ> EntryToMsg) es = es"
    using assms(5) by (intro map_idI) (simp add: MsgToEntry_def EntryToMsg_def msg0_def)
  have l: "Sequence (last es) = F + int (length es) - 1" "Sequence (hd es) = F"
    using contig_last [OF assms(2,1)] assms(1,2) by (auto simp: neq_Nil_conv)
  have d: "drop_before F es = es" using assms(1,2) by (cases es) (simp_all add: drop_before_def)
  have t: "take_upto (F + int (length es) - 1) es = es"
    unfolding take_upto_def using contig_bounds [OF assms(2)] by (intro takeWhile_eq_all_conv [THEN iffD2]) force
  have r: "run_from F es" using run_from_contig assms(2-4) by simp
  have w: "wrap64 (F + int (length es)) = F + int (length es)" using assms(3,4) by (intro wrap64_pos) simp_all
  obtain n1 where n1: "walFn es n = (None, n1)" using assms(6) by (cases "walFn es n") simp
  obtain n2 where n2: "applyFn es n1 = (None, n2)" using assms(7) n1 by (cases "applyFn es n1") simp
  have ne: "0 < length es" using assms(1) by simp
  have f: "follow_msg walFn applyFn None (commit_msg F (F + int (length es) - 1)) (es, F) (n, acks) =
      (Continue ([], F + int (length es)), n2, acks @ [F + int (length es) - 1])"
    using assms(1,3) ne l n1 n2 d t r w by (simp add: follow_msg_def commit_msg_def msg0_def Let_def)
  show ?thesis unfolding batch_msgs_def append_assoc stage_entries norm l using f n1 n2 l by simp
qed

section \<open>Properties\<close>

text \<open>C23: On a stream without faults a follower keeps up: when the leader sends batches that continue the follower's log without a gap,
  the follower appends and applies each batch once and in order, acknowledges the last sequence of each
  batch, and ends with everything applied.\<close>

theorem stream_complete:
  assumes "contig F (concat bs)" "\<forall>b \<in> set bs. b \<noteq> []" "0 < F" "F + int (length (concat bs)) < 2 ^ 63"
    and "\<forall>e \<in> set (concat bs). e_ID e = Sequence e"
    and "\<forall>b \<in> set bs. \<forall>n. fst (walFn b n) = None \<and> fst (applyFn b n) = None"
  shows "follow_msgs walFn applyFn (map (\<lambda>m. (m, None)) (concat (map batch_msgs bs))) endErr ([], F) (n, acks) =
    (F + int (length (concat bs)), endErr, fold (\<lambda>b n. snd (applyFn b (snd (walFn b n)))) bs n, acks @ map (\<lambda>b. Sequence (last b)) bs)"
  using assms
proof (induction bs arbitrary: F n acks)
  case (Cons b bs)
  have "follow_msgs walFn applyFn (map (\<lambda>m. (m, None)) (batch_msgs b @ concat (map batch_msgs bs))) endErr ([], F) (n, acks) =
      follow_msgs walFn applyFn (map (\<lambda>m. (m, None)) (concat (map batch_msgs bs))) endErr ([], F + int (length b))
        (snd (applyFn b (snd (walFn b n))), acks @ [Sequence (last b)])"
    by (rule follow_batch) (use Cons.prems in \<open>auto simp: contig_append\<close>)
  moreover have "F + int (length b) + int (length (concat bs)) = F + int (length (concat (b # bs)))" by simp
  ultimately show ?case using Cons.IH [of "F + int (length b)"] Cons.prems by (simp add: contig_append algebra_simps)
qed simp

theorem stream_complete_witness:
  "follow_msgs (\<lambda>b log. (None, log @ b)) (\<lambda>b log. (None, log))
     (map (\<lambda>m. (m, None)) (concat (map batch_msgs [[entry0\<lparr>e_ID := 1\<rparr>, entry0\<lparr>e_ID := 2\<rparr>], [entry0\<lparr>e_ID := 3\<rparr>]]))) IoEOF ([], 1) ([], []) =
   (4, IoEOF, [entry0\<lparr>e_ID := 1\<rparr>, entry0\<lparr>e_ID := 2\<rparr>, entry0\<lparr>e_ID := 3\<rparr>], [2, 3])"
  using stream_complete [of 1 "[[entry0\<lparr>e_ID := 1\<rparr>, entry0\<lparr>e_ID := 2\<rparr>], [entry0\<lparr>e_ID := 3\<rparr>]]" "\<lambda>b log. (None, log @ b)" "\<lambda>b log. (None, log)" IoEOF "[]" "[]"]
  by (simp add: Sequence_def entry0_def)



end
