(* ===== verification/Node_State.thy ===== *)
theory Node_State
  imports Store_Watch Peer_Client
begin

text \<open>
  The node, \<open>src/node.go\<close>: its state, the roles, the read operations that every role serves from its
  own store, the synchronisation of a read with the leader, and the messages by which a follower
  forwards a write (\<open>src/internal/peer/peer.go\<close>, the conversions of \<open>src/writes.go\<close>).

  The write-ahead log of a node is any implementation of the \<open>WALWriter\<close> interface, of type \<open>'w\<close>. A remote
  procedure call is a function from the request to its outcome. A Go error that wraps another is the wrapped error,
  as \<open>errors.Is\<close> sees it; results that Go returns next to an error are dropped.
\<close>

section \<open>Transactions and forwarded requests\<close>

definition TxnCondMod :: byte where "TxnCondMod = 0"
definition TxnCondVersion :: byte where "TxnCondVersion = 1"
definition TxnCondCreate :: byte where "TxnCondCreate = 2"
definition TxnCondValue :: byte where "TxnCondValue = 3"
definition TxnCondLease :: byte where "TxnCondLease = 4"
definition TxnCondEqual :: byte where "TxnCondEqual = 0"
definition TxnCondNotEqual :: byte where "TxnCondNotEqual = 1"
definition TxnCondGreater :: byte where "TxnCondGreater = 2"
definition TxnCondLess :: byte where "TxnCondLess = 3"
definition TxnPut :: byte where "TxnPut = 0"
definition TxnDelete :: byte where "TxnDelete = 1"

lemmas txn_defs = TxnCondMod_def TxnCondVersion_def TxnCondCreate_def TxnCondValue_def TxnCondLease_def
  TxnCondEqual_def TxnCondNotEqual_def TxnCondGreater_def TxnCondLess_def TxnPut_def TxnDelete_def

record txncondition =
  tc_Key :: gostring
  tc_Target :: byte
  tc_Result :: byte
  tc_ModRevision :: int
  tc_CreateRevision :: int
  tc_Version :: int
  tc_Value :: bytes
  tc_Lease :: int

record txnop =
  to_Type :: byte
  to_Key :: gostring
  to_Value :: bytes
  to_Lease :: int

record txnrequest =
  tr_Conditions :: "txncondition list"
  tr_Success :: "txnop list"
  tr_Failure :: "txnop list"

record txnresponse =
  tp_Succeeded :: bool
  tp_Revision :: int
  tp_DeletedKeys :: "gostring list"

record kvmsg =
  km_Key :: gostring
  km_Value :: bytes
  km_Revision :: int
  km_CreateRevision :: int
  km_PrevRevision :: int
  km_Version :: int
  km_Lease :: int

record txncondmsg =
  cm_Key :: gostring
  cm_Target :: byte
  cm_Result :: byte
  cm_ModRevision :: int
  cm_CreateRevision :: int
  cm_Version :: int
  cm_Value :: bytes
  cm_Lease :: int

record txnopmsg =
  om_Type :: byte
  om_Key :: gostring
  om_Value :: bytes
  om_Lease :: int

record txnreqmsg =
  rm_Conditions :: "txncondmsg list"
  rm_Success :: "txnopmsg list"
  rm_Failure :: "txnopmsg list"

datatype forwardop = ForwardPut | ForwardCreate | ForwardUpdate | ForwardDeleteIfRevision | ForwardCompact
  | ForwardGetRevision | ForwardTxn | ForwardUnknown byte

record forwardrequest =
  fr_Op :: forwardop
  fr_Key :: gostring
  fr_Value :: bytes
  fr_Revision :: int
  fr_Lease :: int
  fr_TxnReq :: "txnreqmsg option"

record forwardresponse =
  fp_Revision :: int
  fp_OldKV :: "kvmsg option"
  fp_Succeeded :: bool
  fp_ErrCode :: gostring
  fp_ErrMsg :: string
  fp_DeletedKeys :: "gostring list"

definition fwd0 :: "forwardop \<Rightarrow> forwardrequest" where
  "fwd0 op = \<lparr>fr_Op = op, fr_Key = [], fr_Value = [], fr_Revision = 0, fr_Lease = 0, fr_TxnReq = None\<rparr>"

definition fwdresp0 :: forwardresponse where
  "fwdresp0 = \<lparr>fp_Revision = 0, fp_OldKV = None, fp_Succeeded = False, fp_ErrCode = [], fp_ErrMsg = [], fp_DeletedKeys = []\<rparr>"

text \<open>Errors on the wire. The message of an error stands for the error; one that travelled as a message
  is a new error with that text.\<close>

definition err_text :: "goerr \<Rightarrow> string" where
  "err_text err = (case err of
       Err m \<Rightarrow> m | IoEOF \<Rightarrow> ''EOF'' | ErrNotExist \<Rightarrow> ''file does not exist'' | ErrNotFound \<Rightarrow> ''object: not found''
     | ErrPreconditionFailed \<Rightarrow> ''object: precondition failed'' | ErrClosed \<Rightarrow> ''t4: node is closed''
     | ErrCompacted \<Rightarrow> ''required revision has been compacted'' | ErrFutureRevision \<Rightarrow> ''required revision is a future revision''
     | ErrKeyExists \<Rightarrow> ''t4: key already exists'' | ErrNoLeader \<Rightarrow> ''t4: no leader'' | ErrCanceled \<Rightarrow> ''context canceled''
     | ErrIO _ \<Rightarrow> ''input/output error'')"

definition encodeErr :: "goerr option \<Rightarrow> gostring \<times> string" where
  "encodeErr err = (case err of
       None \<Rightarrow> ([], [])
     | Some e \<Rightarrow> if e = ErrKeyExists then (str ''key_exists'', []) else (str ''error'', err_text e))"

definition decodeErr :: "gostring \<Rightarrow> string \<Rightarrow> goerr option" where
  "decodeErr code msg = (if code = [] then None else if code = str ''key_exists'' then Some ErrKeyExists else Some (Err msg))"

definition kvToMsg :: "keyvalue option \<Rightarrow> kvmsg option" where
  "kvToMsg kv = (case kv of
       None \<Rightarrow> None
     | Some kv \<Rightarrow> Some \<lparr>km_Key = kv_Key kv, km_Value = kv_Value kv, km_Revision = kv_Revision kv,
         km_CreateRevision = kv_CreateRevision kv, km_PrevRevision = kv_PrevRevision kv, km_Version = kv_Version kv,
         km_Lease = kv_Lease kv\<rparr>)"

definition msgToKV :: "kvmsg option \<Rightarrow> keyvalue option" where
  "msgToKV m = (case m of
       None \<Rightarrow> None
     | Some m \<Rightarrow> Some \<lparr>kv_Key = km_Key m, kv_Value = km_Value m, kv_Revision = km_Revision m,
         kv_CreateRevision = km_CreateRevision m, kv_PrevRevision = km_PrevRevision m, kv_Version = km_Version m,
         kv_Lease = km_Lease m\<rparr>)"

definition txnOpsToMsg :: "txnop list \<Rightarrow> txnopmsg list" where
  "txnOpsToMsg ops = map (\<lambda>op. \<lparr>om_Type = to_Type op, om_Key = to_Key op, om_Value = to_Value op, om_Lease = to_Lease op\<rparr>) ops"

definition msgToTxnOps :: "txnopmsg list \<Rightarrow> txnop list" where
  "msgToTxnOps msgs = map (\<lambda>m. \<lparr>to_Type = om_Type m, to_Key = om_Key m, to_Value = om_Value m, to_Lease = om_Lease m\<rparr>) msgs"

definition txnToForwardRequest :: "txnrequest \<Rightarrow> forwardrequest" where
  "txnToForwardRequest req =
     (let conds = map (\<lambda>c. \<lparr>cm_Key = tc_Key c, cm_Target = tc_Target c, cm_Result = tc_Result c,
            cm_ModRevision = tc_ModRevision c, cm_CreateRevision = tc_CreateRevision c, cm_Version = tc_Version c,
            cm_Value = tc_Value c, cm_Lease = tc_Lease c\<rparr>) (tr_Conditions req)
      in (fwd0 ForwardTxn)\<lparr>fr_TxnReq := Some \<lparr>rm_Conditions = conds, rm_Success = txnOpsToMsg (tr_Success req),
            rm_Failure = txnOpsToMsg (tr_Failure req)\<rparr>\<rparr>)"

definition forwardMsgToTxnRequest :: "txnreqmsg \<Rightarrow> txnrequest" where
  "forwardMsgToTxnRequest m =
     (let conds = map (\<lambda>c. \<lparr>tc_Key = cm_Key c, tc_Target = cm_Target c, tc_Result = cm_Result c,
            tc_ModRevision = cm_ModRevision c, tc_CreateRevision = cm_CreateRevision c, tc_Version = cm_Version c,
            tc_Value = cm_Value c, tc_Lease = cm_Lease c\<rparr>) (rm_Conditions m)
      in \<lparr>tr_Conditions = conds, tr_Success = msgToTxnOps (rm_Success m), tr_Failure = msgToTxnOps (rm_Failure m)\<rparr>)"

section \<open>State\<close>

datatype noderole = roleSingle | roleLeader | roleFollower

record writereq =
  wr_id :: nat
  wr_entry :: entry

record pendingkv =
  pk_rev :: int
  pk_deleted :: bool
  pk_kv :: "keyvalue option"

text \<open>\<open>n_CheckpointEntries\<close> and \<open>n_FollowerWaitMode\<close> come from the configuration; \<open>n_bgDone\<close> says that the background context is
  cancelled, \<open>n_peerGRPC\<close> that the peer server accepts connections.\<close>

record ('db, 'w) node =
  n_term :: nat
  n_role :: noderole
  n_db :: "'db sstore"
  n_wal :: 'w
  n_nextRev :: int
  n_nextSeq :: int
  n_pending :: "gostring \<rightharpoonup> pendingkv"
  n_writeC :: "writereq list"
  n_nextReq :: nat
  n_peerSrv :: "server option"
  n_peerGRPC :: bool
  n_leaderCli :: "gostring option"
  n_entriesSinceCheckpoint :: int
  n_CheckpointEntries :: int
  n_checkpointTrigger :: bool
  n_FollowerWaitMode :: waitmode
  n_bgDone :: bool
  n_closed :: bool

definition observeTerm :: "nat \<Rightarrow> ('db, 'w) node \<Rightarrow> ('db, 'w) node" where
  "observeTerm t n = (if t > n_term n then n\<lparr>n_term := t\<rparr> else n)"

text \<open>The node that \<open>Open\<close> builds once the store and the log are open and replayed.\<close>

definition new_node :: "nat \<Rightarrow> 'db sstore \<Rightarrow> 'w \<Rightarrow> int \<Rightarrow> int \<Rightarrow> waitmode \<Rightarrow> ('db, 'w) node" where
  "new_node t db w nextSeq cpEntries mode = \<lparr>n_term = t, n_role = roleSingle, n_db = db, n_wal = w, n_nextRev = s_currentRev db,
     n_nextSeq = (if s_lastSeq db > nextSeq then s_lastSeq db else nextSeq), n_pending = Map.empty, n_writeC = [], n_nextReq = 0,
     n_peerSrv = None, n_peerGRPC = False, n_leaderCli = None, n_entriesSinceCheckpoint = 0, n_CheckpointEntries = cpEntries,
     n_checkpointTrigger = False, n_FollowerWaitMode = mode, n_bgDone = False, n_closed = False\<rparr>"

section \<open>Reads\<close>

definition node_Get :: "'db pebble \<Rightarrow> gostring \<Rightarrow> readoptions \<Rightarrow> ('db, 'w) node \<Rightarrow> keyvalue option res" where
  "node_Get P key opts n =
     (if n_closed n then Inl ErrClosed
      else if ro_Revision opts > 0 then GetAt P key (ro_Revision opts) (n_db n)
      else store_Get P key (n_db n))"

definition node_Exists :: "'db pebble \<Rightarrow> gostring \<Rightarrow> readoptions \<Rightarrow> ('db, 'w) node \<Rightarrow> bool res" where
  "node_Exists P key opts n =
     (if n_closed n then Inl ErrClosed
      else if ro_Revision opts > 0 then ExistsAt P key (ro_Revision opts) (n_db n)
      else store_Exists P key (n_db n))"

definition node_List :: "'db pebble \<Rightarrow> gostring \<Rightarrow> readoptions \<Rightarrow> ('db, 'w) node \<Rightarrow> keyvalue list res" where
  "node_List P pfx opts n = (if n_closed n then Inl ErrClosed else ListRange P pfx opts (n_db n))"

definition node_Count :: "'db pebble \<Rightarrow> gostring \<Rightarrow> readoptions \<Rightarrow> ('db, 'w) node \<Rightarrow> int res" where
  "node_Count P pfx opts n = (if n_closed n then Inl ErrClosed else CountRange P pfx opts (n_db n))"

text \<open>One round of waiting; the store's own \<open>ErrClosed\<close> is translated to the node's.\<close>

definition node_WaitForRevision :: "int \<Rightarrow> ('db, 'w) node \<Rightarrow> wait_round" where
  "node_WaitForRevision rv n = (if n_closed n then WaitDone (Some ErrClosed) else WaitForRevision rv (n_db n))"

definition node_Watch :: "gostring \<Rightarrow> int \<Rightarrow> bool \<Rightarrow> ('db, 'w) node \<Rightarrow> watcher res \<times> ('db, 'w) node" where
  "node_Watch pfx startRev prevKV n =
     (if n_closed n then (Inl ErrClosed, n)
      else if startRev > 0 \<and> startRev \<le> s_compactRev (n_db n) then (Inl ErrCompacted, n)
      else let storeStartRev = (if startRev = 0 then s_currentRev (n_db n) else wrap64 (startRev - 1))
           in case store_Watch pfx storeStartRev prevKV (n_db n) of (r, db) \<Rightarrow> (r, n\<lparr>n_db := db\<rparr>))"

section \<open>Reading through the leader\<close>

type_synonym rpc = "forwardrequest \<Rightarrow> forwardresponse res"

definition errUnavailable :: goerr where "errUnavailable = Err ''rpc error: code = Unavailable''"

definition isLeaderUnavailable :: "goerr \<Rightarrow> bool" where
  "isLeaderUnavailable err = (err = errLeaderUnreachable \<or> err = errLeaderShutdown \<or> err = errUnavailable)"

text \<open>\<open>syncWithLeader\<close> either ends at once or waits for the revision that the leader reported; \<open>states\<close> are the node's states
  at the rounds of the wait, each with whether the context ends while the round blocks. \<open>None\<close>: it still waits.\<close>

fun wait_states :: "int \<Rightarrow> (('db, 'w) node \<times> bool) list \<Rightarrow> goerr option option" where
  "wait_states rv [] = None"
| "wait_states rv ((n, ctxDone) # ns) = (case node_WaitForRevision rv n of
       WaitDone r \<Rightarrow> Some r
     | WaitOn _ \<Rightarrow> if ctxDone then Some (Some ErrCanceled) else wait_states rv ns)"

definition syncWithLeader :: "rpc \<Rightarrow> (('db, 'w) node \<times> bool) list \<Rightarrow> ('db, 'w) node \<Rightarrow> goerr option option" where
  "syncWithLeader call states n = (case n_leaderCli n of
       None \<Rightarrow> Some (if n_bgDone n then Some ErrClosed else if n_role n = roleFollower then Some ErrNoLeader else None)
     | Some _ \<Rightarrow>
         (case call (fwd0 ForwardGetRevision) of
            Inl err \<Rightarrow> Some (Some (if isLeaderUnavailable err then ErrNoLeader else err))
          | Inr resp \<Rightarrow> wait_states (fp_Revision resp) states))"

text \<open>The state that a read after the synchronisation sees: the last of the states waited through.\<close>

definition LinearizableGet :: "'db pebble \<Rightarrow> rpc \<Rightarrow> (('db, 'w) node \<times> bool) list \<Rightarrow> gostring \<Rightarrow> readoptions \<Rightarrow> ('db, 'w) node \<Rightarrow>
    keyvalue option res option" where
  "LinearizableGet P call states key opts n = (case syncWithLeader call states n of
       None \<Rightarrow> None
     | Some (Some err) \<Rightarrow> Some (Inl err)
     | Some None \<Rightarrow> Some (node_Get P key opts (last (n # map fst states))))"

definition LinearizableList :: "'db pebble \<Rightarrow> rpc \<Rightarrow> (('db, 'w) node \<times> bool) list \<Rightarrow> gostring \<Rightarrow> readoptions \<Rightarrow> ('db, 'w) node \<Rightarrow>
    keyvalue list res option" where
  "LinearizableList P call states pfx opts n = (case syncWithLeader call states n of
       None \<Rightarrow> None
     | Some (Some err) \<Rightarrow> Some (Inl err)
     | Some None \<Rightarrow> Some (node_List P pfx opts (last (n # map fst states))))"

definition LinearizableExists :: "'db pebble \<Rightarrow> rpc \<Rightarrow> (('db, 'w) node \<times> bool) list \<Rightarrow> gostring \<Rightarrow> readoptions \<Rightarrow> ('db, 'w) node \<Rightarrow>
    bool res option" where
  "LinearizableExists P call states key opts n = (case syncWithLeader call states n of
       None \<Rightarrow> None
     | Some (Some err) \<Rightarrow> Some (Inl err)
     | Some None \<Rightarrow> Some (node_Exists P key opts (last (n # map fst states))))"

definition LinearizableCount :: "'db pebble \<Rightarrow> rpc \<Rightarrow> (('db, 'w) node \<times> bool) list \<Rightarrow> gostring \<Rightarrow> readoptions \<Rightarrow> ('db, 'w) node \<Rightarrow>
    int res option" where
  "LinearizableCount P call states pfx opts n = (case syncWithLeader call states n of
       None \<Rightarrow> None
     | Some (Some err) \<Rightarrow> Some (Inl err)
     | Some None \<Rightarrow> Some (node_Count P pfx opts (last (n # map fst states))))"

end
