(* ===== verification/Node_Writes.thy ===== *)
theory Node_Writes
  imports Node_State
begin

text \<open>
  The write path of the node, \<open>src/writes.go\<close>, and the commit loop and write forwarding of
  \<open>src/leader.go\<close>.

  A write runs in two parts. Under the lock it reads the key, assigns a revision and a sequence, records
  the optimistic state in \<open>n_pending\<close> and queues the entry; then it waits for the commit loop. The first part is an operation
  that either finishes or yields the request it waits for together with what it does with the outcome; the
  second is \<open>await_done\<close>. A round of the commit loop is the sequence \<open>commit_take\<close>, \<open>commit_write\<close>,
  \<open>commit_apply\<close>, \<open>commit_finish\<close>, between which other writes may be queued.
  The queue's capacity only delays a writer and is not modelled.
\<close>

section \<open>Versions and pending state\<close>

definition kvVersion :: "keyvalue option \<Rightarrow> int" where
  "kvVersion kv = (case kv of None \<Rightarrow> 0 | Some kv \<Rightarrow> if kv_Version kv > 0 then kv_Version kv else 1)"

definition nextPutVersion :: "keyvalue option \<Rightarrow> int" where
  "nextPutVersion existing = (if existing = None then 1 else wrap64 (kvVersion existing + 1))"

definition readKey :: "'db pebble \<Rightarrow> gostring \<Rightarrow> ('db, 'w) node \<Rightarrow> keyvalue option res" where
  "readKey P key n = (case n_pending n key of
       Some p \<Rightarrow> if pk_deleted p then Inr None else Inr (pk_kv p)
     | None \<Rightarrow> store_Get P key (n_db n))"

text \<open>The next revision and sequence.\<close>

definition next_ids :: "('db, 'w) node \<Rightarrow> ('db, 'w) node" where
  "next_ids n = n\<lparr>n_nextRev := wrap64 (n_nextRev n + 1), n_nextSeq := wrap64 (n_nextSeq n + 1)\<rparr>"

definition set_pending :: "gostring \<Rightarrow> pendingkv \<Rightarrow> ('db, 'w) node \<Rightarrow> ('db, 'w) node" where
  "set_pending key p n = n\<lparr>n_pending := (n_pending n)(key \<mapsto> p)\<rparr>"

definition newWriteReq :: "entry \<Rightarrow> ('db, 'w) node \<Rightarrow> writereq \<times> ('db, 'w) node" where
  "newWriteReq e n =
     (let req = \<lparr>wr_id = n_nextReq n, wr_entry = e\<rparr> in (req, n\<lparr>n_nextReq := Suc (n_nextReq n), n_writeC := n_writeC n @ [req]\<rparr>))"

definition preparePut :: "'db pebble \<Rightarrow> gostring \<Rightarrow> bytes \<Rightarrow> int \<Rightarrow> ('db, 'w) node \<Rightarrow> entry res \<times> ('db, 'w) node" where
  "preparePut P key value lease n = (case readKey P key n of
       Inl err \<Rightarrow> (Inl err, n)
     | Inr existing \<Rightarrow>
         let n = next_ids n;
             newRev = n_nextRev n;
             op = (if existing = None then OpCreate else OpUpdate);
             createRev = (case existing of None \<Rightarrow> newRev | Some kv \<Rightarrow> kv_CreateRevision kv);
             prevRev = (case existing of None \<Rightarrow> 0 | Some kv \<Rightarrow> kv_Revision kv);
             version = nextPutVersion existing
         in (Inr \<lparr>e_ID = n_nextSeq n, e_Revision = newRev, e_Term = n_term n, e_Op = op, e_Key = key, e_Value = value,
                  e_Lease = lease, e_CreateRevision = createRev, e_PrevRevision = prevRev, e_Version = version\<rparr>,
             set_pending key \<lparr>pk_rev = newRev, pk_deleted = False, pk_kv = Some \<lparr>kv_Key = key, kv_Value = value,
                  kv_Revision = newRev, kv_CreateRevision = createRev, kv_PrevRevision = prevRev, kv_Version = version,
                  kv_Lease = lease\<rparr>\<rparr> n))"

text \<open>The entry of a delete, or the zero entry when the key does not exist.\<close>

definition prepareDelete :: "'db pebble \<Rightarrow> gostring \<Rightarrow> ('db, 'w) node \<Rightarrow> entry res \<times> ('db, 'w) node" where
  "prepareDelete P key n = (case readKey P key n of
       Inl err \<Rightarrow> (Inl err, n)
     | Inr None \<Rightarrow> (Inr entry0, n)
     | Inr (Some existing) \<Rightarrow>
         let n = next_ids n;
             newRev = n_nextRev n
         in (Inr (entry0\<lparr>e_ID := n_nextSeq n, e_Revision := newRev, e_Term := n_term n, e_Op := OpDelete, e_Key := key,
                  e_CreateRevision := kv_CreateRevision existing, e_PrevRevision := kv_Revision existing,
                  e_Version := kvVersion (Some existing)\<rparr>),
             set_pending key \<lparr>pk_rev = newRev, pk_deleted = True, pk_kv = None\<rparr> n))"

section \<open>Transactions\<close>

definition compare_ints :: "byte \<Rightarrow> int \<Rightarrow> int \<Rightarrow> bool" where
  "compare_ints result lhs rhs =
     (if result = TxnCondEqual then lhs = rhs
      else if result = TxnCondNotEqual then lhs \<noteq> rhs
      else if result = TxnCondGreater then lhs > rhs
      else if result = TxnCondLess then lhs < rhs
      else False)"

definition txnCondMatches :: "txncondition \<Rightarrow> keyvalue option \<Rightarrow> bool" where
  "txnCondMatches cond existing =
     (let modRev = (case existing of None \<Rightarrow> 0 | Some kv \<Rightarrow> kv_Revision kv);
          createRev = (case existing of None \<Rightarrow> 0 | Some kv \<Rightarrow> kv_CreateRevision kv);
          version = (if existing = None then 0 else kvVersion existing);
          lease = (case existing of None \<Rightarrow> 0 | Some kv \<Rightarrow> kv_Lease kv);
          val = (case existing of None \<Rightarrow> [] | Some kv \<Rightarrow> kv_Value kv)
      in if tc_Target cond = TxnCondMod then compare_ints (tc_Result cond) modRev (tc_ModRevision cond)
         else if tc_Target cond = TxnCondVersion then compare_ints (tc_Result cond) version (tc_Version cond)
         else if tc_Target cond = TxnCondCreate then compare_ints (tc_Result cond) createRev (tc_CreateRevision cond)
         else if tc_Target cond = TxnCondLease then compare_ints (tc_Result cond) lease (tc_Lease cond)
         else if tc_Target cond = TxnCondValue then
           (if tc_Result cond = TxnCondEqual then val = tc_Value cond
            else if tc_Result cond = TxnCondNotEqual then val \<noteq> tc_Value cond
            else False)
         else False)"

fun txn_conds :: "'db pebble \<Rightarrow> txncondition list \<Rightarrow> ('db, 'w) node \<Rightarrow> bool res" where
  "txn_conds P [] n = Inr True"
| "txn_conds P (cond # conds) n = (case readKey P (tc_Key cond) n of
       Inl err \<Rightarrow> Inl err
     | Inr existing \<Rightarrow> if \<not> txnCondMatches cond existing then Inr False else txn_conds P conds n)"

text \<open>An operation resolved against the current state; a delete of a key that does not exist is skipped.\<close>

record resolvedop =
  rs_walOp :: op
  rs_key :: gostring
  rs_value :: bytes
  rs_lease :: int
  rs_createRevision :: int
  rs_prevRevision :: int
  rs_version :: int
  rs_skip :: bool

definition resolved0 :: resolvedop where
  "resolved0 = \<lparr>rs_walOp = 0, rs_key = [], rs_value = [], rs_lease = 0, rs_createRevision = 0, rs_prevRevision = 0,
     rs_version = 0, rs_skip = False\<rparr>"

definition resolve_op :: "txnop \<Rightarrow> keyvalue option \<Rightarrow> resolvedop list" where
  "resolve_op op existing =
     (if to_Type op = TxnPut then
        [resolved0\<lparr>rs_walOp := (if existing = None then OpCreate else OpUpdate), rs_key := to_Key op, rs_value := to_Value op,
           rs_lease := to_Lease op,
           rs_createRevision := (case existing of None \<Rightarrow> 0 | Some kv \<Rightarrow> kv_CreateRevision kv),
           rs_prevRevision := (case existing of None \<Rightarrow> 0 | Some kv \<Rightarrow> kv_Revision kv),
           rs_version := (if existing = None then 1 else wrap64 (kvVersion existing + 1))\<rparr>]
      else if to_Type op = TxnDelete then
        (case existing of
           None \<Rightarrow> [resolved0\<lparr>rs_skip := True\<rparr>]
         | Some kv \<Rightarrow> [resolved0\<lparr>rs_walOp := OpDelete, rs_key := to_Key op, rs_createRevision := kv_CreateRevision kv,
             rs_prevRevision := kv_Revision kv, rs_version := kvVersion existing\<rparr>])
      else [])"

fun resolve_ops :: "'db pebble \<Rightarrow> txnop list \<Rightarrow> ('db, 'w) node \<Rightarrow> resolvedop list res" where
  "resolve_ops P [] n = Inr []"
| "resolve_ops P (op # ops) n = (case readKey P (to_Key op) n of
       Inl err \<Rightarrow> Inl err
     | Inr existing \<Rightarrow> (case resolve_ops P ops n of
           Inl err \<Rightarrow> Inl err
         | Inr rest \<Rightarrow> Inr (resolve_op op existing @ rest)))"

definition sub_op :: "int \<Rightarrow> resolvedop \<Rightarrow> txn_subop" where
  "sub_op newRev r = \<lparr>so_Op = rs_walOp r, so_Key = rs_key r, so_Value = rs_value r, so_Lease = rs_lease r,
     so_CreateRevision = (if rs_walOp r = OpCreate then newRev else rs_createRevision r),
     so_PrevRevision = rs_prevRevision r, so_Version = rs_version r\<rparr>"

definition sub_pending :: "int \<Rightarrow> resolvedop \<Rightarrow> pendingkv" where
  "sub_pending newRev r =
     (if rs_walOp r = OpDelete then \<lparr>pk_rev = newRev, pk_deleted = True, pk_kv = None\<rparr>
      else \<lparr>pk_rev = newRev, pk_deleted = False, pk_kv = Some \<lparr>kv_Key = rs_key r, kv_Value = rs_value r, kv_Revision = newRev,
        kv_CreateRevision = (if rs_walOp r = OpCreate then newRev else rs_createRevision r), kv_PrevRevision = rs_prevRevision r,
        kv_Version = rs_version r, kv_Lease = rs_lease r\<rparr>\<rparr>)"

text \<open>The entry is the zero entry when the chosen branch writes nothing.\<close>

definition prepareTxn :: "'db pebble \<Rightarrow> txnrequest \<Rightarrow> ('db, 'w) node \<Rightarrow> (entry \<times> bool \<times> gostring list) res \<times> ('db, 'w) node" where
  "prepareTxn P req n = (case txn_conds P (tr_Conditions req) n of
       Inl err \<Rightarrow> (Inl err, n)
     | Inr succeeded \<Rightarrow>
         let ops = (if succeeded then tr_Success req else tr_Failure req)
         in if ops = [] then (Inr (entry0, succeeded, []), n)
            else (case resolve_ops P ops n of
                    Inl err \<Rightarrow> (Inl err, n)
                  | Inr resolved \<Rightarrow>
                      let active = filter (\<lambda>r. \<not> rs_skip r) resolved
                      in if active = [] then (Inr (entry0, succeeded, []), n)
                         else if length active > 65535 then (Inl (Err ''txn: too many ops, maximum is 65535''), n)
                         else if \<not> distinct (map rs_key active) then (Inl (Err ''txn: duplicate key in branch''), n)
                         else
                           let n = next_ids n;
                               newRev = n_nextRev n;
                               deletedKeys = map rs_key (filter (\<lambda>r. rs_walOp r = OpDelete) active)
                           in (Inr (entry0\<lparr>e_ID := n_nextSeq n, e_Revision := newRev, e_Term := n_term n, e_Op := OpTxn,
                                    e_Value := EncodeTxnOps (map (sub_op newRev) active)\<rparr>, succeeded, deletedKeys),
                               fold (\<lambda>r. set_pending (rs_key r) (sub_pending newRev r)) active n)))"

section \<open>Forwarding to the leader\<close>

definition forwardWrite :: "rpc \<Rightarrow> forwardrequest \<Rightarrow> ('db, 'w) node \<Rightarrow> forwardresponse res" where
  "forwardWrite call req n = (case n_leaderCli n of
       None \<Rightarrow> Inl ErrNoLeader
     | Some _ \<Rightarrow> (case call req of
           Inl err \<Rightarrow> Inl (if isLeaderUnavailable err then ErrNoLeader else err)
         | Inr resp \<Rightarrow> Inr resp))"

text \<open>What the caller makes of the leader's answer.\<close>

definition fwd_result :: "(forwardresponse \<Rightarrow> 'a) \<Rightarrow> forwardresponse res \<Rightarrow> 'a res" where
  "fwd_result f r = (case r of
       Inl err \<Rightarrow> Inl err
     | Inr resp \<Rightarrow> (case decodeErr (fp_ErrCode resp) (fp_ErrMsg resp) of Some err \<Rightarrow> Inl err | None \<Rightarrow> Inr (f resp)))"

section \<open>Write operations\<close>

datatype 'a started = Finished "'a res" | Waiting writereq gostring "int res \<Rightarrow> 'a res"

definition submit :: "entry \<Rightarrow> gostring \<Rightarrow> (int \<Rightarrow> 'a) \<Rightarrow> ('db, 'w) node \<Rightarrow> 'a started \<times> ('db, 'w) node" where
  "submit e key k n = (case newWriteReq e n of (req, n) \<Rightarrow>
     (Waiting req key (\<lambda>r. case r of Inl err \<Rightarrow> Inl err | Inr rv \<Rightarrow> Inr (k rv)), n))"

definition node_Put :: "'db pebble \<Rightarrow> rpc \<Rightarrow> gostring \<Rightarrow> bytes \<Rightarrow> int \<Rightarrow> ('db, 'w) node \<Rightarrow> int started \<times> ('db, 'w) node" where
  "node_Put P call key value lease n =
     (if n_closed n then (Finished (Inl ErrClosed), n)
      else if n_role n = roleFollower then
        (Finished (fwd_result fp_Revision (forwardWrite call ((fwd0 ForwardPut)\<lparr>fr_Key := key, fr_Value := value, fr_Lease := lease\<rparr>) n)), n)
      else case preparePut P key value lease n of
        (Inl err, n) \<Rightarrow> (Finished (Inl err), n)
      | (Inr e, n) \<Rightarrow> submit e key (\<lambda>rv. rv) n)"

definition node_Create :: "'db pebble \<Rightarrow> rpc \<Rightarrow> gostring \<Rightarrow> bytes \<Rightarrow> int \<Rightarrow> ('db, 'w) node \<Rightarrow> int started \<times> ('db, 'w) node" where
  "node_Create P call key value lease n =
     (if n_role n = roleFollower then
        (Finished (fwd_result fp_Revision (forwardWrite call ((fwd0 ForwardCreate)\<lparr>fr_Key := key, fr_Value := value, fr_Lease := lease\<rparr>) n)), n)
      else if n_closed n then (Finished (Inl ErrClosed), n)
      else case readKey P key n of
        Inl err \<Rightarrow> (Finished (Inl err), n)
      | Inr (Some _) \<Rightarrow> (Finished (Inl ErrKeyExists), n)
      | Inr None \<Rightarrow>
          let n = next_ids n;
              newRev = n_nextRev n;
              n = set_pending key \<lparr>pk_rev = newRev, pk_deleted = False, pk_kv = Some \<lparr>kv_Key = key, kv_Value = value,
                    kv_Revision = newRev, kv_CreateRevision = newRev, kv_PrevRevision = 0, kv_Version = 1, kv_Lease = lease\<rparr>\<rparr> n
          in submit (entry0\<lparr>e_ID := n_nextSeq n, e_Revision := newRev, e_Term := n_term n, e_Op := OpCreate, e_Key := key,
               e_Value := value, e_Lease := lease, e_CreateRevision := newRev, e_Version := 1\<rparr>) key (\<lambda>rv. rv) n)"

definition node_Update :: "'db pebble \<Rightarrow> rpc \<Rightarrow> gostring \<Rightarrow> bytes \<Rightarrow> int \<Rightarrow> int \<Rightarrow> ('db, 'w) node \<Rightarrow>
    (int \<times> keyvalue option \<times> bool) started \<times> ('db, 'w) node" where
  "node_Update P call key value revision lease n =
     (if n_role n = roleFollower then
        (Finished (fwd_result (\<lambda>r. (fp_Revision r, msgToKV (fp_OldKV r), fp_Succeeded r))
           (forwardWrite call ((fwd0 ForwardUpdate)\<lparr>fr_Key := key, fr_Value := value, fr_Revision := revision, fr_Lease := lease\<rparr>) n)), n)
      else if n_closed n then (Finished (Inl ErrClosed), n)
      else case readKey P key n of
        Inl err \<Rightarrow> (Finished (Inl err), n)
      | Inr None \<Rightarrow> (Finished (Inr (s_currentRev (n_db n), None, False)), n)
      | Inr (Some existing) \<Rightarrow>
          if kv_Revision existing \<noteq> revision then (Finished (Inr (s_currentRev (n_db n), Some existing, False)), n)
          else
            let n = next_ids n;
                newRev = n_nextRev n;
                version = wrap64 (kvVersion (Some existing) + 1);
                n = set_pending key \<lparr>pk_rev = newRev, pk_deleted = False, pk_kv = Some \<lparr>kv_Key = key, kv_Value = value,
                      kv_Revision = newRev, kv_CreateRevision = kv_CreateRevision existing, kv_PrevRevision = kv_Revision existing,
                      kv_Version = version, kv_Lease = lease\<rparr>\<rparr> n
            in submit \<lparr>e_ID = n_nextSeq n, e_Revision = newRev, e_Term = n_term n, e_Op = OpUpdate, e_Key = key, e_Value = value,
                 e_Lease = lease, e_CreateRevision = kv_CreateRevision existing, e_PrevRevision = kv_Revision existing,
                 e_Version = version\<rparr> key (\<lambda>rv. (rv, Some existing, True)) n)"

definition node_Delete :: "'db pebble \<Rightarrow> rpc \<Rightarrow> gostring \<Rightarrow> ('db, 'w) node \<Rightarrow> int started \<times> ('db, 'w) node" where
  "node_Delete P call key n =
     (if n_role n = roleFollower then
        (Finished (fwd_result fp_Revision (forwardWrite call ((fwd0 ForwardDeleteIfRevision)\<lparr>fr_Key := key\<rparr>) n)), n)
      else if n_closed n then (Finished (Inl ErrClosed), n)
      else case prepareDelete P key n of
        (Inl err, n) \<Rightarrow> (Finished (Inl err), n)
      | (Inr e, n) \<Rightarrow> if e_Key e = [] then (Finished (Inr 0), n) else submit e key (\<lambda>rv. rv) n)"

definition node_DeleteIfRevision :: "'db pebble \<Rightarrow> rpc \<Rightarrow> gostring \<Rightarrow> int \<Rightarrow> ('db, 'w) node \<Rightarrow>
    (int \<times> keyvalue option \<times> bool) started \<times> ('db, 'w) node" where
  "node_DeleteIfRevision P call key revision n =
     (if n_role n = roleFollower then
        (Finished (fwd_result (\<lambda>r. (fp_Revision r, msgToKV (fp_OldKV r), fp_Succeeded r))
           (forwardWrite call ((fwd0 ForwardDeleteIfRevision)\<lparr>fr_Key := key, fr_Revision := revision\<rparr>) n)), n)
      else if n_closed n then (Finished (Inl ErrClosed), n)
      else case readKey P key n of
        Inl err \<Rightarrow> (Finished (Inl err), n)
      | Inr None \<Rightarrow> (Finished (Inr (s_currentRev (n_db n), None, False)), n)
      | Inr (Some existing) \<Rightarrow>
          if revision \<noteq> 0 \<and> kv_Revision existing \<noteq> revision then (Finished (Inr (s_currentRev (n_db n), Some existing, False)), n)
          else case prepareDelete P key n of
            (Inl err, n) \<Rightarrow> (Finished (Inl err), n)
          | (Inr e, n) \<Rightarrow>
              if e_Key e = [] then (Finished (Inr (0, None, False)), n)
              else submit e key (\<lambda>rv. (rv, Some existing, True)) n)"

definition node_Txn :: "'db pebble \<Rightarrow> rpc \<Rightarrow> txnrequest \<Rightarrow> ('db, 'w) node \<Rightarrow> txnresponse started \<times> ('db, 'w) node" where
  "node_Txn P call req n =
     (if n_closed n then (Finished (Inl ErrClosed), n)
      else if n_role n = roleFollower then
        (Finished (fwd_result (\<lambda>r. \<lparr>tp_Succeeded = fp_Succeeded r, tp_Revision = fp_Revision r, tp_DeletedKeys = fp_DeletedKeys r\<rparr>)
           (forwardWrite call (txnToForwardRequest req) n)), n)
      else case prepareTxn P req n of
        (Inl err, n) \<Rightarrow> (Finished (Inl err), n)
      | (Inr (e, succeeded, deletedKeys), n) \<Rightarrow>
          if e_Op e = 0 then
            (Finished (Inr \<lparr>tp_Succeeded = succeeded, tp_Revision = s_currentRev (n_db n), tp_DeletedKeys = []\<rparr>), n)
          else submit e [] (\<lambda>rv. \<lparr>tp_Succeeded = succeeded, tp_Revision = rv, tp_DeletedKeys = deletedKeys\<rparr>) n)"

definition node_Compact :: "rpc \<Rightarrow> int \<Rightarrow> ('db, 'w) node \<Rightarrow> unit started \<times> ('db, 'w) node" where
  "node_Compact call revision n =
     (if n_role n = roleFollower then
        (Finished (fwd_result (\<lambda>_. ()) (forwardWrite call ((fwd0 ForwardCompact)\<lparr>fr_Revision := revision\<rparr>) n)), n)
      else if n_closed n then (Finished (Inl ErrClosed), n)
      else
        let n = n\<lparr>n_nextSeq := wrap64 (n_nextSeq n + 1)\<rparr>
        in submit (entry0\<lparr>e_ID := n_nextSeq n, e_Revision := n_nextRev n, e_Term := n_term n, e_Op := OpCompact,
             e_PrevRevision := revision\<rparr>) [] (\<lambda>_. ()) n)"

section \<open>Waiting for the commit loop\<close>

definition cleanPending :: "gostring \<Rightarrow> int \<Rightarrow> ('db, 'w) node \<Rightarrow> ('db, 'w) node" where
  "cleanPending key rv n =
     (if key \<noteq> [] then
        (case n_pending n key of
           Some p \<Rightarrow> if pk_rev p = rv then n\<lparr>n_pending := (n_pending n)(key := None)\<rparr> else n
         | None \<Rightarrow> n)
      else n)"

text \<open>The commit loop has answered.\<close>

definition await_done :: "gostring \<Rightarrow> int \<Rightarrow> goerr option \<Rightarrow> ('db, 'w) node \<Rightarrow> int res \<times> ('db, 'w) node" where
  "await_done key rv err n =
     (let n = cleanPending key rv n
      in case err of
           Some e \<Rightarrow> (Inl e, n)
         | None \<Rightarrow>
             let count = wrap64 (n_entriesSinceCheckpoint n + 1);
                 n = n\<lparr>n_entriesSinceCheckpoint := count\<rparr>
             in (Inr rv, if n_CheckpointEntries n > 0 \<and> count \<ge> n_CheckpointEntries n then n\<lparr>n_checkpointTrigger := True\<rparr> else n))"

text \<open>The caller's context ended first: it returns, and the clean-up follows once the commit loop answers.\<close>

definition await_ctx :: "goerr \<Rightarrow> int res" where
  "await_ctx ctxErr = Inl ctxErr"

section \<open>Commit loop\<close>

definition drop_pending :: "gostring \<Rightarrow> int \<Rightarrow> ('db, 'w) node \<Rightarrow> ('db, 'w) node" where
  "drop_pending key rv n = (case n_pending n key of
       Some p \<Rightarrow> if pk_rev p = rv then n\<lparr>n_pending := (n_pending n)(key := None)\<rparr> else n
     | None \<Rightarrow> n)"

fun clearPendingBatch :: "writereq list \<Rightarrow> ('db, 'w) node \<Rightarrow> ('db, 'w) node" where
  "clearPendingBatch [] n = n"
| "clearPendingBatch (req # batch) n =
     (let e = wr_entry req
      in if e_Op e = OpTxn then
           clearPendingBatch batch
             (case DecodeTxnOps (e_Value e) of
                Inr ops \<Rightarrow> fold (\<lambda>op. drop_pending (so_Key op) (e_Revision e)) ops n
              | Inl _ \<Rightarrow> n)
         else if e_Key e = [] then clearPendingBatch batch n
         else clearPendingBatch batch (drop_pending (e_Key e) (e_Revision e) n))"

text \<open>The loop takes the requests that are queued.\<close>

definition commit_take :: "nat \<Rightarrow> ('db, 'w) node \<Rightarrow> writereq list \<times> ('db, 'w) node" where
  "commit_take k n = (take k (n_writeC n), n\<lparr>n_writeC := drop k (n_writeC n)\<rparr>)"

text \<open>The log append, next to which the entries go out to the followers. \<open>app\<close> is the log's \<open>AppendBatch\<close> and \<open>ctxErr\<close> the state of the
  batch's context, which any of the callers can cancel.\<close>

type_synonym 'w appender = "goerr option \<Rightarrow> entry list \<Rightarrow> 'w \<Rightarrow> goerr option \<times> 'w"

definition commit_write :: "'w appender \<Rightarrow> goerr option \<Rightarrow> writereq list \<Rightarrow> ('db, 'w) node \<Rightarrow> goerr option \<times> ('db, 'w) node" where
  "commit_write app ctxErr batch n =
     (let entries = map wr_entry batch
      in case app ctxErr entries (n_wal n) of (err, w) \<Rightarrow>
           let n = n\<lparr>n_wal := w\<rparr>
           in (err, case n_peerSrv n of
                 None \<Rightarrow> n
               | Some sv \<Rightarrow>
                   let sv = fold Broadcast entries sv
                   in n\<lparr>n_peerSrv := Some (if err = None then BroadcastCommit (Sequence (hd entries)) (Sequence (last entries)) sv
                                           else sv)\<rparr>))"

text \<open>The wait for the followers, over the server's states at its checks.\<close>

definition commit_wait :: "writereq list \<Rightarrow> (server \<times> goerr option) list \<Rightarrow> ('db, 'w) node \<Rightarrow> goerr option option \<times> ('db, 'w) node" where
  "commit_wait batch checks n = (case n_peerSrv n of
       None \<Rightarrow> (Some None, n)
     | Some sv \<Rightarrow>
         (WaitForFollowers (n_FollowerWaitMode n) (Sequence (wr_entry (last batch))) sv checks,
          n\<lparr>n_peerSrv := Some (last (sv # map fst checks))\<rparr>))"

definition commit_apply :: "'db pebble \<Rightarrow> writereq list \<Rightarrow> ('db, 'w) node \<Rightarrow> goerr option \<times> ('db, 'w) node" where
  "commit_apply P batch n = (case store_Apply P (map wr_entry batch) (n_db n) of (err, db) \<Rightarrow> (err, n\<lparr>n_db := db\<rparr>))"

definition stepDownOnFatalCommitError :: "('db, 'w) node \<Rightarrow> ('db, 'w) node" where
  "stepDownOnFatalCommitError n = (if n_role n \<noteq> roleLeader then n else n\<lparr>n_bgDone := True, n_peerGRPC := False\<rparr>)"

text \<open>When the loop ends it fences the node and answers the requests still queued.\<close>

definition commit_exit :: "bool \<Rightarrow> ('db, 'w) node \<Rightarrow> (nat \<times> goerr option) list \<times> ('db, 'w) node" where
  "commit_exit fatalExit n =
     (let signals = map (\<lambda>req. (wr_id req, Some ErrClosed)) (n_writeC n);
          n = n\<lparr>n_closed := True, n_writeC := []\<rparr>
      in (signals, if fatalExit then stepDownOnFatalCommitError n else n))"

text \<open>The end of a round: the answers to the callers by request, and whether the loop goes on.\<close>

definition commit_finish :: "writereq list \<Rightarrow> goerr option \<Rightarrow> ('db, 'w) node \<Rightarrow>
    (nat \<times> goerr option) list \<times> bool \<times> ('db, 'w) node" where
  "commit_finish batch err n =
     (let n = clearPendingBatch batch n;
          signals = map (\<lambda>req. (wr_id req, err)) batch
      in if err \<noteq> None \<and> err \<noteq> Some ErrCanceled
         then (case commit_exit True n of (rest, n) \<Rightarrow> (signals @ rest, False, n))
         else (signals, True, n))"

text \<open>A whole round in which no other write interferes; \<open>None\<close> while it waits for followers.\<close>

definition commit_round :: "'db pebble \<Rightarrow> 'w appender \<Rightarrow> nat \<Rightarrow> goerr option \<Rightarrow> (server \<times> goerr option) list \<Rightarrow> ('db, 'w) node \<Rightarrow>
    ((nat \<times> goerr option) list \<times> bool \<times> ('db, 'w) node) option" where
  "commit_round P app k ctxErr checks n =
     (case commit_take k n of (batch, n) \<Rightarrow>
      case commit_write app ctxErr batch n of
        (Some err, n) \<Rightarrow> Some (commit_finish batch (Some err) n)
      | (None, n) \<Rightarrow> (case commit_wait batch checks n of
            (None, n) \<Rightarrow> None
          | (Some (Some err), n) \<Rightarrow> Some (commit_finish batch (Some err) n)
          | (Some None, n) \<Rightarrow> (case commit_apply P batch n of (err, n) \<Rightarrow> Some (commit_finish batch err n))))"

section \<open>Handling forwarded writes\<close>

definition on_result :: "('a res \<Rightarrow> 'b res) \<Rightarrow> 'a started \<Rightarrow> 'b started" where
  "on_result f st = (case st of Finished r \<Rightarrow> Finished (f r) | Waiting req key k \<Rightarrow> Waiting req key (\<lambda>r. f (k r)))"

definition resp_of :: "('a \<Rightarrow> forwardresponse) \<Rightarrow> 'a res \<Rightarrow> forwardresponse res" where
  "resp_of f r = (case r of
       Inl err \<Rightarrow> (case encodeErr (Some err) of (code, msg) \<Rightarrow> Inr (fwdresp0\<lparr>fp_ErrCode := code, fp_ErrMsg := msg\<rparr>))
     | Inr a \<Rightarrow> Inr (f a))"

definition HandleForward :: "'db pebble \<Rightarrow> rpc \<Rightarrow> forwardrequest \<Rightarrow> ('db, 'w) node \<Rightarrow> forwardresponse started \<times> ('db, 'w) node" where
  "HandleForward P call req n = (case fr_Op req of
       ForwardPut \<Rightarrow> (case node_Put P call (fr_Key req) (fr_Value req) (fr_Lease req) n of (st, n) \<Rightarrow>
         (on_result (resp_of (\<lambda>rv. fwdresp0\<lparr>fp_Revision := rv, fp_Succeeded := True\<rparr>)) st, n))
     | ForwardCreate \<Rightarrow> (case node_Create P call (fr_Key req) (fr_Value req) (fr_Lease req) n of (st, n) \<Rightarrow>
         (on_result (resp_of (\<lambda>rv. fwdresp0\<lparr>fp_Revision := rv, fp_Succeeded := True\<rparr>)) st, n))
     | ForwardUpdate \<Rightarrow>
         (case node_Update P call (fr_Key req) (fr_Value req) (fr_Revision req) (fr_Lease req) n of (st, n) \<Rightarrow>
         (on_result (resp_of (\<lambda>(rv, old, ok). fwdresp0\<lparr>fp_Revision := rv, fp_OldKV := kvToMsg old, fp_Succeeded := ok\<rparr>)) st, n))
     | ForwardDeleteIfRevision \<Rightarrow> (case node_DeleteIfRevision P call (fr_Key req) (fr_Revision req) n of (st, n) \<Rightarrow>
         (on_result (resp_of (\<lambda>(rv, old, ok). fwdresp0\<lparr>fp_Revision := rv, fp_OldKV := kvToMsg old, fp_Succeeded := ok\<rparr>)) st, n))
     | ForwardCompact \<Rightarrow> (case node_Compact call (fr_Revision req) n of (st, n) \<Rightarrow>
         (on_result (resp_of (\<lambda>_. fwdresp0\<lparr>fp_Succeeded := True\<rparr>)) st, n))
     | ForwardGetRevision \<Rightarrow> (Finished (Inr (fwdresp0\<lparr>fp_Revision := n_nextRev n, fp_Succeeded := True\<rparr>)), n)
     | ForwardTxn \<Rightarrow>
         (case fr_TxnReq req of
            None \<Rightarrow> (Finished (Inl (Err ''t4: ForwardTxn missing TxnReq'')), n)
          | Some m \<Rightarrow> (case node_Txn P call (forwardMsgToTxnRequest m) n of (st, n) \<Rightarrow>
              (on_result (resp_of (\<lambda>r. fwdresp0\<lparr>fp_Revision := tp_Revision r, fp_Succeeded := tp_Succeeded r,
                 fp_DeletedKeys := tp_DeletedKeys r\<rparr>)) st, n)))
     | ForwardUnknown _ \<Rightarrow> (Finished (Inl (Err ''t4: unknown forward op'')), n))"

end
