(* ===== verification/Node_Lin.thy ===== *)
theory Node_Lin
  imports Node_Writes
begin

text \<open>
  The write path refines a sequential specification. The specification executes one operation at a time on a
  change history; the node queues entries, commits them in batches and reads through its optimistic state. In every
  interleaving of writers and commit rounds without a failed batch, what the node reads is the
  specification's state after all operations submitted so far, and its store is a prefix of it.
\<close>

section \<open>Sequential specification\<close>

definition cur_kv :: "gostring \<Rightarrow> change list \<Rightarrow> keyvalue option" where
  "cur_kv key H = map_option change_kv (live (newest key H))"

definition put_change :: "gostring \<Rightarrow> bytes \<Rightarrow> int \<Rightarrow> int \<Rightarrow> keyvalue option \<Rightarrow> change" where
  "put_change key value lease rv existing =
     (rv, \<lparr>r_key = key, r_value = value,
       r_createRevision = (case existing of None \<Rightarrow> rv | Some kv \<Rightarrow> kv_CreateRevision kv),
       r_prevRevision = (case existing of None \<Rightarrow> 0 | Some kv \<Rightarrow> kv_Revision kv),
       r_version = (case existing of None \<Rightarrow> 1 | Some kv \<Rightarrow> kv_Version kv + 1),
       r_lease = lease, r_create = (existing = None), r_delete = False\<rparr>)"

definition del_change :: "gostring \<Rightarrow> int \<Rightarrow> keyvalue \<Rightarrow> change" where
  "del_change key rv kv =
     (rv, \<lparr>r_key = key, r_value = [], r_createRevision = kv_CreateRevision kv, r_prevRevision = kv_Revision kv,
       r_version = kv_Version kv, r_lease = 0, r_create = False, r_delete = True\<rparr>)"

definition op_changes :: "int \<Rightarrow> change list \<Rightarrow> txnop \<Rightarrow> change list" where
  "op_changes rv H op =
     (if to_Type op = TxnPut then [put_change (to_Key op) (to_Value op) (to_Lease op) rv (cur_kv (to_Key op) H)]
      else if to_Type op = TxnDelete then (case cur_kv (to_Key op) H of None \<Rightarrow> [] | Some kv \<Rightarrow> [del_change (to_Key op) rv kv])
      else [])"

definition txn_branch :: "txnrequest \<Rightarrow> change list \<Rightarrow> txnop list" where
  "txn_branch req H =
     (if list_all (\<lambda>c. txnCondMatches c (cur_kv (tc_Key c) H)) (tr_Conditions req) then tr_Success req else tr_Failure req)"

datatype wop =
    WPut gostring bytes int
  | WCreate gostring bytes int
  | WUpdate gostring bytes int int
  | WDelete gostring
  | WDeleteIf gostring int
  | WTxn txnrequest
  | WCompact int

text \<open>The changes an operation makes to a history whose last revision is \<open>rv\<close>.\<close>

fun spec_changes :: "wop \<Rightarrow> int \<Rightarrow> change list \<Rightarrow> change list" where
  "spec_changes (WPut key value lease) rv H = [put_change key value lease (rv + 1) (cur_kv key H)]"
| "spec_changes (WCreate key value lease) rv H =
     (if cur_kv key H = None then [put_change key value lease (rv + 1) None] else [])"
| "spec_changes (WUpdate key value revision lease) rv H = (case cur_kv key H of
       Some kv \<Rightarrow> if kv_Revision kv = revision then [put_change key value lease (rv + 1) (Some kv)] else []
     | None \<Rightarrow> [])"
| "spec_changes (WDelete key) rv H = (case cur_kv key H of Some kv \<Rightarrow> [del_change key (rv + 1) kv] | None \<Rightarrow> [])"
| "spec_changes (WDeleteIf key revision) rv H = (case cur_kv key H of
       Some kv \<Rightarrow> if revision = 0 \<or> kv_Revision kv = revision then [del_change key (rv + 1) kv] else []
     | None \<Rightarrow> [])"
| "spec_changes (WTxn req) rv H =
     (let cs = concat (map (op_changes (rv + 1) H) (txn_branch req H))
      in if length cs \<le> 65535 \<and> distinct (map (\<lambda>c. r_key (snd c)) cs) then cs else [])"
| "spec_changes (WCompact revision) rv H = []"

definition spec_step :: "wop \<Rightarrow> int \<times> change list \<Rightarrow> int \<times> change list" where
  "spec_step op s = (case s of (rv, H) \<Rightarrow>
     let cs = spec_changes op rv H in (if cs = [] then rv else rv + 1, H @ cs))"

lemma spec_step_pair: "spec_step op (rv, H) = (if spec_changes op rv H = [] then rv else rv + 1, H @ spec_changes op rv H)"
  by (simp add: spec_step_def Let_def)

section \<open>Runs\<close>

definition wop_state :: "'db pebble \<Rightarrow> rpc \<Rightarrow> wop \<Rightarrow> ('db, 'w) node \<Rightarrow> ('db, 'w) node" where
  "wop_state P call op n = (case op of
       WPut key value lease \<Rightarrow> snd (node_Put P call key value lease n)
     | WCreate key value lease \<Rightarrow> snd (node_Create P call key value lease n)
     | WUpdate key value revision lease \<Rightarrow> snd (node_Update P call key value revision lease n)
     | WDelete key \<Rightarrow> snd (node_Delete P call key n)
     | WDeleteIf key revision \<Rightarrow> snd (node_DeleteIfRevision P call key revision n)
     | WTxn req \<Rightarrow> snd (node_Txn P call req n)
     | WCompact revision \<Rightarrow> snd (node_Compact call revision n))"

text \<open>Where the commit loop is: between rounds, or with a batch it has taken, written to the log, or applied.\<close>

datatype phase = Idle | Taken "writereq list" | Written "writereq list" | Waited "writereq list" | Applied "writereq list" "goerr option"

definition unapplied :: "phase \<Rightarrow> entry list" where
  "unapplied ph = (case ph of
       Idle \<Rightarrow> [] | Taken b \<Rightarrow> map wr_entry b | Written b \<Rightarrow> map wr_entry b | Waited b \<Rightarrow> map wr_entry b | Applied b err \<Rightarrow> [])"

definition backlog :: "phase \<Rightarrow> ('db, 'w) node \<Rightarrow> entry list" where
  "backlog ph n = unapplied ph @ map wr_entry (n_writeC n)"

text \<open>Operations whose arguments fit the record format. A compaction must not go behind an earlier one.\<close>

definition txnop_ok :: "txnop \<Rightarrow> bool" where
  "txnop_ok op \<longleftrightarrow> length (to_Key op) < 2 ^ 32 \<and> length (to_Value op) < 2 ^ 32 \<and> is_i64 (to_Lease op)"

fun wop_ok :: "int \<Rightarrow> wop \<Rightarrow> bool" where
  "wop_ok cr (WPut key value lease) \<longleftrightarrow> length key < 2 ^ 32 \<and> is_i64 lease"
| "wop_ok cr (WCreate key value lease) \<longleftrightarrow> length key < 2 ^ 32 \<and> is_i64 lease"
| "wop_ok cr (WUpdate key value revision lease) \<longleftrightarrow> length key < 2 ^ 32 \<and> is_i64 lease"
| "wop_ok cr (WDelete key) \<longleftrightarrow> key \<noteq> [] \<and> length key < 2 ^ 32"
| "wop_ok cr (WDeleteIf key revision) \<longleftrightarrow> key \<noteq> [] \<and> length key < 2 ^ 32"
| "wop_ok cr (WTxn req) \<longleftrightarrow> list_all txnop_ok (tr_Success req) \<and> list_all txnop_ok (tr_Failure req)"
| "wop_ok cr (WCompact revision) \<longleftrightarrow> cr \<le> revision \<and> is_rev revision"

inductive node_run :: "'db pebble \<Rightarrow> 'w appender \<Rightarrow> rpc \<Rightarrow> ('db, 'w) node \<Rightarrow> wop list \<Rightarrow> ('db, 'w) node \<Rightarrow> phase \<Rightarrow> bool"
  for P app call n0 where
  init: "node_run P app call n0 [] n0 Idle"
| submit: "node_run P app call n0 ops n ph \<Longrightarrow> wop_ok (last_compact (s_compactRev (n_db n)) (backlog ph n)) op \<Longrightarrow>
    is_rev (n_nextSeq n + 1) \<Longrightarrow> node_run P app call n0 (ops @ [op]) (wop_state P call op n) ph"
| taken: "node_run P app call n0 ops n Idle \<Longrightarrow> commit_take k n = (batch, n') \<Longrightarrow> batch \<noteq> [] \<Longrightarrow>
    node_run P app call n0 ops n' (Taken batch)"
| written: "node_run P app call n0 ops n (Taken batch) \<Longrightarrow> commit_write app ctxErr batch n = (None, n') \<Longrightarrow>
    node_run P app call n0 ops n' (Written batch)"
| waited: "node_run P app call n0 ops n (Written batch) \<Longrightarrow> commit_wait batch checks n = (Some None, n') \<Longrightarrow>
    node_run P app call n0 ops n' (Waited batch)"
| applied: "node_run P app call n0 ops n (Waited batch) \<Longrightarrow> commit_apply P batch n = (err, n') \<Longrightarrow>
    node_run P app call n0 ops n' (Applied batch err)"
| finished: "node_run P app call n0 ops n (Applied batch err) \<Longrightarrow> commit_finish batch err n = (signals, goon, n') \<Longrightarrow>
    node_run P app call n0 ops n' Idle"
| answered: "node_run P app call n0 ops n ph \<Longrightarrow> rv \<le> s_currentRev (n_db n) \<Longrightarrow>
    node_run P app call n0 ops (snd (await_done key rv None n)) ph"
| peer: "node_run P app call n0 ops n ph \<Longrightarrow> node_run P app call n0 ops (n\<lparr>n_peerSrv := sv\<rparr>) ph"

section \<open>Invariant\<close>

abbreviation chg :: "entry list \<Rightarrow> change list" where
  "chg es \<equiv> concat (map entry_changes es)"

text \<open>What every change of a live key satisfies: its version counts writes since its creation.\<close>

definition kv_ok :: "change \<Rightarrow> bool" where
  "kv_ok c \<longleftrightarrow> r_delete (snd c) \<or>
     0 < r_createRevision (snd c) \<and> r_createRevision (snd c) \<le> fst c \<and>
     1 \<le> r_version (snd c) \<and> r_version (snd c) \<le> fst c - r_createRevision (snd c) + 1"

definition hist_ok :: "int \<Rightarrow> change list \<Rightarrow> bool" where
  "hist_ok rv H \<longleftrightarrow> is_rev rv \<and> (\<forall>c \<in> set H. kv_ok c \<and> fst c \<le> rv)"

definition stands_for :: "pendingkv \<Rightarrow> change \<Rightarrow> bool" where
  "stands_for p c \<longleftrightarrow> pk_rev p = fst c \<and> pk_deleted p = r_delete (snd c) \<and> (r_delete (snd c) \<or> pk_kv p = Some (change_kv c))"

text \<open>The optimistic state holds the newest change of every key that has a change in the backlog \<open>B\<close>.\<close>

definition pend_ok :: "(gostring \<rightharpoonup> pendingkv) \<Rightarrow> change list \<Rightarrow> change list \<Rightarrow> bool" where
  "pend_ok m H B \<longleftrightarrow> (\<forall>key. case m key of
       None \<Rightarrow> newest key B = None
     | Some p \<Rightarrow> (\<exists>c. newest key (H @ B) = Some c \<and> stands_for p c))"

definition plain_compacts :: "entry list \<Rightarrow> bool" where
  "plain_compacts es \<longleftrightarrow> list_all (\<lambda>e. e_Op e = OpCompact \<longrightarrow> e_Key e = []) es"

definition phase_ok :: "phase \<Rightarrow> int \<Rightarrow> bool" where
  "phase_ok ph cur \<longleftrightarrow> (\<forall>b err. ph = Applied b err \<longrightarrow> err = None \<and> plain_compacts (map wr_entry b) \<and>
     (\<forall>r \<in> set b. e_Op (wr_entry r) \<noteq> OpCompact \<longrightarrow> e_Revision (wr_entry r) \<le> cur))"

definition node_inv :: "('db \<Rightarrow> (bytes \<times> bytes) list) \<Rightarrow> change list \<Rightarrow> phase \<Rightarrow> ('db, 'w) node \<Rightarrow> bool" where
  "node_inv contents H ph n \<longleftrightarrow>
     store_inv contents (n_db n) H \<and> store_entries_ok (n_db n) (backlog ph n) \<and> plain_compacts (backlog ph n) \<and>
     hist_ok (n_nextRev n) (H @ chg (backlog ph n)) \<and> pend_ok (n_pending n) H (chg (backlog ph n)) \<and>
     n_nextRev n = last_rev (s_currentRev (n_db n)) (backlog ph n) \<and> n_nextSeq n = last_seq (s_lastSeq (n_db n)) (backlog ph n) \<and>
     map Sequence (backlog ph n) = [s_lastSeq (n_db n) + 1..n_nextSeq n] \<and> phase_ok ph (s_currentRev (n_db n)) \<and>
     \<not> n_closed n \<and> n_role n \<noteq> roleFollower"

subsection \<open>Batches of entries\<close>

lemma last_append_simps:
  "last_rev cur (xs @ ys) = last_rev (last_rev cur xs) ys" "last_compact cr (xs @ ys) = last_compact (last_compact cr xs) ys"
  "last_seq sq (xs @ ys) = last_seq (last_seq sq xs) ys"
proof -
  show "last_rev cur (xs @ ys) = last_rev (last_rev cur xs) ys" by (induction xs arbitrary: cur) auto
  show "last_compact cr (xs @ ys) = last_compact (last_compact cr xs) ys" by (induction xs arbitrary: cr) auto
  show "last_seq sq (xs @ ys) = last_seq (last_seq sq xs) ys" by (simp add: last_seq_def)
qed

lemma last_seq_Cons: "last_seq sq (e # es) = last_seq (Sequence e) es"
  by (simp add: last_seq_def)

lemma entries_ok_append:
  "entries_ok cur cr sq (xs @ ys) \<longleftrightarrow> entries_ok cur cr sq xs \<and> entries_ok (last_rev cur xs) (last_compact cr xs) (last_seq sq xs) ys"
proof (induction cur cr sq xs rule: entries_ok.induct)
  case (2 cur cr sq e es)
  then show ?case by (cases "e_Op e = OpCompact") (auto simp: last_seq_Cons)
qed (simp add: last_seq_def)

lemma one_entry_revs: "c \<in> set (entry_changes e) \<Longrightarrow> fst c = e_Revision e \<and> e_Op e \<noteq> OpCompact"
  by (auto simp: entry_changes_def split: if_splits)

lemma entries_ok_revs:
  "entries_ok cur cr sq es \<Longrightarrow> e \<in> set es \<Longrightarrow> e_Op e \<noteq> OpCompact \<Longrightarrow> cur < e_Revision e \<and> e_Revision e \<le> last_rev cur es"
proof (induction cur cr sq es rule: entries_ok.induct)
  case (2 cur cr sq e' es)
  show ?case
  proof (cases "e_Op e' = OpCompact")
    case True
    with 2 show ?thesis by auto
  next
    case False
    then have ok: "entries_ok (e_Revision e') cr (Sequence e') es" "cur < e_Revision e'" using 2(3) by (auto simp: apply_ok_def)
    have "e_Revision e' \<le> last_rev (e_Revision e') es" using entries_ok_bounds [OF ok(1)] by simp
    with 2(2) [OF False ok(1)] 2(4,5) False ok show ?thesis by (cases "e = e'") auto
  qed
qed simp

lemma chg_revs: "entries_ok cur cr sq es \<Longrightarrow> c \<in> set (chg es) \<Longrightarrow> cur < fst c \<and> fst c \<le> last_rev cur es"
  using one_entry_revs entries_ok_revs by fastforce

subsection \<open>Optimistic state\<close>

lemma pend_ok_put:
  assumes "pend_ok m H B" "stands_for p c"
  shows "pend_ok (m(r_key (snd c) \<mapsto> p)) H (B @ [c])"
  unfolding pend_ok_def
proof
  fix key
  have n: "newest key [c] = (if r_key (snd c) = key then Some c else None)" by (simp add: newest_def)
  show "case (m(r_key (snd c) \<mapsto> p)) key of None \<Rightarrow> newest key (B @ [c]) = None
    | Some p \<Rightarrow> \<exists>d. newest key (H @ B @ [c]) = Some d \<and> stands_for p d"
  proof (cases "r_key (snd c) = key")
    case True
    then show ?thesis using assms(2) n newest_append [of key "H @ B" "[c]"] by simp
  next
    case False
    have a: "newest key (B @ [c]) = newest key B" "newest key (H @ B @ [c]) = newest key (H @ B)"
      using newest_append [of key "H @ B" "[c]"] newest_append [of key B "[c]"] n False by simp_all
    have "case m key of None \<Rightarrow> newest key B = None | Some p \<Rightarrow> \<exists>c. newest key (H @ B) = Some c \<and> stands_for p c"
      using assms(1) unfolding pend_ok_def by blast
    then show ?thesis using False a by (cases "m key") simp_all
  qed
qed

lemma pend_ok_drop:
  assumes "pend_ok m H B" "m key = Some p" "pk_rev p \<le> cur" "\<forall>c \<in> set B. cur < fst c"
  shows "pend_ok (m(key := None)) H B"
proof -
  have "case m key of None \<Rightarrow> newest key B = None | Some p \<Rightarrow> \<exists>c. newest key (H @ B) = Some c \<and> stands_for p c"
    using assms(1) unfolding pend_ok_def by blast
  then obtain c where c: "newest key (H @ B) = Some c" "pk_rev p = fst c" using assms(2) by (auto simp: stands_for_def)
  have "newest key B = None"
  proof (rule ccontr)
    assume "newest key B \<noteq> None"
    then obtain d where d: "newest key B = Some d" by blast
    with c(1) newest_append [of key H B] have "d = c" by simp
    moreover have "cur < fst d" using newestD [OF d] assms(4) by blast
    ultimately show False using assms(3) c(2) by simp
  qed
  with assms(1) show ?thesis by (simp add: pend_ok_def)
qed

lemma pend_ok_applied:
  assumes "pend_ok m H (A @ B)"
  shows "pend_ok m (H @ A) B"
  unfolding pend_ok_def
proof
  fix key
  have "case m key of None \<Rightarrow> newest key (A @ B) = None | Some p \<Rightarrow> \<exists>c. newest key (H @ A @ B) = Some c \<and> stands_for p c"
    using assms unfolding pend_ok_def by blast
  then show "case m key of None \<Rightarrow> newest key B = None | Some p \<Rightarrow> \<exists>c. newest key ((H @ A) @ B) = Some c \<and> stands_for p c"
    using newest_append [of key A B] by (auto split: option.splits)
qed

subsection \<open>Changes of the specification\<close>

lemma change_keys [simp]: "r_key (snd (put_change key v l rv ex)) = key" "r_key (snd (del_change key rv kv)) = key"
  "fst (put_change key v l rv ex) = rv" "fst (del_change key rv kv) = rv"
  "r_delete (snd (put_change key v l rv ex)) = False" "r_delete (snd (del_change key rv kv)) = True"
  by (simp_all add: put_change_def del_change_def)

lemma cur_kvD:
  assumes "cur_kv key H = Some kv" "hist_ok rv H"
  shows "kv_Key kv = key" "0 < kv_CreateRevision kv" "kv_CreateRevision kv \<le> kv_Revision kv" "kv_Revision kv \<le> rv"
    "1 \<le> kv_Version kv" "kv_Version kv \<le> kv_Revision kv - kv_CreateRevision kv + 1" "kvVersion (Some kv) = kv_Version kv"
    "wrap64 (kv_Version kv + 1) = kv_Version kv + 1"
proof -
  obtain c where c: "newest key H = Some c" "\<not> r_delete (snd c)" "kv = change_kv c"
    using assms(1) by (auto simp: cur_kv_def live_def split: option.splits if_splits)
  have k: "kv_ok c" "fst c \<le> rv" "is_rev rv" "r_key (snd c) = key"
    using assms(2) newestD [OF c(1)] by (auto simp: hist_ok_def)
  show "kv_Key kv = key" "0 < kv_CreateRevision kv" "kv_CreateRevision kv \<le> kv_Revision kv" "kv_Revision kv \<le> rv"
    "1 \<le> kv_Version kv" "kv_Version kv \<le> kv_Revision kv - kv_CreateRevision kv + 1" "kvVersion (Some kv) = kv_Version kv"
    "wrap64 (kv_Version kv + 1) = kv_Version kv + 1"
    using c(2,3) k by (auto simp: kv_ok_def change_kv_def recordToKV_def recordVersion_def kvVersion_def is_rev_def max_i64_def intro!: wrap64_pos)
qed

lemma nextPutVersion_eq:
  "hist_ok rv H \<Longrightarrow> nextPutVersion (cur_kv key H) = (case cur_kv key H of None \<Rightarrow> 1 | Some kv \<Rightarrow> kv_Version kv + 1)"
  using cur_kvD(7,8) by (auto simp: nextPutVersion_def split: option.split)

lemma change_bounds:
  assumes "cur_kv key H = Some kv" "hist_ok rv H" "is_rev (rv + 1)"
  shows "kv_Revision kv \<noteq> 0" "is_i64 (kv_Revision kv)" "is_i64 (kv_CreateRevision kv)" "is_i64 (kv_Version kv)" "is_i64 (kv_Version kv + 1)"
    "wrap64 (kv_Revision kv - kv_CreateRevision kv + 1) = kv_Revision kv - kv_CreateRevision kv + 1"
    "wrap64 (kv_Revision kv - kv_CreateRevision kv + 1 + 1) = kv_Revision kv - kv_CreateRevision kv + 1 + 1"
proof -
  note k = cur_kvD(2-6) [OF assms(1,2)]
  have b: "rv < 9223372036854775806" using assms(3) by (simp add: is_rev_def max_i64_def)
  show "kv_Revision kv \<noteq> 0" using k by linarith
  show "is_i64 (kv_Revision kv)" "is_i64 (kv_CreateRevision kv)" "is_i64 (kv_Version kv)" "is_i64 (kv_Version kv + 1)"
    unfolding is_i64_def using k b by simp_all
  show "wrap64 (kv_Revision kv - kv_CreateRevision kv + 1) = kv_Revision kv - kv_CreateRevision kv + 1"
    "wrap64 (kv_Revision kv - kv_CreateRevision kv + 1 + 1) = kv_Revision kv - kv_CreateRevision kv + 1 + 1"
    by (rule wrap64_pos; use k b in linarith)+
qed

lemma put_change_ok:
  assumes "hist_ok rv H" "is_rev (rv + 1)" "length key < 2 ^ 32" "is_i64 lease"
  shows "record_ok (snd (put_change key value lease (rv + 1) (cur_kv key H)))" "kv_ok (put_change key value lease (rv + 1) (cur_kv key H))"
proof -
  have "record_ok (snd (put_change key value lease (rv + 1) (cur_kv key H))) \<and> kv_ok (put_change key value lease (rv + 1) (cur_kv key H))"
  proof (cases "cur_kv key H")
    case None
    have "0 \<le> rv" using assms(1) by (simp add: hist_ok_def is_rev_def)
    then show ?thesis using assms(3,4) is_revD(1) [OF assms(2)] None
      by (simp add: put_change_def record_ok_def kv_ok_def versionRecordHeaderLooksValid_def is_i64_def)
  next
    case (Some kv)
    note k = cur_kvD(2-6) [OF Some assms(1)] and b = change_bounds [OF Some assms(1,2)]
    have r: "snd (put_change key value lease (rv + 1) (cur_kv key H)) = \<lparr>r_key = key, r_value = value, r_createRevision = kv_CreateRevision kv,
        r_prevRevision = kv_Revision kv, r_version = kv_Version kv + 1, r_lease = lease, r_create = False, r_delete = False\<rparr>"
      by (simp add: put_change_def Some)
    have "record_ok (snd (put_change key value lease (rv + 1) (cur_kv key H)))"
      unfolding r record_ok_def versionRecordHeaderLooksValid_def Let_def using b assms(3,4) k by simp
    moreover have "kv_ok (put_change key value lease (rv + 1) (cur_kv key H))" unfolding kv_ok_def r using k by simp
    ultimately show ?thesis by blast
  qed
  then show "record_ok (snd (put_change key value lease (rv + 1) (cur_kv key H)))" "kv_ok (put_change key value lease (rv + 1) (cur_kv key H))"
    by blast+
qed

lemma del_change_ok:
  assumes "hist_ok rv H" "is_rev (rv + 1)" "length key < 2 ^ 32" "cur_kv key H = Some kv"
  shows "record_ok (snd (del_change key (rv + 1) kv))" "kv_ok (del_change key (rv + 1) kv)"
proof -
  note k = cur_kvD(2-6) [OF assms(4,1)] and b = change_bounds [OF assms(4,1,2)]
  have z: "is_i64 0" by (simp add: is_i64_def)
  show "record_ok (snd (del_change key (rv + 1) kv))"
    unfolding del_change_def record_ok_def versionRecordHeaderLooksValid_def Let_def using b assms(3) k z by simp
  show "kv_ok (del_change key (rv + 1) kv)" by (simp add: kv_ok_def del_change_def)
qed

lemma hist_ok_append:
  "hist_ok rv H \<Longrightarrow> is_rev (rv + 1) \<Longrightarrow> \<forall>c \<in> set cs. kv_ok c \<and> fst c = rv + 1 \<Longrightarrow> hist_ok (if cs = [] then rv else rv + 1) (H @ cs)"
  by (auto simp: hist_ok_def)

section \<open>Operations preserve the invariant\<close>

text \<open>Queueing an entry whose changes are \<open>cs\<close>, with the optimistic state updated to \<open>m\<close>.\<close>

definition queued :: "entry \<Rightarrow> (gostring \<rightharpoonup> pendingkv) \<Rightarrow> ('db, 'w) node \<Rightarrow> ('db, 'w) node" where
  "queued e m n = n\<lparr>n_nextRev := (if e_Op e = OpCompact then n_nextRev n else n_nextRev n + 1), n_nextSeq := n_nextSeq n + 1,
     n_pending := m, n_writeC := n_writeC n @ [\<lparr>wr_id = n_nextReq n, wr_entry = e\<rparr>], n_nextReq := Suc (n_nextReq n)\<rparr>"

lemma node_invD:
  assumes "node_inv contents H ph n"
  shows "store_inv contents (n_db n) H" "entries_ok (s_currentRev (n_db n)) (s_compactRev (n_db n)) (s_lastSeq (n_db n)) (backlog ph n)"
    "plain_compacts (backlog ph n)" "hist_ok (n_nextRev n) (H @ chg (backlog ph n))" "pend_ok (n_pending n) H (chg (backlog ph n))"
    "n_nextRev n = last_rev (s_currentRev (n_db n)) (backlog ph n)" "n_nextSeq n = last_seq (s_lastSeq (n_db n)) (backlog ph n)"
    "map Sequence (backlog ph n) = [s_lastSeq (n_db n) + 1..n_nextSeq n]" "phase_ok ph (s_currentRev (n_db n))"
    "\<not> n_closed n" "n_role n \<noteq> roleFollower"
  using assms unfolding node_inv_def store_entries_ok_def by blast+

lemma node_inv_bounds:
  assumes "node_inv contents H ph n"
  shows "hist_ok (n_nextRev n) (H @ chg (backlog ph n))" "is_rev (n_nextRev n)" "n_nextRev n \<le> n_nextSeq n" "0 \<le> n_nextRev n"
proof -
  let ?s = "n_db n"
  note i = node_invD [OF assms]
  have c: "s_currentRev ?s \<le> s_lastSeq ?s" using i(1) by (simp add: store_inv_def)
  show h: "hist_ok (n_nextRev n) (H @ chg (backlog ph n))" by (rule i(4))
  then show "is_rev (n_nextRev n)" by (simp add: hist_ok_def)
  then show "0 \<le> n_nextRev n" by (rule is_revD(4))
  show "n_nextRev n \<le> n_nextSeq n" using entries_ok_bounds [OF i(2)] c unfolding i(6,7) by blast
qed

lemma queued_inv:
  assumes "node_inv contents H ph n" "is_rev (n_nextSeq n + 1)" "e_ID e = n_nextSeq n + 1"
    and "if e_Op e = OpCompact then last_compact (s_compactRev (n_db n)) (backlog ph n) \<le> e_PrevRevision e \<and> is_rev (e_PrevRevision e) \<and> e_Key e = []
         else apply_ok (n_nextRev n) e \<and> e_Revision e = n_nextRev n + 1 \<and> entry_changes e \<noteq> [] \<and> (\<forall>c \<in> set (entry_changes e). kv_ok c)"
    and "pend_ok m H (chg (backlog ph n) @ entry_changes e)"
  shows "node_inv contents H ph (queued e m n)"
proof -
  let ?bl = "backlog ph n" and ?s = "n_db n"
  note b = node_inv_bounds [OF assms(1)]
  note i = node_invD(2,3,6,7,8) [OF assms(1)]
  have q: "Sequence e = n_nextSeq n + 1" using assms(3) b(3,4) by (simp add: Sequence_def)
  have bl: "backlog ph (queued e m n) = ?bl @ [e]" by (simp add: backlog_def queued_def)
  have le: "s_lastSeq ?s \<le> n_nextSeq n" using entries_ok_bounds [OF i(1)] i(4) by simp
  have e: "entries_ok (s_currentRev ?s) (s_compactRev ?s) (s_lastSeq ?s) (?bl @ [e])"
    using i assms(2,4) q b(3) by (auto simp: entries_ok_append split: if_splits)
  have r: "last_rev (s_currentRev ?s) (?bl @ [e]) = (if e_Op e = OpCompact then n_nextRev n else n_nextRev n + 1)"
    using i(3) assms(4) by (simp add: last_append_simps split: if_splits)
  have h: "hist_ok (if e_Op e = OpCompact then n_nextRev n else n_nextRev n + 1) (H @ chg ?bl @ entry_changes e)"
  proof (cases "e_Op e = OpCompact")
    case True
    then show ?thesis using b(1) by (simp add: entry_changes_def)
  next
    case False
    then have a: "is_rev (n_nextRev n + 1)" "\<forall>c \<in> set (entry_changes e). kv_ok c \<and> fst c = n_nextRev n + 1" "entry_changes e \<noteq> []"
      using assms(4) one_entry_revs by (auto simp: apply_ok_def)
    from hist_ok_append [OF b(1) a(1,2)] a(3) False show ?thesis by simp
  qed
  have u: "[s_lastSeq ?s + 1..n_nextSeq n + 1] = [s_lastSeq ?s + 1..n_nextSeq n] @ [n_nextSeq n + 1]"
    using upto_rec2 [of "s_lastSeq ?s + 1" "n_nextSeq n + 1"] le by simp
  have f: "n_db (queued e m n) = ?s" "n_pending (queued e m n) = m" "n_nextSeq (queued e m n) = n_nextSeq n + 1"
    "n_nextRev (queued e m n) = (if e_Op e = OpCompact then n_nextRev n else n_nextRev n + 1)"
    "n_closed (queued e m n) = n_closed n" "n_role (queued e m n) = n_role n"
    by (simp_all add: queued_def)
  have p: "plain_compacts (?bl @ [e])" using i(2) assms(4) by (auto simp: plain_compacts_def split: if_splits)
  have c: "chg (?bl @ [e]) = chg ?bl @ entry_changes e" by simp
  have sq: "n_nextSeq n + 1 = last_seq (s_lastSeq ?s) (?bl @ [e])" using q by (simp add: last_seq_def)
  have mp: "map Sequence (?bl @ [e]) = [s_lastSeq ?s + 1..n_nextSeq n + 1]" using i(5) q u by simp
  show ?thesis
    unfolding node_inv_def bl f store_entries_ok_def c r
    by (intro conjI refl node_invD(1,9-11) [OF assms(1)] e p h assms(5) sq mp)
qed

text \<open>One change: the entry \<open>e\<close> and the optimistic state \<open>p\<close> stand for the change \<open>c\<close>.\<close>

lemma change_inv:
  assumes "node_inv contents H ph n" "is_rev (n_nextSeq n + 1)" "e_ID e = n_nextSeq n + 1" "e_Op e \<noteq> OpCompact" "e_Op e \<noteq> OpTxn"
    and "entry_record e = snd c" "e_Revision e = fst c" "fst c = n_nextRev n + 1" "record_ok (snd c)" "kv_ok c" "stands_for p c"
  shows "node_inv contents H ph (queued e ((n_pending n)(r_key (snd c) \<mapsto> p)) n)" "entry_changes e = [c]"
proof -
  note b = node_inv_bounds [OF assms(1)]
  show c: "entry_changes e = [c]" using assms(4-8) by (cases c) (simp add: entry_changes_def)
  have "is_rev (n_nextRev n + 1)" using assms(2) b(3,4) by (simp add: is_rev_def)
  then have "apply_ok (n_nextRev n) e" using assms(5-9) by (simp add: apply_ok_def)
  then show "node_inv contents H ph (queued e ((n_pending n)(r_key (snd c) \<mapsto> p)) n)"
    using assms(4,7,8,10) c pend_ok_put [OF node_invD(5) [OF assms(1)] assms(11)] by (intro queued_inv [OF assms(1-3)]) simp_all
qed

lemma next_ids_eq:
  assumes "node_inv contents H ph n" "is_rev (n_nextSeq n + 1)"
  shows "next_ids n = n\<lparr>n_nextRev := n_nextRev n + 1, n_nextSeq := n_nextSeq n + 1\<rparr>" "is_rev (n_nextRev n + 1)"
    "wrap64 (n_nextSeq n + 1) = n_nextSeq n + 1"
proof -
  note b = node_inv_bounds [OF assms(1)]
  have s: "0 \<le> n_nextSeq n" "n_nextSeq n + 1 < 9223372036854775807" "0 \<le> n_nextRev n" "n_nextRev n \<le> n_nextSeq n"
    using b assms(2) by (auto simp: is_rev_def max_i64_def)
  then show "next_ids n = n\<lparr>n_nextRev := n_nextRev n + 1, n_nextSeq := n_nextSeq n + 1\<rparr>" "wrap64 (n_nextSeq n + 1) = n_nextSeq n + 1"
    by (simp_all add: next_ids_def wrap64_pos)
  show "is_rev (n_nextRev n + 1)" using s by (simp add: is_rev_def max_i64_def)
qed

lemma submit_queued:
  assumes "e_Op e \<noteq> OpCompact"
  shows "snd (submit e key k (n\<lparr>n_nextRev := n_nextRev n + 1, n_nextSeq := n_nextSeq n + 1, n_pending := m\<rparr>)) = queued e m n"
  using assms by (simp add: submit_def newWriteReq_def queued_def Let_def)

lemma put_stands_for:
  assumes "hist_ok rv H"
  shows "stands_for \<lparr>pk_rev = rv + 1, pk_deleted = False, pk_kv = Some \<lparr>kv_Key = key, kv_Value = value, kv_Revision = rv + 1,
      kv_CreateRevision = (case cur_kv key H of None \<Rightarrow> rv + 1 | Some kv \<Rightarrow> kv_CreateRevision kv),
      kv_PrevRevision = (case cur_kv key H of None \<Rightarrow> 0 | Some kv \<Rightarrow> kv_Revision kv),
      kv_Version = (case cur_kv key H of None \<Rightarrow> 1 | Some kv \<Rightarrow> kv_Version kv + 1), kv_Lease = lease\<rparr>\<rparr>
    (put_change key value lease (rv + 1) (cur_kv key H))"
proof (cases "cur_kv key H")
  case (Some kv)
  then show ?thesis using cur_kvD(5) [OF Some assms]
    by (simp add: stands_for_def put_change_def change_kv_def recordToKV_def recordVersion_def)
qed (simp add: stands_for_def put_change_def change_kv_def recordToKV_def recordVersion_def)

lemma del_stands_for: "stands_for \<lparr>pk_rev = rv, pk_deleted = True, pk_kv = None\<rparr> (del_change key rv kv)"
  by (simp add: stands_for_def)

lemma op_not_special [simp]: "OpCreate \<noteq> OpCompact" "OpUpdate \<noteq> OpCompact" "OpDelete \<noteq> OpCompact" "OpTxn \<noteq> OpCompact"
  "OpCreate \<noteq> OpTxn" "OpUpdate \<noteq> OpTxn" "OpDelete \<noteq> OpTxn" "OpCreate \<noteq> OpDelete" "OpUpdate \<noteq> OpDelete" "OpCreate \<noteq> OpUpdate"
  "OpUpdate \<noteq> OpCreate" "OpDelete \<noteq> OpCreate" "OpTxn \<noteq> 0"
  by (simp_all add: op_defs)

context pebble_db
begin

lemma readKey_inv:
  assumes "node_inv contents H ph n" "healthy (s_db (n_db n))"
  shows "readKey P key n = Inr (cur_kv key (H @ chg (backlog ph n)))"
proof -
  note i = node_invD [OF assms(1)]
  have r: "represents (contents (s_db (n_db n))) (s_compactRev (n_db n)) (s_currentRev (n_db n)) H" "is_rev (s_currentRev (n_db n))"
    "is_rev (s_compactRev (n_db n))" using i(1) by (simp_all add: store_inv_def)
  have p: "case n_pending n key of None \<Rightarrow> newest key (chg (backlog ph n)) = None
    | Some p \<Rightarrow> \<exists>c. newest key (H @ chg (backlog ph n)) = Some c \<and> stands_for p c"
    using i(5) unfolding pend_ok_def by blast
  show ?thesis
  proof (cases "n_pending n key")
    case None
    have u: "up_to (s_currentRev (n_db n)) H = H" using representsD(7) [OF r(1)] by (intro up_to_all) blast
    have "store_Get P key (n_db n) = Inr (value_at key (s_currentRev (n_db n)) H)"
      by (rule Get_represents [OF assms(2) r(1,2)])
    with None p u newest_append [of key H "chg (backlog ph n)"] show ?thesis
      by (simp add: readKey_def cur_kv_def value_at_def)
  next
    case (Some q)
    with p obtain c where "newest key (H @ chg (backlog ph n)) = Some c" "stands_for q c" by auto
    with Some show ?thesis by (cases c) (auto simp: readKey_def cur_kv_def live_def stands_for_def)
  qed
qed

end

subsection \<open>Single-key operations\<close>

text \<open>What a step of the node must show: the invariant with the specification's changes appended to the backlog.\<close>

definition steps_to :: "('db \<Rightarrow> (bytes \<times> bytes) list) \<Rightarrow> change list \<Rightarrow> phase \<Rightarrow> ('db, 'w) node \<Rightarrow> change list \<Rightarrow> ('db, 'w) node \<Rightarrow> bool" where
  "steps_to contents H ph n cs n' \<longleftrightarrow> node_inv contents H ph n' \<and> chg (backlog ph n') = chg (backlog ph n) @ cs \<and>
     n_nextRev n' = (if cs = [] then n_nextRev n else n_nextRev n + 1) \<and> n_db n' = n_db n"

context pebble_db
begin

lemma steps_refl: "node_inv contents H ph n \<Longrightarrow> steps_to contents H ph n [] n"
  by (simp add: steps_to_def)

lemma change_steps:
  assumes "node_inv contents H ph n" "is_rev (n_nextSeq n + 1)" "e_ID e = n_nextSeq n + 1" "e_Op e \<noteq> OpCompact" "e_Op e \<noteq> OpTxn"
    and "entry_record e = snd c" "e_Revision e = fst c" "fst c = n_nextRev n + 1" "record_ok (snd c)" "kv_ok c" "stands_for p c"
    and "r_key (snd c) = key"
  shows "steps_to contents H ph n [c] (queued e ((n_pending n)(key \<mapsto> p)) n)"
proof -
  note c = change_inv [OF assms(1-11)]
  show ?thesis using c assms(4,12) by (simp add: steps_to_def) (simp add: backlog_def queued_def)
qed

lemma put_steps:
  assumes "node_inv contents H ph n" "healthy (s_db (n_db n))" "is_rev (n_nextSeq n + 1)" "length key < 2 ^ 32" "is_i64 lease"
  shows "steps_to contents H ph n [put_change key value lease (n_nextRev n + 1) (cur_kv key (H @ chg (backlog ph n)))] (snd (node_Put P call key value lease n))"
proof -
  let ?V = "H @ chg (backlog ph n)" and ?R = "n_nextRev n"
  let ?x = "cur_kv key ?V"
  note i = node_invD [OF assms(1)] and d = next_ids_eq [OF assms(1,3)]
  note v = nextPutVersion_eq [OF i(4), of key]
  let ?e = "\<lparr>e_ID = n_nextSeq n + 1, e_Revision = ?R + 1, e_Term = n_term n, e_Op = (if ?x = None then OpCreate else OpUpdate), e_Key = key,
    e_Value = value, e_Lease = lease, e_CreateRevision = (case ?x of None \<Rightarrow> ?R + 1 | Some kv \<Rightarrow> kv_CreateRevision kv),
    e_PrevRevision = (case ?x of None \<Rightarrow> 0 | Some kv \<Rightarrow> kv_Revision kv), e_Version = nextPutVersion ?x\<rparr>"
  let ?p = "\<lparr>pk_rev = ?R + 1, pk_deleted = False, pk_kv = Some \<lparr>kv_Key = key, kv_Value = value, kv_Revision = ?R + 1,
      kv_CreateRevision = (case ?x of None \<Rightarrow> ?R + 1 | Some kv \<Rightarrow> kv_CreateRevision kv),
      kv_PrevRevision = (case ?x of None \<Rightarrow> 0 | Some kv \<Rightarrow> kv_Revision kv), kv_Version = nextPutVersion ?x, kv_Lease = lease\<rparr>\<rparr>"
  let ?c = "put_change key value lease (?R + 1) ?x"
  have n: "snd (node_Put P call key value lease n) = queued ?e ((n_pending n)(key \<mapsto> ?p)) n"
  proof -
    have "e_Op ?e \<noteq> OpCompact" by simp
    note q = submit_queued [OF this, where n = n and key = key and k = "\<lambda>rv. rv" and m = "(n_pending n)(key \<mapsto> ?p)"]
    show ?thesis unfolding q [symmetric] using i(10,11)
      by (simp add: node_Put_def preparePut_def set_pending_def Let_def readKey_inv [OF assms(1,2)] d(1) split del: if_split cong: option.case_cong)
  qed
  have "0 < nextPutVersion ?x" using v cur_kvD(5) [OF _ i(4)] by (cases ?x) force+
  then have e: "entry_record ?e = snd ?c" using v by (simp add: entry_record_def put_change_def entryVersion_def split: option.split)
  show ?thesis unfolding n
    by (rule change_steps [OF assms(1,3) _ _ _ e])
      (use put_change_ok [OF i(4) d(2) assms(4,5)] put_stands_for [OF i(4)] v in auto)
qed

end

context pebble_db
begin

lemma create_steps:
  assumes "node_inv contents H ph n" "healthy (s_db (n_db n))" "is_rev (n_nextSeq n + 1)" "length key < 2 ^ 32" "is_i64 lease"
    and "cur_kv key (H @ chg (backlog ph n)) = None"
  shows "steps_to contents H ph n [put_change key value lease (n_nextRev n + 1) None] (snd (node_Create P call key value lease n))"
proof -
  let ?R = "n_nextRev n"
  note i = node_invD [OF assms(1)] and d = next_ids_eq [OF assms(1,3)]
  let ?e = "entry0\<lparr>e_ID := n_nextSeq n + 1, e_Revision := ?R + 1, e_Term := n_term n, e_Op := OpCreate, e_Key := key,
    e_Value := value, e_Lease := lease, e_CreateRevision := ?R + 1, e_Version := 1\<rparr>"
  let ?p = "\<lparr>pk_rev = ?R + 1, pk_deleted = False, pk_kv = Some \<lparr>kv_Key = key, kv_Value = value, kv_Revision = ?R + 1,
    kv_CreateRevision = ?R + 1, kv_PrevRevision = 0, kv_Version = 1, kv_Lease = lease\<rparr>\<rparr>"
  have "e_Op ?e \<noteq> OpCompact" by simp
  note q = submit_queued [OF this, where n = n and key = key and k = "\<lambda>rv. rv" and m = "(n_pending n)(key \<mapsto> ?p)"]
  have n: "snd (node_Create P call key value lease n) = queued ?e ((n_pending n)(key \<mapsto> ?p)) n"
    unfolding q [symmetric] using i(10,11)
    by (simp add: node_Create_def set_pending_def Let_def readKey_inv [OF assms(1,2)] assms(6) d(1))
  show ?thesis unfolding n
    by (rule change_steps [OF assms(1,3)])
      (use put_change_ok [OF i(4) d(2) assms(4,5), of "value"] put_stands_for [OF i(4), of key "value" lease] assms(6)
        in \<open>simp_all add: entry_record_def put_change_def entryVersion_def entry0_def\<close>)
qed

lemma update_steps:
  assumes "node_inv contents H ph n" "healthy (s_db (n_db n))" "is_rev (n_nextSeq n + 1)" "length key < 2 ^ 32" "is_i64 lease"
    and "cur_kv key (H @ chg (backlog ph n)) = Some kv"
  shows "steps_to contents H ph n [put_change key value lease (n_nextRev n + 1) (Some kv)]
    (snd (node_Update P call key value (kv_Revision kv) lease n))"
proof -
  let ?R = "n_nextRev n"
  note i = node_invD [OF assms(1)] and d = next_ids_eq [OF assms(1,3)]
  note k = cur_kvD [OF assms(6) i(4)]
  let ?e = "\<lparr>e_ID = n_nextSeq n + 1, e_Revision = ?R + 1, e_Term = n_term n, e_Op = OpUpdate, e_Key = key, e_Value = value, e_Lease = lease,
    e_CreateRevision = kv_CreateRevision kv, e_PrevRevision = kv_Revision kv, e_Version = kv_Version kv + 1\<rparr>"
  let ?p = "\<lparr>pk_rev = ?R + 1, pk_deleted = False, pk_kv = Some \<lparr>kv_Key = key, kv_Value = value, kv_Revision = ?R + 1,
    kv_CreateRevision = kv_CreateRevision kv, kv_PrevRevision = kv_Revision kv, kv_Version = kv_Version kv + 1, kv_Lease = lease\<rparr>\<rparr>"
  have "e_Op ?e \<noteq> OpCompact" by simp
  note q = submit_queued [OF this, where n = n and key = key and k = "\<lambda>rv. (rv, Some kv, True)" and m = "(n_pending n)(key \<mapsto> ?p)"]
  have n: "snd (node_Update P call key value (kv_Revision kv) lease n) = queued ?e ((n_pending n)(key \<mapsto> ?p)) n"
    unfolding q [symmetric] using i(10,11) k(7,8)
    by (simp add: node_Update_def set_pending_def Let_def readKey_inv [OF assms(1,2)] assms(6) d(1))
  show ?thesis unfolding n
    by (rule change_steps [OF assms(1,3)])
      (use put_change_ok [OF i(4) d(2) assms(4,5), of "value"] put_stands_for [OF i(4), of key "value" lease] assms(6) k(5)
        in \<open>simp_all add: entry_record_def put_change_def entryVersion_def\<close>)
qed

lemma prepareDelete_queued:
  assumes "node_inv contents H ph n" "healthy (s_db (n_db n))" "is_rev (n_nextSeq n + 1)" "length key < 2 ^ 32" "key \<noteq> []"
    and "cur_kv key (H @ chg (backlog ph n)) = Some kv"
  obtains e m where "prepareDelete P key n = (Inr e, n\<lparr>n_nextRev := n_nextRev n + 1, n_nextSeq := n_nextSeq n + 1, n_pending := m\<rparr>)"
    "e_Key e = key" "e_Op e \<noteq> OpCompact" "steps_to contents H ph n [del_change key (n_nextRev n + 1) kv] (queued e m n)"
proof -
  let ?R = "n_nextRev n"
  note i = node_invD [OF assms(1)] and d = next_ids_eq [OF assms(1,3)]
  note k = cur_kvD [OF assms(6) i(4)]
  let ?e = "entry0\<lparr>e_ID := n_nextSeq n + 1, e_Revision := ?R + 1, e_Term := n_term n, e_Op := OpDelete, e_Key := key,
    e_CreateRevision := kv_CreateRevision kv, e_PrevRevision := kv_Revision kv, e_Version := kv_Version kv\<rparr>"
  let ?m = "(n_pending n)(key \<mapsto> \<lparr>pk_rev = ?R + 1, pk_deleted = True, pk_kv = None\<rparr>)"
  let ?n = "n\<lparr>n_nextRev := ?R + 1, n_nextSeq := n_nextSeq n + 1, n_pending := ?m\<rparr>"
  have p: "prepareDelete P key n = (Inr ?e, ?n)"
    using k(7) by (simp add: prepareDelete_def readKey_inv [OF assms(1,2)] assms(6) d(1) set_pending_def Let_def)
  have "steps_to contents H ph n [del_change key (?R + 1) kv] (queued ?e ?m n)"
    by (rule change_steps [OF assms(1,3)])
      (use del_change_ok [OF i(4) d(2) assms(4,6)] k(5) del_stands_for in \<open>simp_all add: entry_record_def del_change_def entryVersion_def entry0_def\<close>)
  then show ?thesis by (intro that [OF p]) simp_all
qed

end

context pebble_db
begin

lemma delete_steps:
  assumes "node_inv contents H ph n" "healthy (s_db (n_db n))" "is_rev (n_nextSeq n + 1)" "length key < 2 ^ 32" "key \<noteq> []"
    and "cur_kv key (H @ chg (backlog ph n)) = Some kv"
  shows "steps_to contents H ph n [del_change key (n_nextRev n + 1) kv] (snd (node_Delete P call key n))"
    and "revision = 0 \<or> kv_Revision kv = revision \<Longrightarrow>
      steps_to contents H ph n [del_change key (n_nextRev n + 1) kv] (snd (node_DeleteIfRevision P call key revision n))"
proof -
  note i = node_invD(10,11) [OF assms(1)] and r = readKey_inv [OF assms(1,2)]
  obtain e m where p: "prepareDelete P key n = (Inr e, n\<lparr>n_nextRev := n_nextRev n + 1, n_nextSeq := n_nextSeq n + 1, n_pending := m\<rparr>)"
    "e_Key e = key" "e_Op e \<noteq> OpCompact" "steps_to contents H ph n [del_change key (n_nextRev n + 1) kv] (queued e m n)"
    by (rule prepareDelete_queued [OF assms])
  show "steps_to contents H ph n [del_change key (n_nextRev n + 1) kv] (snd (node_Delete P call key n))"
    using i p assms(5) by (simp add: node_Delete_def submit_queued)
  show "steps_to contents H ph n [del_change key (n_nextRev n + 1) kv] (snd (node_DeleteIfRevision P call key revision n))"
    if "revision = 0 \<or> kv_Revision kv = revision"
    using that i p assms(5,6) by (auto simp: node_DeleteIfRevision_def r submit_queued)
qed

lemma compact_steps:
  assumes "node_inv contents H ph n" "is_rev (n_nextSeq n + 1)"
    and "last_compact (s_compactRev (n_db n)) (backlog ph n) \<le> revision" "is_rev revision"
  shows "steps_to contents H ph n [] (snd (node_Compact call revision n))"
proof -
  note i = node_invD [OF assms(1)] and d = next_ids_eq [OF assms(1,2)]
  let ?e = "entry0\<lparr>e_ID := n_nextSeq n + 1, e_Revision := n_nextRev n, e_Term := n_term n, e_Op := OpCompact, e_PrevRevision := revision\<rparr>"
  have n: "snd (node_Compact call revision n) = queued ?e (n_pending n) n"
    using i(10,11) d(3) by (simp add: node_Compact_def submit_def newWriteReq_def queued_def Let_def)
  have c: "entry_changes ?e = []" by (simp add: entry_changes_def)
  have "node_inv contents H ph (queued ?e (n_pending n) n)"
    by (rule queued_inv [OF assms(1,2)]) (use assms(3,4) i(5) c in \<open>simp_all add: entry0_def\<close>)
  then show ?thesis unfolding n using c by (simp add: steps_to_def) (simp add: backlog_def queued_def)
qed

end

subsection \<open>Transactions\<close>

definition rchange :: "int \<Rightarrow> resolvedop \<Rightarrow> change" where
  "rchange rv r = (rv, subop_record (sub_op rv r))"

lemma rchange_simps [simp]: "fst (rchange rv r) = rv" "r_key (snd (rchange rv r)) = rs_key r"
  "r_delete (snd (rchange rv r)) = (rs_walOp r = OpDelete)"
  by (simp_all add: rchange_def sub_op_def)

lemma resolve_op_changes:
  assumes "hist_ok rv H"
  shows "map (rchange (rv + 1)) (filter (\<lambda>r. \<not> rs_skip r) (resolve_op op (cur_kv (to_Key op) H))) = op_changes (rv + 1) H op"
    and "r \<in> set (filter (\<lambda>r. \<not> rs_skip r) (resolve_op op (cur_kv (to_Key op) H))) \<Longrightarrow> 0 < rs_version r"
proof -
  let ?x = "cur_kv (to_Key op) H"
  show "map (rchange (rv + 1)) (filter (\<lambda>r. \<not> rs_skip r) (resolve_op op ?x)) = op_changes (rv + 1) H op"
  proof (cases ?x)
    case None
    then show ?thesis
      by (simp add: resolve_op_def op_changes_def rchange_def put_change_def sub_op_def subop_record_def entryVersion_def resolved0_def)
  next
    case (Some kv)
    show ?thesis using cur_kvD(5,7,8) [OF Some assms] Some
      by (simp add: resolve_op_def op_changes_def rchange_def put_change_def del_change_def sub_op_def subop_record_def entryVersion_def resolved0_def)
  qed
  show "0 < rs_version r" if "r \<in> set (filter (\<lambda>r. \<not> rs_skip r) (resolve_op op ?x))"
  proof (cases ?x)
    case None
    then show ?thesis using that by (auto simp: resolve_op_def resolved0_def split: if_splits)
  next
    case (Some kv)
    show ?thesis using that cur_kvD(5,7,8) [OF Some assms] Some by (auto simp: resolve_op_def resolved0_def split: if_splits)
  qed
qed

lemma op_changes_ok:
  assumes "hist_ok rv H" "is_rev (rv + 1)" "txnop_ok op" "c \<in> set (op_changes (rv + 1) H op)"
  shows "record_ok (snd c)" "kv_ok c" "fst c = rv + 1" "length (r_value (snd c)) < 2 ^ 32"
proof -
  have o: "length (to_Key op) < 2 ^ 32" "is_i64 (to_Lease op)" "length (to_Value op) < 2 ^ 32" using assms(3) by (simp_all add: txnop_ok_def)
  have "c = put_change (to_Key op) (to_Value op) (to_Lease op) (rv + 1) (cur_kv (to_Key op) H) \<or>
      (\<exists>kv. cur_kv (to_Key op) H = Some kv \<and> c = del_change (to_Key op) (rv + 1) kv)"
  proof (cases "to_Type op = TxnPut")
    case True
    then show ?thesis using assms(4) by (simp add: op_changes_def)
  next
    case False
    then show ?thesis using assms(4) by (cases "cur_kv (to_Key op) H"; cases "to_Type op = TxnDelete") (simp_all add: op_changes_def)
  qed
  then consider (put) "c = put_change (to_Key op) (to_Value op) (to_Lease op) (rv + 1) (cur_kv (to_Key op) H)"
    | (del) kv where "cur_kv (to_Key op) H = Some kv" "c = del_change (to_Key op) (rv + 1) kv" by blast
  then have "record_ok (snd c) \<and> kv_ok c \<and> fst c = rv + 1 \<and> length (r_value (snd c)) < 2 ^ 32"
  proof cases
    case put
    show ?thesis unfolding put using put_change_ok [OF assms(1,2) o(1,2)] o(3) by (simp add: put_change_def)
  next
    case del
    show ?thesis unfolding del(2) using del_change_ok [OF assms(1,2) o(1) del(1)] by (simp add: del_change_def)
  qed
  then show "record_ok (snd c)" "kv_ok c" "fst c = rv + 1" "length (r_value (snd c)) < 2 ^ 32" by blast+
qed

lemma sub_op_ok:
  assumes "record_ok (snd (rchange rv r))" "0 < rs_version r" "length (r_value (snd (rchange rv r))) < 2 ^ 32"
  shows "subop_ok (sub_op rv r)" "stands_for (sub_pending rv r) (rchange rv r)"
proof -
  show "subop_ok (sub_op rv r)"
    using assms by (simp add: record_ok_def rchange_def subop_record_def subop_ok_def entryVersion_def sub_op_def)
  show "stands_for (sub_pending rv r) (rchange rv r)"
    using assms(2) by (simp add: stands_for_def sub_pending_def rchange_def change_kv_def recordToKV_def recordVersion_def
        sub_op_def subop_record_def entryVersion_def)
qed

lemma fold_set_pending:
  "fold (\<lambda>r. set_pending (f r) (g r)) rs n = n\<lparr>n_pending := fold (\<lambda>r m. m(f r \<mapsto> g r)) rs (n_pending n)\<rparr>"
  by (induction rs arbitrary: n) (simp_all add: set_pending_def)

lemma pend_ok_fold:
  "pend_ok m H B \<Longrightarrow> \<forall>r \<in> set rs. stands_for (g r) (c r) \<and> r_key (snd (c r)) = f r \<Longrightarrow>
     pend_ok (fold (\<lambda>r m. m(f r \<mapsto> g r)) rs m) H (B @ map c rs)"
proof (induction rs arbitrary: m B)
  case (Cons r rs)
  have "pend_ok (m(f r \<mapsto> g r)) H (B @ [c r])" using pend_ok_put [OF Cons.prems(1), of "g r" "c r"] Cons.prems(2) by simp
  from Cons.IH [OF this] Cons.prems(2) show ?case by simp
qed simp

context pebble_db
begin

lemma txn_conds_eq:
  assumes "node_inv contents H ph n" "healthy (s_db (n_db n))"
  shows "txn_conds P conds n = Inr (list_all (\<lambda>c. txnCondMatches c (cur_kv (tc_Key c) (H @ chg (backlog ph n)))) conds)"
  by (induction conds) (simp_all add: readKey_inv [OF assms])

lemma resolve_ops_eq:
  assumes "node_inv contents H ph n" "healthy (s_db (n_db n))"
  shows "resolve_ops P ops n = Inr (concat (map (\<lambda>op. resolve_op op (cur_kv (to_Key op) (H @ chg (backlog ph n)))) ops))"
  by (induction ops) (simp_all add: readKey_inv [OF assms])

lemma txn_entry_inv:
  assumes "node_inv contents H ph n" "is_rev (n_nextSeq n + 1)" "active \<noteq> []" "length active \<le> 65535" "distinct (map rs_key active)"
    and "\<forall>r \<in> set active. 0 < rs_version r \<and> record_ok (snd (rchange (n_nextRev n + 1) r)) \<and> kv_ok (rchange (n_nextRev n + 1) r) \<and>
      length (r_value (snd (rchange (n_nextRev n + 1) r))) < 2 ^ 32"
  shows "steps_to contents H ph n (map (rchange (n_nextRev n + 1)) active)
    (queued (entry0\<lparr>e_ID := n_nextSeq n + 1, e_Revision := n_nextRev n + 1, e_Term := t, e_Op := OpTxn,
       e_Value := EncodeTxnOps (map (sub_op (n_nextRev n + 1)) active)\<rparr>)
      (fold (\<lambda>r m. m(rs_key r \<mapsto> sub_pending (n_nextRev n + 1) r)) active (n_pending n)) n)"
    (is "steps_to _ _ _ _ ?cs (queued ?e ?m n)")
proof -
  let ?R = "n_nextRev n + 1"
  let ?ops = "map (sub_op ?R) active"
  note i = node_invD [OF assms(1)] and d = next_ids_eq [OF assms(1,2)]
  have s: "\<forall>r \<in> set active. subop_ok (sub_op ?R r) \<and> stands_for (sub_pending ?R r) (rchange ?R r)"
    using assms(6) sub_op_ok by blast
  have x: "DecodeTxnOps (EncodeTxnOps ?ops) = Inr ?ops"
    by (rule DecodeTxnOps_EncodeTxnOps) (use s assms(4) in auto)
  have c: "entry_changes ?e = ?cs" by (simp add: entry_changes_def x rchange_def)
  have k: "map so_Key ?ops = map rs_key active" by (simp add: sub_op_def)
  have "subops_ok ?ops" unfolding subops_ok_def k using assms(4-6) by (auto simp: list_all_iff rchange_def)
  then have a: "apply_ok (n_nextRev n) ?e" using x d(2) by (simp add: apply_ok_def)
  have "node_inv contents H ph (queued ?e ?m n)"
  proof (rule queued_inv [OF assms(1,2)])
    show "if e_Op ?e = OpCompact then last_compact (s_compactRev (n_db n)) (backlog ph n) \<le> e_PrevRevision ?e \<and> is_rev (e_PrevRevision ?e) \<and> e_Key ?e = []
      else apply_ok (n_nextRev n) ?e \<and> e_Revision ?e = n_nextRev n + 1 \<and> entry_changes ?e \<noteq> [] \<and> (\<forall>c \<in> set (entry_changes ?e). kv_ok c)"
      using a c assms(3,6) by simp
    show "pend_ok ?m H (chg (backlog ph n) @ entry_changes ?e)"
      unfolding c by (rule pend_ok_fold [OF i(5)]) (use s in simp)
  qed simp
  then show ?thesis using c assms(3) by (simp add: steps_to_def) (simp add: backlog_def queued_def)
qed

lemma txn_steps:
  assumes "node_inv contents H ph n" "healthy (s_db (n_db n))" "is_rev (n_nextSeq n + 1)" "wop_ok cr (WTxn req)"
  shows "steps_to contents H ph n (spec_changes (WTxn req) (n_nextRev n) (H @ chg (backlog ph n))) (snd (node_Txn P call req n))"
proof -
  let ?V = "H @ chg (backlog ph n)" and ?R = "n_nextRev n"
  note i = node_invD [OF assms(1)] and d = next_ids_eq [OF assms(1,3)]
  define ops where "ops = txn_branch req ?V"
  define active where "active = filter (\<lambda>r. \<not> rs_skip r) (concat (map (\<lambda>op. resolve_op op (cur_kv (to_Key op) ?V)) ops))"
  define cs where "cs = concat (map (op_changes (?R + 1) ?V) ops)"
  have cs: "map (rchange (?R + 1)) active = cs"
    unfolding active_def cs_def by (induction ops) (simp_all add: resolve_op_changes(1) [OF i(4)])
  have keys: "map rs_key active = map (\<lambda>c. r_key (snd c)) cs" "length active = length cs" "active = [] \<longleftrightarrow> cs = []" unfolding cs [symmetric] by simp_all
  have okops: "\<forall>op \<in> set ops. txnop_ok op" using assms(4) by (auto simp: ops_def txn_branch_def list_all_iff)
  have r: "\<forall>r \<in> set active. 0 < rs_version r \<and> record_ok (snd (rchange (?R + 1) r)) \<and> kv_ok (rchange (?R + 1) r) \<and>
      length (r_value (snd (rchange (?R + 1) r))) < 2 ^ 32"
  proof
    fix r assume r: "r \<in> set active"
    then have "rchange (?R + 1) r \<in> set cs" unfolding cs [symmetric] by simp
    then obtain op where op: "op \<in> set ops" "rchange (?R + 1) r \<in> set (op_changes (?R + 1) ?V op)" by (auto simp: cs_def)
    have "0 < rs_version r" using r resolve_op_changes(2) [OF i(4)] by (auto simp: active_def)
    with op_changes_ok [OF i(4) d(2) _ op(2)] okops op(1)
    show "0 < rs_version r \<and> record_ok (snd (rchange (?R + 1) r)) \<and> kv_ok (rchange (?R + 1) r) \<and> length (r_value (snd (rchange (?R + 1) r))) < 2 ^ 32"
      by blast
  qed
  have conds: "txn_conds P (tr_Conditions req) n = Inr (list_all (\<lambda>c. txnCondMatches c (cur_kv (tc_Key c) ?V)) (tr_Conditions req))"
    by (rule txn_conds_eq [OF assms(1,2)])
  have b: "(if list_all (\<lambda>c. txnCondMatches c (cur_kv (tc_Key c) ?V)) (tr_Conditions req) then tr_Success req else tr_Failure req) = ops"
    by (simp add: ops_def txn_branch_def)
  note t = prepareTxn_def [of P req n, unfolded conds sum.case Let_def b resolve_ops_eq [OF assms(1,2)] active_def [symmetric]]
  have sc: "spec_changes (WTxn req) ?R ?V = (if length cs \<le> 65535 \<and> distinct (map (\<lambda>c. r_key (snd c)) cs) then cs else [])"
    by (simp add: cs_def ops_def Let_def)
  show ?thesis
  proof (cases "cs \<noteq> [] \<and> length cs \<le> 65535 \<and> distinct (map (\<lambda>c. r_key (snd c)) cs)")
    case False
    then have "snd (prepareTxn P req n) = n \<and> (\<forall>e s dk. fst (prepareTxn P req n) = Inr (e, s, dk) \<longrightarrow> e = entry0)"
      unfolding t using keys by (auto split: if_splits)
    then have "snd (node_Txn P call req n) = n"
      using i(10,11) by (cases "prepareTxn P req n") (auto simp: node_Txn_def entry0_def split: sum.split)
    then show ?thesis using False steps_refl [OF assms(1)] sc by (auto split: if_splits)
  next
    case True
    have "ops \<noteq> []" using True by (auto simp: cs_def)
    then have p: "prepareTxn P req n = (Inr (entry0\<lparr>e_ID := n_nextSeq n + 1, e_Revision := ?R + 1, e_Term := n_term n, e_Op := OpTxn,
          e_Value := EncodeTxnOps (map (sub_op (?R + 1)) active)\<rparr>,
          list_all (\<lambda>c. txnCondMatches c (cur_kv (tc_Key c) ?V)) (tr_Conditions req), map rs_key (filter (\<lambda>r. rs_walOp r = OpDelete) active)),
        n\<lparr>n_nextRev := ?R + 1, n_nextSeq := n_nextSeq n + 1,
          n_pending := fold (\<lambda>r m. m(rs_key r \<mapsto> sub_pending (?R + 1) r)) active (n_pending n)\<rparr>)"
      unfolding t using True keys d(1) by (simp add: fold_set_pending)
    have "active \<noteq> []" "length active \<le> 65535" "distinct (map rs_key active)" using True keys by auto
    from txn_entry_inv [OF assms(1,3) this r, of "n_term n"] cs True sc p i(10,11) show ?thesis
      by (simp add: node_Txn_def submit_queued)
  qed
qed

end

section \<open>Steps of the commit loop\<close>

lemma node_inv_cong:
  assumes "node_inv contents H ph n" "n_db n' = n_db n" "n_pending n' = n_pending n" "n_nextRev n' = n_nextRev n" "n_nextSeq n' = n_nextSeq n"
    and "n_closed n' = n_closed n" "n_role n' = n_role n" "backlog ph' n' = backlog ph n" "phase_ok ph' (s_currentRev (n_db n))"
  shows "node_inv contents H ph' n'"
  using assms unfolding node_inv_def by metis

lemma taken_inv:
  assumes "node_inv contents H Idle n" "commit_take k n = (batch, n')"
  shows "node_inv contents H (Taken batch) n'" "backlog (Taken batch) n' = backlog Idle n" "n_db n' = n_db n" "n_nextRev n' = n_nextRev n"
proof -
  have n: "batch = List.take k (n_writeC n)" "n' = n\<lparr>n_writeC := drop k (n_writeC n)\<rparr>" using assms(2) by (simp_all add: commit_take_def)
  show b: "backlog (Taken batch) n' = backlog Idle n" "n_db n' = n_db n" "n_nextRev n' = n_nextRev n"
    using n by (simp_all add: backlog_def unapplied_def flip: map_append)
  show "node_inv contents H (Taken batch) n'" by (rule node_inv_cong [OF assms(1)]) (use n b in \<open>simp_all add: phase_ok_def\<close>)
qed

lemma upto_suffix: "xs @ ys = [a + 1..b] \<Longrightarrow> c = (if xs = [] then a else last xs) \<Longrightarrow> ys = [c + 1..(b :: int)]"
proof (induction xs arbitrary: a c)
  case (Cons x xs)
  have "a + 1 \<le> b" using Cons.prems(1) by (metis append_Cons list.distinct(1) upto_Nil linorder_not_less)
  then have "x = a + 1" "xs @ ys = [a + 1 + 1..b]" using Cons.prems(1) by (simp_all add: upto_rec1)
  with Cons.IH [OF this(2)] Cons.prems(2) show ?case by simp
qed simp

lemma written_frame:
  assumes "commit_write app ctxErr batch n = (err, n')"
  obtains w sv where "n' = n\<lparr>n_wal := w, n_peerSrv := sv\<rparr>"
proof -
  obtain x w where a: "app ctxErr (map wr_entry batch) (n_wal n) = (x, w)" by (cases "app ctxErr (map wr_entry batch) (n_wal n)")
  have r: "n\<lparr>n_wal := w\<rparr> = n\<lparr>n_wal := w, n_peerSrv := n_peerSrv n\<rparr>" by simp
  show ?thesis
  proof (cases "n_peerSrv n")
    case None
    with assms a have "n' = n\<lparr>n_wal := w\<rparr>" by (simp add: commit_write_def Let_def)
    with r show ?thesis by (intro that [where w = w and sv = "n_peerSrv n"]) simp
  next
    case (Some sv)
    with assms a have "\<exists>sv. n' = n\<lparr>n_wal := w, n_peerSrv := sv\<rparr>" by (auto simp: commit_write_def Let_def)
    then show ?thesis using that by blast
  qed
qed

lemma waited_frame:
  assumes "commit_wait batch checks n = (r, n')"
  obtains sv where "n' = n\<lparr>n_peerSrv := sv\<rparr>"
proof (cases "n_peerSrv n")
  case None
  with assms have "n' = n\<lparr>n_peerSrv := n_peerSrv n\<rparr>" by (simp add: commit_wait_def)
  then show ?thesis by (rule that)
next
  case (Some sv)
  with assms show ?thesis by (intro that) (simp add: commit_wait_def, blast)
qed

context pebble_db
begin

lemma applied_inv:
  assumes "node_inv contents H (Waited batch) n" "healthy (s_db (n_db n))" "commit_apply P batch n = (err, n')"
  shows "node_inv contents (H @ chg (map wr_entry batch)) (Applied batch err) n'" "healthy (s_db (n_db n'))"
    "n_nextRev n' = n_nextRev n" "chg (backlog (Waited batch) n) = chg (map wr_entry batch) @ chg (backlog (Applied batch err) n')"
proof -
  let ?es = "map wr_entry batch" and ?q = "map wr_entry (n_writeC n)" and ?s = "n_db n"
  note i = node_invD [OF assms(1)]
  have bl: "backlog (Waited batch) n = ?es @ ?q" by (simp add: backlog_def unapplied_def)
  note ok = i(2) [unfolded bl entries_ok_append]
  have oke: "store_entries_ok ?s ?es" using ok by (simp add: store_entries_ok_def)
  obtain s' where s: "store_Apply P ?es ?s = (None, s')" "healthy (s_db s')" "store_inv contents s' (H @ chg ?es)"
    "s_currentRev s' = last_rev (s_currentRev ?s) ?es" "s_compactRev s' = last_compact (s_compactRev ?s) ?es" "s_lastSeq s' = last_seq (s_lastSeq ?s) ?es"
    by (rule Apply_inv [OF assms(2) i(1) oke])
  have n: "err = None" "n' = n\<lparr>n_db := s'\<rparr>" using assms(3) s(1) by (simp_all add: commit_apply_def)
  have bl': "backlog (Applied batch err) n' = ?q" using n by (simp add: backlog_def unapplied_def)
  show "healthy (s_db (n_db n'))" "n_nextRev n' = n_nextRev n" using n s(2) by simp_all
  show "chg (backlog (Waited batch) n) = chg ?es @ chg (backlog (Applied batch err) n')" unfolding bl bl' by simp
  have sq: "map Sequence ?q = [s_lastSeq s' + 1..n_nextSeq n]"
    by (rule upto_suffix [of "map Sequence ?es" _ "s_lastSeq ?s"]) (use i(8) bl s(6) in \<open>simp_all add: last_seq_def last_map\<close>)
  have "phase_ok (Applied batch err) (s_currentRev s')"
    using n(1) i(3) bl entries_ok_revs [OF conjunct1 [OF ok]] s(4) by (auto simp: phase_ok_def plain_compacts_def)
  moreover have "pend_ok (n_pending n) (H @ chg ?es) (chg ?q)" by (rule pend_ok_applied) (use i(5) bl in simp)
  ultimately show "node_inv contents (H @ chg ?es) (Applied batch err) n'"
    unfolding node_inv_def bl' using n s(3-6) ok sq i bl by (simp add: store_entries_ok_def last_append_simps plain_compacts_def)
qed

end

text \<open>Dropping optimistic state of a revision that the store has reached.\<close>

definition same_but_pending :: "('db, 'w) node \<Rightarrow> ('db, 'w) node \<Rightarrow> bool" where
  "same_but_pending n n' \<longleftrightarrow> (\<exists>m. n' = n\<lparr>n_pending := m\<rparr>)"

lemma same_but_pendingD: "same_but_pending n n' \<Longrightarrow> n_db n' = n_db n \<and> n_nextRev n' = n_nextRev n \<and> n_writeC n' = n_writeC n \<and> n_nextSeq n' = n_nextSeq n"
  by (auto simp: same_but_pending_def)

lemma same_but_pending_refl [simp]: "same_but_pending n n"
  unfolding same_but_pending_def by (rule exI [of _ "n_pending n"]) simp

lemma same_but_pending_trans: "same_but_pending n n' \<Longrightarrow> same_but_pending n' n'' \<Longrightarrow> same_but_pending n n''"
  by (auto simp: same_but_pending_def)

lemma drop_pending_inv:
  assumes "node_inv contents H ph n" "rv \<le> s_currentRev (n_db n)"
  shows "node_inv contents H ph (drop_pending key rv n)" "same_but_pending n (drop_pending key rv n)"
proof -
  note i = node_invD [OF assms(1)]
  show "same_but_pending n (drop_pending key rv n)"
    by (cases "n_pending n key") (auto simp: drop_pending_def same_but_pending_def intro: exI [of _ "n_pending n"])
  show "node_inv contents H ph (drop_pending key rv n)"
  proof (cases "\<exists>p. n_pending n key = Some p \<and> pk_rev p = rv")
    case False
    then have "drop_pending key rv n = n" by (auto simp: drop_pending_def split: option.split)
    then show ?thesis using assms(1) by simp
  next
    case True
    then obtain p where p: "n_pending n key = Some p" "pk_rev p = rv" by blast
    have d: "drop_pending key rv n = n\<lparr>n_pending := (n_pending n)(key := None)\<rparr>" using p by (simp add: drop_pending_def)
    have "\<forall>c \<in> set (chg (backlog ph n)). s_currentRev (n_db n) < fst c" using chg_revs [OF i(2)] by blast
    then have m: "pend_ok ((n_pending n)(key := None)) H (chg (backlog ph n))"
      using pend_ok_drop [OF i(5) p(1), of "s_currentRev (n_db n)"] p(2) assms(2) by simp
    have bl: "backlog ph (n\<lparr>n_pending := (n_pending n)(key := None)\<rparr>) = backlog ph n" by (simp add: backlog_def)
    show ?thesis unfolding d node_inv_def bl store_entries_ok_def using i m by simp
  qed
qed

lemma fold_drop_inv:
  "node_inv contents H ph n \<Longrightarrow> rv \<le> s_currentRev (n_db n) \<Longrightarrow>
     node_inv contents H ph (fold (\<lambda>x. drop_pending (f x) rv) xs n) \<and> same_but_pending n (fold (\<lambda>x. drop_pending (f x) rv) xs n)"
proof (induction xs arbitrary: n)
  case (Cons x xs)
  note d = drop_pending_inv [OF Cons.prems, of "f x"]
  have "rv \<le> s_currentRev (n_db (drop_pending (f x) rv n))" using Cons.prems(2) same_but_pendingD [OF d(2)] by simp
  from Cons.IH [OF d(1) this] d(2) same_but_pending_trans show ?case by auto
qed simp

lemma clearPendingBatch_inv:
  "node_inv contents H ph n \<Longrightarrow> plain_compacts (map wr_entry b) \<Longrightarrow>
     \<forall>r \<in> set b. e_Op (wr_entry r) \<noteq> OpCompact \<longrightarrow> e_Revision (wr_entry r) \<le> s_currentRev (n_db n) \<Longrightarrow>
     node_inv contents H ph (clearPendingBatch b n) \<and> same_but_pending n (clearPendingBatch b n)"
proof (induction b arbitrary: n)
  case (Cons r b)
  let ?e = "wr_entry r"
  define n' where "n' = (if e_Op ?e = OpTxn then (case DecodeTxnOps (e_Value ?e) of
      Inr ops \<Rightarrow> fold (\<lambda>op. drop_pending (so_Key op) (e_Revision ?e)) ops n | Inl _ \<Rightarrow> n)
    else if e_Key ?e = [] then n else drop_pending (e_Key ?e) (e_Revision ?e) n)"
  have c: "clearPendingBatch (r # b) n = clearPendingBatch b n'" by (simp add: n'_def Let_def)
  have k: "e_Op ?e = OpCompact \<Longrightarrow> e_Key ?e = []" "e_Op ?e \<noteq> OpCompact \<Longrightarrow> e_Revision ?e \<le> s_currentRev (n_db n)"
    using Cons.prems(2,3) by (auto simp: plain_compacts_def)
  have n': "node_inv contents H ph n' \<and> same_but_pending n n'"
  proof (cases "e_Op ?e = OpTxn")
    case True
    then have "e_Revision ?e \<le> s_currentRev (n_db n)" using k(2) by simp
    from fold_drop_inv [OF Cons.prems(1) this] True Cons.prems(1) show ?thesis
      by (cases "DecodeTxnOps (e_Value ?e)") (simp_all add: n'_def)
  next
    case False
    with drop_pending_inv [OF Cons.prems(1), of "e_Revision ?e" "e_Key ?e"] k Cons.prems(1) show ?thesis
      by (cases "e_Key ?e = []") (auto simp: n'_def)
  qed
  have "node_inv contents H ph (clearPendingBatch b n') \<and> same_but_pending n' (clearPendingBatch b n')"
    by (rule Cons.IH) (use Cons.prems n' same_but_pendingD [of n n'] in \<open>auto simp: plain_compacts_def\<close>)
  then show ?case unfolding c using n' same_but_pending_trans by blast
qed simp

lemma finished_inv:
  assumes "node_inv contents H (Applied batch err) n" "commit_finish batch err n = (signals, goon, n')"
  shows "node_inv contents H Idle n'" "backlog Idle n' = backlog (Applied batch err) n" "n_db n' = n_db n" "n_nextRev n' = n_nextRev n"
    "signals = map (\<lambda>r. (wr_id r, None)) batch" "goon"
proof -
  have ph: "err = None" "plain_compacts (map wr_entry batch)" "\<forall>r \<in> set batch. e_Op (wr_entry r) \<noteq> OpCompact \<longrightarrow> e_Revision (wr_entry r) \<le> s_currentRev (n_db n)"
    using node_invD(9) [OF assms(1)] by (simp_all add: phase_ok_def)
  note c = clearPendingBatch_inv [OF assms(1) ph(2,3)]
  have n: "n' = clearPendingBatch batch n" "signals = map (\<lambda>r. (wr_id r, None)) batch" "goon" using assms(2) ph(1) by (simp_all add: commit_finish_def)
  then show "signals = map (\<lambda>r. (wr_id r, None)) batch" "goon" by simp_all
  show d: "n_db n' = n_db n" "n_nextRev n' = n_nextRev n" "backlog Idle n' = backlog (Applied batch err) n"
    using same_but_pendingD [OF conjunct2 [OF c]] n by (simp_all add: backlog_def unapplied_def)
  show "node_inv contents H Idle n'"
    by (rule node_inv_cong [OF conjunct1 [OF c]]) (use n in \<open>simp_all add: phase_ok_def backlog_def unapplied_def\<close>)
qed

lemma answered_inv:
  assumes "node_inv contents H ph n" "rv \<le> s_currentRev (n_db n)"
  shows "node_inv contents H ph (snd (await_done key rv err n))" "backlog ph (snd (await_done key rv err n)) = backlog ph n"
    "n_db (snd (await_done key rv err n)) = n_db n" "n_nextRev (snd (await_done key rv err n)) = n_nextRev n"
proof -
  let ?c = "cleanPending key rv n"
  have "?c = (if key = [] then n else drop_pending key rv n)" by (simp add: cleanPending_def drop_pending_def)
  then have c: "node_inv contents H ph ?c" "same_but_pending n ?c" using drop_pending_inv [OF assms] assms(1) by simp_all
  have f: "n_db (snd (await_done key rv err n)) = n_db ?c" "n_pending (snd (await_done key rv err n)) = n_pending ?c"
    "n_nextRev (snd (await_done key rv err n)) = n_nextRev ?c" "n_nextSeq (snd (await_done key rv err n)) = n_nextSeq ?c"
    "n_closed (snd (await_done key rv err n)) = n_closed ?c" "n_role (snd (await_done key rv err n)) = n_role ?c"
    "n_writeC (snd (await_done key rv err n)) = n_writeC ?c"
    by (cases err; simp add: await_done_def Let_def)+
  show "node_inv contents H ph (snd (await_done key rv err n))"
    by (rule node_inv_cong [OF c(1) f(1-6)]) (use node_invD(9) [OF c(1)] f(7) in \<open>simp_all add: backlog_def\<close>)
  show "backlog ph (snd (await_done key rv err n)) = backlog ph n" "n_db (snd (await_done key rv err n)) = n_db n"
    "n_nextRev (snd (await_done key rv err n)) = n_nextRev n"
    using same_but_pendingD [OF c(2)] f by (simp_all add: backlog_def)
qed

section \<open>Runs refine the specification\<close>

definition node_fresh :: "('db, 'w) node \<Rightarrow> bool" where
  "node_fresh n \<longleftrightarrow> n_pending n = Map.empty \<and> n_writeC n = [] \<and> n_nextRev n = s_currentRev (n_db n) \<and> n_nextSeq n = s_lastSeq (n_db n) \<and>
     \<not> n_closed n \<and> n_role n \<noteq> roleFollower"

lemma fresh_node_inv:
  assumes "node_fresh n" "store_inv contents (n_db n) H" "hist_ok (n_nextRev n) H"
  shows "node_inv contents H Idle n"
proof -
  have b: "backlog Idle n = []" using assms(1) by (simp add: backlog_def unapplied_def node_fresh_def)
  show ?thesis unfolding node_inv_def b using assms
    by (simp add: node_fresh_def store_entries_ok_def plain_compacts_def pend_ok_def phase_ok_def last_seq_def)
qed

context pebble_db
begin

lemma wop_steps:
  assumes "node_inv contents H ph n" "healthy (s_db (n_db n))" "is_rev (n_nextSeq n + 1)"
    and "wop_ok (last_compact (s_compactRev (n_db n)) (backlog ph n)) op"
  shows "steps_to contents H ph n (spec_changes op (n_nextRev n) (H @ chg (backlog ph n))) (wop_state P call op n)"
proof (cases op)
  case (WPut key v lease)
  then show ?thesis using put_steps [OF assms(1-3)] assms(4) by (simp add: wop_state_def)
next
  case (WCreate key v lease)
  show ?thesis
  proof (cases "cur_kv key (H @ chg (backlog ph n))")
    case None
    then show ?thesis using create_steps [OF assms(1-3)] assms(4) WCreate by (simp add: wop_state_def)
  next
    case (Some kv)
    then show ?thesis using WCreate steps_refl [OF assms(1)] readKey_inv [OF assms(1,2), of key] node_invD(10,11) [OF assms(1)]
      by (simp add: wop_state_def node_Create_def)
  qed
next
  case (WUpdate key v revision lease)
  show ?thesis
  proof (cases "\<exists>kv. cur_kv key (H @ chg (backlog ph n)) = Some kv \<and> kv_Revision kv = revision")
    case True
    then show ?thesis using update_steps [OF assms(1-3)] assms(4) WUpdate by (auto simp: wop_state_def)
  next
    case False
    then show ?thesis using WUpdate steps_refl [OF assms(1)] readKey_inv [OF assms(1,2), of key] node_invD(10,11) [OF assms(1)]
      by (cases "cur_kv key (H @ chg (backlog ph n))") (simp_all add: wop_state_def node_Update_def)
  qed
next
  case (WDelete key)
  show ?thesis
  proof (cases "cur_kv key (H @ chg (backlog ph n))")
    case None
    then show ?thesis using WDelete steps_refl [OF assms(1)] readKey_inv [OF assms(1,2), of key] node_invD(10,11) [OF assms(1)]
      by (simp add: wop_state_def node_Delete_def prepareDelete_def entry0_def)
  next
    case (Some kv)
    then show ?thesis using delete_steps(1) [OF assms(1-3)] assms(4) WDelete by (simp add: wop_state_def)
  qed
next
  case (WDeleteIf key revision)
  show ?thesis
  proof (cases "\<exists>kv. cur_kv key (H @ chg (backlog ph n)) = Some kv \<and> (revision = 0 \<or> kv_Revision kv = revision)")
    case True
    then show ?thesis using delete_steps(2) [OF assms(1-3)] assms(4) WDeleteIf by (auto simp: wop_state_def)
  next
    case False
    then show ?thesis using WDeleteIf steps_refl [OF assms(1)] readKey_inv [OF assms(1,2), of key] node_invD(10,11) [OF assms(1)]
      by (cases "cur_kv key (H @ chg (backlog ph n))") (simp_all add: wop_state_def node_DeleteIfRevision_def)
  qed
next
  case (WTxn req)
  then show ?thesis using txn_steps [OF assms(1-3)] assms(4) by (simp add: wop_state_def del: spec_changes.simps wop_ok.simps)
next
  case (WCompact revision)
  then show ?thesis using compact_steps [OF assms(1,3)] assms(4) by (simp add: wop_state_def)
qed

lemma node_run_inv:
  assumes "node_run P app call n0 ops n ph" "node_fresh n0" "healthy (s_db (n_db n0))" "store_inv contents (n_db n0) H0" "hist_ok (n_nextRev n0) H0"
  shows "\<exists>H. node_inv contents H ph n \<and> healthy (s_db (n_db n)) \<and>
    fold spec_step ops (n_nextRev n0, H0) = (n_nextRev n, H @ chg (backlog ph n))"
  using assms(1)
proof (induction rule: node_run.induct)
  case init
  then show ?case using fresh_node_inv [OF assms(2,4,5)] assms(2,3)
    by (intro exI [of _ H0]) (simp add: backlog_def unapplied_def node_fresh_def)
next
  case (submit ops n ph op)
  then obtain H where h: "node_inv contents H ph n" "healthy (s_db (n_db n))"
    "fold spec_step ops (n_nextRev n0, H0) = (n_nextRev n, H @ chg (backlog ph n))" by blast
  note st = wop_steps [OF h(1,2) submit.hyps(3,2), of call, unfolded steps_to_def]
  from st h(2,3) show ?case by (intro exI [of _ H] conjI) (auto simp: spec_step_pair)
next
  case (taken ops n k batch n')
  then show ?case using taken_inv by metis
next
  case (written ops n batch ctxErr n')
  then obtain H where h: "node_inv contents H (Taken batch) n" "healthy (s_db (n_db n))"
    "fold spec_step ops (n_nextRev n0, H0) = (n_nextRev n, H @ chg (backlog (Taken batch) n))" by blast
  obtain w sv where n: "n' = n\<lparr>n_wal := w, n_peerSrv := sv\<rparr>" by (rule written_frame [OF written.hyps(2)])
  have b: "backlog (Written batch) n' = backlog (Taken batch) n" unfolding n by (simp add: backlog_def unapplied_def)
  have "node_inv contents H (Written batch) n'" by (rule node_inv_cong [OF h(1)]) (use n b in \<open>simp_all add: phase_ok_def\<close>)
  with h(2,3) b n show ?case by (intro exI [of _ H]) simp
next
  case (waited ops n batch checks n')
  then obtain H where h: "node_inv contents H (Written batch) n" "healthy (s_db (n_db n))"
    "fold spec_step ops (n_nextRev n0, H0) = (n_nextRev n, H @ chg (backlog (Written batch) n))" by blast
  obtain sv where n: "n' = n\<lparr>n_peerSrv := sv\<rparr>" by (rule waited_frame [OF waited.hyps(2)])
  have b: "backlog (Waited batch) n' = backlog (Written batch) n" unfolding n by (simp add: backlog_def unapplied_def)
  have "node_inv contents H (Waited batch) n'" by (rule node_inv_cong [OF h(1)]) (use n b in \<open>simp_all add: phase_ok_def\<close>)
  with h(2,3) b n show ?case by (intro exI [of _ H]) simp
next
  case (applied ops n batch err n')
  then obtain H where h: "node_inv contents H (Waited batch) n" "healthy (s_db (n_db n))"
    "fold spec_step ops (n_nextRev n0, H0) = (n_nextRev n, H @ chg (backlog (Waited batch) n))" by blast
  from applied_inv [OF h(1,2) applied.hyps(2)] h(3) show ?case by (intro exI [of _ "H @ chg (map wr_entry batch)"]) simp
next
  case (finished ops n batch err signals goon n')
  then show ?case using finished_inv by metis
next
  case (answered ops n ph rv key)
  then show ?case using answered_inv by metis
next
  case (peer ops n ph sv)
  then obtain H where h: "node_inv contents H ph n" "healthy (s_db (n_db n))"
    "fold spec_step ops (n_nextRev n0, H0) = (n_nextRev n, H @ chg (backlog ph n))" by blast
  have b: "backlog ph (n\<lparr>n_peerSrv := sv\<rparr>) = backlog ph n" by (simp add: backlog_def)
  have "node_inv contents H ph (n\<lparr>n_peerSrv := sv\<rparr>)"
    by (rule node_inv_cong [OF h(1)]) (use b node_invD(9) [OF h(1)] in simp_all)
  with h(2,3) b show ?case by (intro exI [of _ H]) simp
qed

end

section \<open>Properties\<close>


definition demo_node :: "(memdb, unit) node" where
  "demo_node = new_node 1 fresh () 0 0 WaitNone"

definition demo_app :: "unit appender" where
  "demo_app c es w = (c, w)"

lemma demo_node_fresh: "node_fresh demo_node" "n_db demo_node = fresh" "hist_ok (n_nextRev demo_node) []" "n_nextRev demo_node = 0" "n_nextSeq demo_node = 0"
  by (simp_all add: node_fresh_def demo_node_def new_node_def fresh_def new_store_def hist_ok_def is_rev_def max_i64_def)


text \<open>C17: Compare-and-set is decided against the latest submitted write, not only against what is committed: in every run,
  a create succeeds exactly when the key does not exist in the sequential state, an update exactly when the key's
  revision there is the expected one, and a refused update reports the key-value pair it lost to.\<close>

theorem cas_exact:
  assumes "pebble_db P contents healthy" "healthy (s_db (n_db n0))" "store_inv contents (n_db n0) H0" "hist_ok (n_nextRev n0) H0" "node_fresh n0"
    and "node_run P app call n0 ops n ph"
  shows "\<exists>V. fold spec_step ops (n_nextRev n0, H0) = (n_nextRev n, V) \<and>
    (case cur_kv key V of
       None \<Rightarrow> (\<exists>req k n'. node_Create P call key v lease n = (Waiting req key k, n')) \<and>
         node_Update P call key v revision lease n = (Finished (Inr (s_currentRev (n_db n), None, False)), n)
     | Some kv \<Rightarrow> node_Create P call key v lease n = (Finished (Inl ErrKeyExists), n) \<and>
         (if kv_Revision kv \<noteq> revision
          then node_Update P call key v revision lease n = (Finished (Inr (s_currentRev (n_db n), Some kv, False)), n)
          else \<exists>req k n'. node_Update P call key v revision lease n = (Waiting req key k, n') \<and>
            e_PrevRevision (wr_entry req) = revision \<and> (\<forall>r. k (Inr r) = Inr (r, Some kv, True))))"
proof -
  obtain H where h: "node_inv contents H ph n" "healthy (s_db (n_db n))"
    "fold spec_step ops (n_nextRev n0, H0) = (n_nextRev n, H @ chg (backlog ph n))"
    using pebble_db.node_run_inv [OF assms(1,6,5,2,3,4)] by blast
  note r = pebble_db.readKey_inv [OF assms(1) h(1,2), of key] and i = node_invD(10,11) [OF h(1)]
  show ?thesis
    by (intro exI [of _ "H @ chg (backlog ph n)"] conjI h(3))
      (use r i in \<open>auto simp: node_Create_def node_Update_def submit_def newWriteReq_def Let_def split: option.split\<close>)
qed

theorem cas_exact_witness:
  "fst (node_Update mem_pebble (\<lambda>_. Inl ErrNoLeader) (str ''k'') [] 7 0 demo_node) = Finished (Inr (0, None, False))"
proof -
  have h: "mdb_healthy (s_db (n_db demo_node))" "store_inv mdb_contents (n_db demo_node) []"
    using fresh_healthy fresh_inv demo_node_fresh(2) by simp_all
  have "s_currentRev (n_db demo_node) = 0" by (simp add: demo_node_fresh(2) fresh_def new_store_def)
  with cas_exact [OF mem_pebble_laws h demo_node_fresh(3,1) node_run.init, where key = "str ''k''" and revision = 7 and lease = 0 and v = "[]" and call = "\<lambda>_. Inl ErrNoLeader"]
  show ?thesis by (simp add: cur_kv_def live_def)
qed

text \<open>What the caller gets from a started operation once the commit loop has answered \<open>aw\<close>, and how an error looks
  after it travelled to a follower.\<close>

definition answer :: "int res \<Rightarrow> 'a started \<Rightarrow> 'a res" where
  "answer aw st = (case st of Finished r \<Rightarrow> r | Waiting req key k \<Rightarrow> k aw)"

definition wire :: "'a res \<Rightarrow> 'a res" where
  "wire r = (case r of Inl e \<Rightarrow> Inl (if e = ErrKeyExists then e else Err (err_text e)) | Inr a \<Rightarrow> Inr a)"

lemma answer_on_result: "answer aw (on_result f st) = f (answer aw st)"
  by (simp add: answer_def on_result_def split: started.split)

lemma msgToKV_kvToMsg [simp]: "msgToKV (kvToMsg kv) = kv"
  by (simp add: msgToKV_def kvToMsg_def split: option.split)

lemma fwd_result_resp_of:
  "(\<And>a. fp_ErrCode (f a) = []) \<Longrightarrow> fwd_result g (resp_of f r) = wire (case r of Inl e \<Rightarrow> Inl e | Inr a \<Rightarrow> Inr (g (f a)))"
  by (cases r) (auto simp: fwd_result_def resp_of_def wire_def encodeErr_def decodeErr_def fwdresp0_def str_def)

lemma txn_message_roundtrip: "forwardMsgToTxnRequest (the (fr_TxnReq (txnToForwardRequest req))) = req"
proof -
  have o: "\<lparr>to_Type = to_Type x, to_Key = to_Key x, to_Value = to_Value x, to_Lease = to_Lease x\<rparr> = x" for x :: txnop by simp
  have c: "\<lparr>tc_Key = tc_Key x, tc_Target = tc_Target x, tc_Result = tc_Result x, tc_ModRevision = tc_ModRevision x,
      tc_CreateRevision = tc_CreateRevision x, tc_Version = tc_Version x, tc_Value = tc_Value x, tc_Lease = tc_Lease x\<rparr> = x" for x :: txncondition by simp
  have "msgToTxnOps (txnOpsToMsg ops) = ops" for ops by (simp add: msgToTxnOps_def txnOpsToMsg_def comp_def o)
  then show ?thesis by (simp add: forwardMsgToTxnRequest_def txnToForwardRequest_def comp_def fwd0_def c)
qed

lemma fwd_handled:
  assumes "n_leaderCli f = Some addr" "leader q = resp_of g r" "\<And>a. fp_ErrCode (g a) = []" "\<And>a. h (g a) = a"
  shows "fwd_result h (forwardWrite leader q f) = wire r"
proof -
  have "\<exists>x. resp_of g r = Inr x" by (cases r) (simp_all add: resp_of_def split: prod.split)
  then have "forwardWrite leader q f = resp_of g r" using assms(1,2) by (auto simp: forwardWrite_def)
  then show ?thesis using fwd_result_resp_of [of g h r] assms(3,4) by (cases r) simp_all
qed



lemma drop_pending_frame: "same_but_pending n (drop_pending key rv n)"
  by (cases "n_pending n key") (auto simp: drop_pending_def same_but_pending_def intro: exI [of _ "n_pending n"])

lemma clearPending_frame: "same_but_pending n (clearPendingBatch b n)"
proof (induction b arbitrary: n)
  case (Cons r b)
  have "same_but_pending n (fold (\<lambda>op. drop_pending (so_Key op) rv) ops n)" for rv ops
    by (induction ops arbitrary: n) (auto intro: same_but_pending_trans drop_pending_frame)
  then show ?case using Cons.IH same_but_pending_trans drop_pending_frame
    by (auto simp: Let_def split: sum.split) blast+
qed simp

text \<open>C35: A batch that the commit loop gives up because a caller's context ended leaves a hole: its sequences are not reused, so
  whatever the node writes next starts beyond the sequence after the last one applied, while the loop goes on. Writes queued
  behind the batch keep the revisions, previous revisions and versions they took from it.\<close>

theorem cancelled_batch_gap:
  assumes "pebble_db P contents healthy" "healthy (s_db (n_db n0))" "store_inv contents (n_db n0) H0" "hist_ok (n_nextRev n0) H0" "node_fresh n0"
    and "node_run P app call n0 ops n Idle" "0 < k" "n_writeC n \<noteq> []"
    and "\<And>es w. fst (app (Some ErrCanceled) es w) = Some ErrCanceled"
  shows "\<exists>n'. commit_round P app k (Some ErrCanceled) [] n = Some (map (\<lambda>r. (wr_id r, Some ErrCanceled)) (take k (n_writeC n)), True, n') \<and>
    n_db n' = n_db n \<and> n_writeC n' = drop k (n_writeC n) \<and> n_nextSeq n' = n_nextSeq n \<and>
    s_lastSeq (n_db n') < n_nextSeq n' \<and> (\<forall>r \<in> set (n_writeC n'). s_lastSeq (n_db n') + 1 < Sequence (wr_entry r))"
proof -
  obtain H where h: "node_inv contents H Idle n" "healthy (s_db (n_db n))"
    using pebble_db.node_run_inv [OF assms(1,6,5,2,3,4)] by blast
  note i = node_invD [OF h(1)]
  let ?b = "take k (n_writeC n)" and ?n = "n\<lparr>n_writeC := drop k (n_writeC n)\<rparr>"
  obtain err n1 where w: "commit_write app (Some ErrCanceled) ?b ?n = (err, n1)" by (cases "commit_write app (Some ErrCanceled) ?b ?n")
  obtain wl sv where n1: "n1 = ?n\<lparr>n_wal := wl, n_peerSrv := sv\<rparr>" by (rule written_frame [OF w])
  have err: "err = Some ErrCanceled"
    using w assms(9) [of "map wr_entry ?b" "n_wal ?n"] by (cases "app (Some ErrCanceled) (map wr_entry ?b) (n_wal ?n)") (simp add: commit_write_def Let_def)
  have s: "same_but_pending n1 (clearPendingBatch ?b n1)" by (rule clearPending_frame)
  have c: "commit_round P app k (Some ErrCanceled) [] n = Some (map (\<lambda>r. (wr_id r, Some ErrCanceled)) ?b, True, clearPendingBatch ?b n1)"
    using w err by (simp add: commit_round_def commit_take_def commit_finish_def Let_def)
  note f = same_but_pendingD [OF s]
  let ?q = "map wr_entry (n_writeC n)"
  have q: "map Sequence ?q = [s_lastSeq (n_db n) + 1..n_nextSeq n]" using i(8) by (simp add: backlog_def unapplied_def)
  have lt: "s_lastSeq (n_db n) < n_nextSeq n" 
  proof (rule ccontr)
    assume "\<not> s_lastSeq (n_db n) < n_nextSeq n"
    then have "map Sequence ?q = []" unfolding q by simp
    with assms(8) show False by simp
  qed
  have "s_lastSeq (n_db n) + 1 < Sequence (wr_entry r)" if r: "r \<in> set (drop k (n_writeC n))" for r
  proof -
    obtain x xs where x: "n_writeC n = x # xs" using assms(8) by (cases "n_writeC n") auto
    have "Sequence (wr_entry x) # map (Sequence \<circ> wr_entry) xs = (s_lastSeq (n_db n) + 1) # [s_lastSeq (n_db n) + 1 + 1..n_nextSeq n]"
      using q lt x by (simp add: upto_rec1)
    then have m: "map (Sequence \<circ> wr_entry) xs = [s_lastSeq (n_db n) + 1 + 1..n_nextSeq n]" by simp
    have "s_lastSeq (n_db n) + 1 + 1 \<le> Sequence (wr_entry y)" if "y \<in> set xs" for y
    proof -
      have "(Sequence \<circ> wr_entry) y \<in> set (map (Sequence \<circ> wr_entry) xs)" using that by simp
      then show ?thesis unfolding m by simp
    qed
    moreover have "r \<in> set xs" using r x assms(7) by (cases k) (auto dest: in_set_dropD)
    ultimately show ?thesis by force
  qed
  moreover have "n_db (clearPendingBatch ?b n1) = n_db n" "n_writeC (clearPendingBatch ?b n1) = drop k (n_writeC n)"
    "n_nextSeq (clearPendingBatch ?b n1) = n_nextSeq n" using f by (simp_all add: n1)
  ultimately show ?thesis using c lt by (intro exI [of _ "clearPendingBatch ?b n1"]) simp
qed

theorem cancelled_batch_gap_witness:
  "\<exists>n n'. node_run mem_pebble demo_app (\<lambda>_. Inl ErrNoLeader) demo_node [WPut (str ''k'') (str ''a'') 0] n Idle \<and>
     commit_round mem_pebble demo_app 1 (Some ErrCanceled) [] n = Some ([(0, Some ErrCanceled)], True, n') \<and> s_lastSeq (n_db n') < n_nextSeq n'"
proof -
  let ?call = "\<lambda>_ :: forwardrequest. Inl ErrNoLeader :: forwardresponse res" and ?a = "WPut (str ''k'') (str ''a'') 0"
  let ?n = "wop_state mem_pebble ?call ?a demo_node"
  have h: "mdb_healthy (s_db (n_db demo_node))" "store_inv mdb_contents (n_db demo_node) []"
    using fresh_healthy fresh_inv demo_node_fresh(2) by simp_all
  have "node_run mem_pebble demo_app ?call demo_node ([] @ [?a]) ?n Idle"
    by (rule node_run.submit [OF node_run.init]) (simp_all add: demo_node_fresh is_rev_def max_i64_def is_i64_def)
  then have r: "node_run mem_pebble demo_app ?call demo_node [?a] ?n Idle" by simp
  have k: "readKey mem_pebble (str ''k'') demo_node = Inr None"
    using memdb.readKey_inv [OF fresh_node_inv [OF demo_node_fresh(1) h(2) demo_node_fresh(3)] h(1)] demo_node_fresh(1)
    by (simp add: cur_kv_def live_def backlog_def unapplied_def node_fresh_def)
  have c: "n_role demo_node \<noteq> roleFollower" "\<not> n_closed demo_node" "n_writeC demo_node = []" "n_nextReq demo_node = 0"
    by (simp_all add: demo_node_def new_node_def)
  have q: "map wr_id (n_writeC ?n) = [0]"
    using k c by (simp add: wop_state_def node_Put_def preparePut_def submit_def newWriteReq_def Let_def next_ids_def set_pending_def)
  then obtain x where x: "n_writeC ?n = [x]" "wr_id x = 0" by auto
  from cancelled_batch_gap [OF mem_pebble_laws h demo_node_fresh(3,1) r, of 1] x r show ?thesis
    by (auto simp: demo_app_def)
qed

end
