(* ===== verification/Disk.thy ===== *)
theory Disk
  imports Go_Strings "HOL-Library.AList"
begin

text \<open>
  The file operations of Go's \<open>os\<close> package that the write-ahead log uses, with their failures.

  A disk holds the regular files by path, the directories, and the outcomes of the operations still
  to come: \<open>None\<close> lets the operation succeed, \<open>Some k\<close> makes it fail (a write then leaves its first
  \<open>k\<close> bytes behind); when the list is used up every operation succeeds. A statement about every
  disk is a statement about every pattern of failures.

  An open file is its path, offset and open flag. The source removes a file only after closing it,
  so a file that is open has its content under its path.
\<close>

record disk =
  d_files :: "(gostring \<times> bytes) list"
  d_dirs :: "gostring list"
  d_faults :: "nat option list"

definition content :: "disk \<Rightarrow> gostring \<Rightarrow> bytes option" where
  "content d p = map_of (d_files d) p"

definition next_fault :: "disk \<Rightarrow> nat option \<times> disk" where
  "next_fault d = (case d_faults d of [] \<Rightarrow> (None, d) | f # fs \<Rightarrow> (f, d\<lparr>d_faults := fs\<rparr>))"

definition set_content :: "gostring \<Rightarrow> bytes \<Rightarrow> disk \<Rightarrow> disk" where
  "set_content p c d = d\<lparr>d_files := AList.update p c (d_files d)\<rparr>"

text \<open>\<open>filepath.Join(dir, name)\<close> for a clean, non-root \<open>dir\<close>.\<close>

definition path_join :: "gostring \<Rightarrow> gostring \<Rightarrow> gostring" where
  "path_join dir name = dir @ 47 # name"

definition path_base :: "gostring \<Rightarrow> gostring" where
  "path_base p = rev (takeWhile (\<lambda>c. c \<noteq> 47) (rev p))"

record osfile =
  f_path :: gostring
  f_off :: nat
  f_open :: bool

definition os_MkdirAll :: "gostring \<Rightarrow> disk \<Rightarrow> goerr option \<times> disk" where
  "os_MkdirAll p d = (case next_fault d of
      (Some _, d) \<Rightarrow> (Some (ErrIO 1), d)
    | (None, d) \<Rightarrow> (None, d\<lparr>d_dirs := List.insert p (d_dirs d)\<rparr>))"

text \<open>\<open>os.OpenFile(p, O_CREATE|O_WRONLY|O_TRUNC)\<close>.\<close>

definition os_Create :: "gostring \<Rightarrow> disk \<Rightarrow> osfile res \<times> disk" where
  "os_Create p d = (case next_fault d of
      (Some _, d) \<Rightarrow> (Inl (ErrIO 2), d)
    | (None, d) \<Rightarrow> (Inr \<lparr>f_path = p, f_off = 0, f_open = True\<rparr>, set_content p [] d))"

text \<open>Bytes written at an offset; a gap left by an earlier truncation reads as zeros.\<close>

definition overwrite :: "bytes \<Rightarrow> nat \<Rightarrow> bytes \<Rightarrow> bytes" where
  "overwrite c off b = take off c @ replicate (off - length c) 0 @ b @ drop (off + length b) c"

definition put_at :: "osfile \<Rightarrow> bytes \<Rightarrow> disk \<Rightarrow> disk" where
  "put_at f b d = (case content d (f_path f) of
      None \<Rightarrow> d | Some c \<Rightarrow> set_content (f_path f) (overwrite c (f_off f) b) d)"

definition f_Write :: "osfile \<Rightarrow> bytes \<Rightarrow> disk \<Rightarrow> goerr option \<times> osfile \<times> disk" where
  "f_Write f b d =
     (if \<not> f_open f then (Some ErrClosed, f, d)
      else case next_fault d of
          (Some k, d) \<Rightarrow> let b' = take k b in (Some (ErrIO 3), f\<lparr>f_off := f_off f + length b'\<rparr>, put_at f b' d)
        | (None, d) \<Rightarrow> (None, f\<lparr>f_off := f_off f + length b\<rparr>, put_at f b d))"

definition f_Sync :: "osfile \<Rightarrow> disk \<Rightarrow> goerr option \<times> disk" where
  "f_Sync f d =
     (if \<not> f_open f then (Some ErrClosed, d)
      else case next_fault d of (Some _, d) \<Rightarrow> (Some (ErrIO 4), d) | (None, d) \<Rightarrow> (None, d))"

definition f_Truncate :: "osfile \<Rightarrow> nat \<Rightarrow> disk \<Rightarrow> goerr option \<times> disk" where
  "f_Truncate f n d =
     (if \<not> f_open f then (Some ErrClosed, d)
      else case next_fault d of
          (Some _, d) \<Rightarrow> (Some (ErrIO 5), d)
        | (None, d) \<Rightarrow> (None, case content d (f_path f) of
             None \<Rightarrow> d | Some c \<Rightarrow> set_content (f_path f) (take n c @ replicate (n - length c) 0) d))"

definition f_Seek :: "osfile \<Rightarrow> nat \<Rightarrow> disk \<Rightarrow> goerr option \<times> osfile \<times> disk" where
  "f_Seek f n d =
     (if \<not> f_open f then (Some ErrClosed, f, d)
      else case next_fault d of
          (Some _, d) \<Rightarrow> (Some (ErrIO 6), f, d)
        | (None, d) \<Rightarrow> (None, f\<lparr>f_off := n\<rparr>, d))"

definition f_Close :: "osfile \<Rightarrow> disk \<Rightarrow> goerr option \<times> osfile \<times> disk" where
  "f_Close f d =
     (if \<not> f_open f then (Some ErrClosed, f, d)
      else case next_fault d of
          (Some _, d) \<Rightarrow> (Some (ErrIO 7), f\<lparr>f_open := False\<rparr>, d)
        | (None, d) \<Rightarrow> (None, f\<lparr>f_open := False\<rparr>, d))"

definition os_Remove :: "gostring \<Rightarrow> disk \<Rightarrow> goerr option \<times> disk" where
  "os_Remove p d = (case next_fault d of
      (Some _, d) \<Rightarrow> (Some (ErrIO 8), d)
    | (None, d) \<Rightarrow> if content d p = None then (Some ErrNotExist, d)
                   else (None, d\<lparr>d_files := AList.delete p (d_files d)\<rparr>))"

text \<open>\<open>os.Open\<close> followed by reading to the end.\<close>

definition os_ReadFile :: "gostring \<Rightarrow> disk \<Rightarrow> bytes res \<times> disk" where
  "os_ReadFile p d = (case next_fault d of
      (Some _, d) \<Rightarrow> (Inl (ErrIO 9), d)
    | (None, d) \<Rightarrow> (case content d p of None \<Rightarrow> (Inl ErrNotExist, d) | Some c \<Rightarrow> (Inr c, d)))"

text \<open>\<open>os.ReadDir\<close>: the names of the regular files directly in a directory.\<close>

definition os_ReadDir :: "gostring \<Rightarrow> disk \<Rightarrow> gostring list res \<times> disk" where
  "os_ReadDir dir d = (case next_fault d of
      (Some _, d) \<Rightarrow> (Inl (ErrIO 10), d)
    | (None, d) \<Rightarrow>
        if dir \<notin> set (d_dirs d) then (Inl ErrNotExist, d)
        else (Inr (sort (remdups (filter (\<lambda>n. 47 \<notin> set n)
               (map (drop (length dir + 1)) (filter (\<lambda>p. HasPrefix p (path_join dir [])) (map fst (d_files d))))))), d))"

section \<open>Lemmas\<close>

lemma content_set_content [simp]: "content (set_content p c d) q = (if p = q then Some c else content d q)"
  by (simp add: content_def set_content_def update_conv')

lemma next_fault_frame:
  "next_fault d = (f, d') \<Longrightarrow> content d' = content d \<and> d_files d' = d_files d \<and> d_dirs d' = d_dirs d"
  by (auto simp: next_fault_def content_def fun_eq_iff split: list.splits)

lemma overwrite_end [simp]: "overwrite c (length c) b = c @ b"
  by (simp add: overwrite_def)

lemma content_put_at:
  "content d (f_path f) = Some c \<Longrightarrow>
   content (put_at f b d) q = (if q = f_path f then Some (overwrite c (f_off f) b) else content d q)"
  by (simp add: put_at_def)

lemma dirs_put_at [simp]: "d_dirs (put_at f b d) = d_dirs d"
  by (auto simp: put_at_def set_content_def split: option.split)

lemma dirs_set_content [simp]: "d_dirs (set_content p c d) = d_dirs d"
  by (simp add: set_content_def)

lemma content_delete [simp]:
  "content (d\<lparr>d_files := AList.delete p (d_files d)\<rparr>) q = (if p = q then None else content d q)"
  by (simp add: content_def delete_conv')

text \<open>What each operation can do to the files, whatever fails.\<close>

lemma f_Write_ok:
  assumes "f_Write f b d = (None, f', d')" and "content d (f_path f) = Some c"
  shows "f' = f\<lparr>f_off := f_off f + length b\<rparr>" and "f_open f"
    and "content d' = (content d)(f_path f \<mapsto> overwrite c (f_off f) b)" and "d_dirs d' = d_dirs d"
proof -
  have o: "f_open f" using assms(1) by (auto simp: f_Write_def split: if_splits)
  obtain d1 where n: "next_fault d = (None, d1)" and r: "f' = f\<lparr>f_off := f_off f + length b\<rparr>" "d' = put_at f b d1"
    using assms(1) o by (auto simp: f_Write_def Let_def split: prod.splits option.splits)
  note fr = next_fault_frame [OF n]
  show "f' = f\<lparr>f_off := f_off f + length b\<rparr>" "f_open f" by (fact r(1)) (fact o)
  have "content d1 (f_path f) = Some c" using fr assms(2) by simp
  from content_put_at [OF this] show "content d' = (content d)(f_path f \<mapsto> overwrite c (f_off f) b)"
    using fr by (auto simp: r fun_eq_iff)
  show "d_dirs d' = d_dirs d" using fr by (simp add: r)
qed

lemma f_Write_fail:
  assumes "f_Write f b d = (Some e, f', d')" and "content d (f_path f) = Some c"
  shows "\<exists>k. content d' = (content d)(f_path f \<mapsto> overwrite c (f_off f) (take k b))
      \<and> f' = f\<lparr>f_off := f_off f + length (take k b)\<rparr> \<or> content d' = content d \<and> f' = f" and "d_dirs d' = d_dirs d"
proof -
  have "content d' = content d \<and> f' = f \<and> d_dirs d' = d_dirs d" if "\<not> f_open f"
    using assms(1) that by (simp add: f_Write_def)
  moreover have "\<exists>k. content d' = (content d)(f_path f \<mapsto> overwrite c (f_off f) (take k b))
      \<and> f' = f\<lparr>f_off := f_off f + length (take k b)\<rparr> \<and> d_dirs d' = d_dirs d" if o: "f_open f"
  proof -
    obtain k d1 where n: "next_fault d = (Some k, d1)"
      and r: "f' = f\<lparr>f_off := f_off f + length (take k b)\<rparr>" "d' = put_at f (take k b) d1"
      using assms(1) o by (auto simp: f_Write_def Let_def split: prod.splits option.splits)
    note fr = next_fault_frame [OF n]
    then have "content d1 (f_path f) = Some c" using assms(2) by simp
    from content_put_at [OF this] fr r show ?thesis by (intro exI [of _ k]) (auto simp: fun_eq_iff)
  qed
  ultimately show "\<exists>k. content d' = (content d)(f_path f \<mapsto> overwrite c (f_off f) (take k b))
      \<and> f' = f\<lparr>f_off := f_off f + length (take k b)\<rparr> \<or> content d' = content d \<and> f' = f"
    and "d_dirs d' = d_dirs d" by blast+
qed

lemma f_Sync_frame: "f_Sync f d = (e, d') \<Longrightarrow> content d' = content d \<and> d_dirs d' = d_dirs d \<and> d_files d' = d_files d"
  by (auto simp: f_Sync_def split: if_splits prod.splits option.splits dest: next_fault_frame)

lemma f_Close_frame:
  "f_Close f d = (e, f', d') \<Longrightarrow>
   content d' = content d \<and> d_dirs d' = d_dirs d \<and> f' = f\<lparr>f_open := False\<rparr>"
  by (auto simp: f_Close_def split: if_splits prod.splits option.splits dest: next_fault_frame)

lemma f_Seek_frame:
  "f_Seek f n d = (e, f', d') \<Longrightarrow> content d' = content d \<and> d_dirs d' = d_dirs d \<and> f_path f' = f_path f \<and>
     f_open f' = f_open f \<and> (e = None \<longrightarrow> f_off f' = n)"
  by (auto simp: f_Seek_def split: if_splits prod.splits option.splits dest: next_fault_frame)

lemma f_Truncate_ok:
  assumes "f_Truncate f n d = (None, d')" and "content d (f_path f) = Some c" and "n \<le> length c"
  shows "content d' = (content d)(f_path f \<mapsto> take n c)" and "d_dirs d' = d_dirs d"
proof -
  have o: "f_open f" using assms(1) by (auto simp: f_Truncate_def split: if_splits)
  obtain d1 where n: "next_fault d = (None, d1)" using assms(1) o by (auto simp: f_Truncate_def split: prod.splits option.splits)
  note fr = next_fault_frame [OF n]
  have "content d1 (f_path f) = Some c" using fr assms(2) by simp
  then have "d' = set_content (f_path f) (take n c) d1"
    using assms(1,3) o n by (simp add: f_Truncate_def)
  with fr show "content d' = (content d)(f_path f \<mapsto> take n c)" and "d_dirs d' = d_dirs d"
    by (auto simp: fun_eq_iff)
qed

lemma os_Create_ok:
  "os_Create p d = (Inr f, d') \<Longrightarrow>
   f = \<lparr>f_path = p, f_off = 0, f_open = True\<rparr> \<and> content d' = (content d)(p \<mapsto> []) \<and> d_dirs d' = d_dirs d"
  by (auto simp: os_Create_def fun_eq_iff split: prod.splits option.splits dest!: next_fault_frame)

lemma os_Create_fail: "os_Create p d = (Inl e, d') \<Longrightarrow> content d' = content d \<and> d_dirs d' = d_dirs d"
  by (auto simp: os_Create_def split: prod.splits option.splits dest: next_fault_frame)

lemma os_Remove_frame:
  "os_Remove p d = (e, d') \<Longrightarrow> d_dirs d' = d_dirs d \<and>
     (content d' = content d \<or> e = None \<and> content d' = (content d)(p := None))"
  by (auto simp: os_Remove_def fun_eq_iff content_def delete_conv' split: prod.splits option.splits if_splits dest!: next_fault_frame)

end
