(* ===== verification/Wal_Segment.thy ===== *)
theory Wal_Segment
  imports Wal_Entry Disk
begin

text \<open>
  Segment files, \<open>src/internal/wal/segment.go\<close>: the writer with its header, append, fsync, rollback
  and seal, the segment name, and the reader. A writer is its open file together with the
  bookkeeping fields of \<open>SegmentWriter\<close>; every operation also returns the disk.

  Lemmas: an intact writer stays intact under its operations; a file cut anywhere reads
  back as the entries whose frames are complete; names parse back and sort by term, then by
  first sequence.
\<close>

section \<open>Writer\<close>

definition segMagic :: bytes where "segMagic = [84, 52, 2, 10]"
definition segHeaderLen :: nat where "segHeaderLen = 20"

record segwriter =
  sw_f :: osfile
  sw_path :: gostring
  sw_term :: nat
  sw_firstRev :: int
  sw_size :: int
  sw_entryCount :: int
  sw_sealed :: bool

definition SegmentName :: "nat \<Rightarrow> int \<Rightarrow> gostring" where
  "SegmentName term firstRev = fmt_0u 10 term @ str ''-'' @ fmt_0d 20 firstRev @ str ''.wal''"

definition seg_header :: "nat \<Rightarrow> int \<Rightarrow> bytes" where
  "seg_header term firstRev = segMagic @ put_be 8 term @ put_i64 firstRev"

definition writeHeader :: "segwriter \<Rightarrow> disk \<Rightarrow> goerr option \<times> segwriter \<times> disk" where
  "writeHeader sw d =
     (case f_Write (sw_f sw) (seg_header (sw_term sw) (sw_firstRev sw)) d of
        (Some e, f, d) \<Rightarrow> (Some e, sw\<lparr>sw_f := f\<rparr>, d)
      | (None, f, d) \<Rightarrow> (None, sw\<lparr>sw_f := f, sw_size := int segHeaderLen\<rparr>, d))"

definition sw_Close :: "segwriter \<Rightarrow> disk \<Rightarrow> goerr option \<times> segwriter \<times> disk" where
  "sw_Close sw d = (case f_Close (sw_f sw) d of (e, f, d) \<Rightarrow> (e, sw\<lparr>sw_f := f\<rparr>, d))"

definition OpenSegmentWriter :: "gostring \<Rightarrow> nat \<Rightarrow> int \<Rightarrow> disk \<Rightarrow> segwriter res \<times> disk" where
  "OpenSegmentWriter dir term firstRev d =
     (let path = path_join dir (SegmentName term firstRev) in
      case os_Create path d of
        (Inl e, d) \<Rightarrow> (Inl e, d)
      | (Inr f, d) \<Rightarrow>
          (case writeHeader \<lparr>sw_f = f, sw_path = path, sw_term = term, sw_firstRev = firstRev, sw_size = 0,
                   sw_entryCount = 0, sw_sealed = False\<rparr> d of
             (Some e, sw, d) \<Rightarrow>
               (case sw_Close sw d of (_, _, d) \<Rightarrow> (case os_Remove path d of (_, d) \<Rightarrow> (Inl e, d)))
           | (None, sw, d) \<Rightarrow> (Inr sw, d)))"

definition sw_AppendNoSync :: "entry \<Rightarrow> segwriter \<Rightarrow> disk \<Rightarrow> goerr option \<times> segwriter \<times> disk" where
  "sw_AppendNoSync e sw d =
     (let b = AppendEntry [] e in
      case f_Write (sw_f sw) b d of
        (Some er, f, d) \<Rightarrow> (Some er, sw\<lparr>sw_f := f\<rparr>, d)
      | (None, f, d) \<Rightarrow>
          (None, sw\<lparr>sw_f := f, sw_size := wrap64 (sw_size sw + int (length b)),
             sw_entryCount := wrap64 (sw_entryCount sw + 1)\<rparr>, d))"

definition sw_Append :: "entry \<Rightarrow> segwriter \<Rightarrow> disk \<Rightarrow> goerr option \<times> segwriter \<times> disk" where
  "sw_Append e sw d =
     (let b = AppendEntry [] e in
      case f_Write (sw_f sw) b d of
        (Some er, f, d) \<Rightarrow> (Some er, sw\<lparr>sw_f := f\<rparr>, d)
      | (None, f, d) \<Rightarrow>
          (case f_Sync f d of
             (Some er, d) \<Rightarrow> (Some er, sw\<lparr>sw_f := f\<rparr>, d)
           | (None, d) \<Rightarrow>
               (None, sw\<lparr>sw_f := f, sw_size := wrap64 (sw_size sw + int (length b)),
                  sw_entryCount := wrap64 (sw_entryCount sw + 1)\<rparr>, d)))"

definition sw_Sync :: "segwriter \<Rightarrow> disk \<Rightarrow> goerr option \<times> disk" where
  "sw_Sync sw d = f_Sync (sw_f sw) d"

text \<open>\<open>Truncate\<close> and \<open>Seek\<close> reject a negative size; \<open>rollback\<close> is only called with a recorded size.\<close>

definition sw_rollback :: "int \<Rightarrow> int \<Rightarrow> segwriter \<Rightarrow> disk \<Rightarrow> goerr option \<times> segwriter \<times> disk" where
  "sw_rollback sz entryCount sw d =
     (case f_Truncate (sw_f sw) (nat sz) d of
        (Some e, d) \<Rightarrow> (Some e, sw, d)
      | (None, d) \<Rightarrow>
          (case f_Seek (sw_f sw) (nat sz) d of
             (Some e, f, d) \<Rightarrow> (Some e, sw\<lparr>sw_f := f\<rparr>, d)
           | (None, f, d) \<Rightarrow>
               (case f_Sync f d of
                  (Some e, d) \<Rightarrow> (Some e, sw\<lparr>sw_f := f\<rparr>, d)
                | (None, d) \<Rightarrow> (None, sw\<lparr>sw_f := f, sw_size := sz, sw_entryCount := entryCount\<rparr>, d))))"

definition sw_Seal :: "segwriter \<Rightarrow> disk \<Rightarrow> goerr option \<times> segwriter \<times> disk" where
  "sw_Seal sw d =
     (if sw_sealed sw then (None, sw, d)
      else case f_Close (sw_f sw) d of
          (Some e, f, d) \<Rightarrow> (Some e, sw\<lparr>sw_f := f\<rparr>, d)
        | (None, f, d) \<Rightarrow> (None, sw\<lparr>sw_f := f, sw_sealed := True\<rparr>, d))"

section \<open>Names\<close>

definition ParseSegmentName :: "gostring \<Rightarrow> nat \<times> int \<times> bool" where
  "ParseSegmentName name =
     (let name = TrimSuffix name (str ''.wal'') in
      case IndexByte name 45 of
        None \<Rightarrow> (0, 0, False)
      | Some idx \<Rightarrow>
          (case ParseUint (take idx name) of (t, err1) \<Rightarrow>
           case ParseInt (drop (idx + 1) name) of (r, err2) \<Rightarrow>
             if err1 \<noteq> None \<or> err2 \<noteq> None then (0, 0, False) else (t, r, True)))"

section \<open>Reader\<close>

record segreader =
  sr_r :: bytes
  sr_Term :: nat
  sr_FirstRev :: int
  sr_version :: int

definition newSegmentReader :: "bytes \<Rightarrow> segreader res" where
  "newSegmentReader r =
     (if length r < segHeaderLen then Inl (Err ''wal: read segment header'')
      else if gslice r 0 2 \<noteq> [84, 52] \<or> r ! 3 \<noteq> 10 then Inl (Err ''wal: bad segment magic'')
      else let version = int (unat (r ! 2)) in
        if version < 1 \<or> version > WALFormatVersion then Inl (Err ''wal: unsupported segment version'')
        else Inr \<lparr>sr_r = drop segHeaderLen r, sr_Term = get_be (gslice r 4 12),
               sr_FirstRev = get_i64 (gslice r 12 20), sr_version = version\<rparr>)"

definition NewSegmentReader :: "bytes \<Rightarrow> segreader res" where
  "NewSegmentReader r = newSegmentReader r"

definition OpenSegmentFile :: "gostring \<Rightarrow> disk \<Rightarrow> segreader res \<times> disk" where
  "OpenSegmentFile path d =
     (case os_ReadFile path d of (Inl e, d) \<Rightarrow> (Inl e, d) | (Inr b, d) \<Rightarrow> (newSegmentReader b, d))"

definition sr_Next :: "segreader \<Rightarrow> (entry \<times> segreader) res" where
  "sr_Next sr =
     (case ReadEntryVersion (sr_r sr) (sr_version sr) of
        Inl e \<Rightarrow> Inl e
      | Inr (e, r) \<Rightarrow> Inr (e, sr\<lparr>sr_r := r\<rparr>))"

lemma ReadEntryVersion_consumes: "ReadEntryVersion r v = Inr (e, r') \<Longrightarrow> length r' < length r"
  by (auto simp: ReadEntryVersion_def Let_def split: if_splits sum.splits)

function ReadAll :: "segreader \<Rightarrow> entry list \<times> goerr option" where
  "ReadAll sr =
     (case sr_Next sr of
        Inl err \<Rightarrow> if err = IoEOF then ([], None) else ([], Some err)
      | Inr (e, sr') \<Rightarrow> (case ReadAll sr' of (es, err) \<Rightarrow> (e # es, err)))"
  by pat_completeness auto
termination
  by (relation "measure (\<lambda>sr. length (sr_r sr))")
    (auto simp: sr_Next_def split: sum.splits dest: ReadEntryVersion_consumes)

declare ReadAll.simps [simp del]

section \<open>Segment contents\<close>

text \<open>The bytes of a segment with the given entries, and an entry as the reader returns it.\<close>

definition frames :: "entry list \<Rightarrow> bytes" where
  "frames es = concat (map (AppendEntry []) es)"

definition seg_file :: "nat \<Rightarrow> int \<Rightarrow> entry list \<Rightarrow> bytes" where
  "seg_file term firstRev es = seg_header term firstRev @ frames es"

definition normal :: "entry \<Rightarrow> entry" where
  "normal e = e\<lparr>e_ID := Sequence e\<rparr>"

text \<open>A writer that can be appended to: its file holds the header and whole frames, and the
  bookkeeping agrees with it.\<close>

definition sw_intact :: "segwriter \<Rightarrow> disk \<Rightarrow> entry list \<Rightarrow> bool" where
  "sw_intact sw d es \<longleftrightarrow>
     content d (sw_path sw) = Some (seg_file (sw_term sw) (sw_firstRev sw) es) \<and>
     f_path (sw_f sw) = sw_path sw \<and> f_open (sw_f sw) \<and> \<not> sw_sealed sw \<and>
     int (f_off (sw_f sw)) = sw_size sw \<and>
     sw_size sw = int (length (seg_file (sw_term sw) (sw_firstRev sw) es)) \<and>
     sw_entryCount sw = int (length es)"

section \<open>Reading back\<close>

lemma frames_simps [simp]: "frames [] = []" "frames (e # es) = AppendEntry [] e @ frames es"
  "frames (xs @ ys) = frames xs @ frames ys"
  by (simp_all add: frames_def)

lemma seg_file_append: "seg_file t r (xs @ ys) = seg_file t r xs @ frames ys"
  by (simp add: seg_file_def)

lemma length_seg_header [simp]: "length (seg_header t r) = 20"
  by (simp add: seg_header_def segMagic_def)

lemma newSegmentReader_header:
  assumes "is_u64 t" and "is_i64 r"
  shows "newSegmentReader (seg_header t r @ x) = Inr \<lparr>sr_r = x, sr_Term = t, sr_FirstRev = r, sr_version = 2\<rparr>"
proof -
  let ?b = "seg_header t r @ x"
  have f: "gslice ?b 4 12 = put_be 8 t" "gslice ?b 12 20 = put_i64 r" "gslice ?b 0 2 = [84, 52]"
    unfolding seg_header_def segMagic_def by (simp_all add: gslice_def)
  have o: "?b ! 2 = 2" "?b ! 3 = 10" by (simp_all add: seg_header_def segMagic_def)
  show ?thesis
    using assms by (simp add: newSegmentReader_def f o segHeaderLen_def WALFormatVersion_def codec_simps is_u64_def)
qed

lemma ReadAll_frames:
  assumes "\<forall>e \<in> set es. entry_ok e" and "ReadEntryVersion q 2 = Inl IoEOF"
    and "sr_r sr = frames es @ q" and "sr_version sr = 2"
  shows "ReadAll sr = (map normal es, None)"
  using assms(1,3,4)
proof (induction es arbitrary: sr)
  case Nil
  then show ?case using assms(2) by (subst ReadAll.simps) (simp add: sr_Next_def)
next
  case (Cons e es)
  have "sr_Next sr = Inr (normal e, sr\<lparr>sr_r := frames es @ q\<rparr>)"
    using Cons.prems ReadEntry_AppendEntry [of e "frames es @ q"] by (simp add: sr_Next_def normal_def)
  with Cons.IH [of "sr\<lparr>sr_r := frames es @ q\<rparr>"] Cons.prems show ?case
    by (subst ReadAll.simps) simp
qed

lemma take_frames:
  "\<exists>k q. k \<le> length es \<and> take n (frames es) = frames (take k es) @ q \<and>
     (if k = length es then q = [] else strict_prefix q (AppendEntry [] (es ! k)))"
proof (induction es arbitrary: n)
  case Nil
  then show ?case by simp
next
  case (Cons e es)
  let ?a = "AppendEntry [] e"
  show ?case
  proof (cases "n < length ?a")
    case True
    then have "strict_prefix (take n ?a) ?a" by (auto simp: strict_prefix_def take_is_prefix)
    with True show ?thesis by (intro exI [of _ 0] exI [of _ "take n ?a"]) simp
  next
    case False
    from Cons [of "n - length ?a"] obtain k q where k: "k \<le> length es"
      "take (n - length ?a) (frames es) = frames (take k es) @ q"
      "if k = length es then q = [] else strict_prefix q (AppendEntry [] (es ! k))" by blast
    with False show ?thesis by (intro exI [of _ "Suc k"] exI [of _ q]) simp
  qed
qed

lemma ReadEntry_short: "length q < 8 \<Longrightarrow> ReadEntryVersion q v = Inl IoEOF"
  by (simp add: ReadEntryVersion_def)

lemma crash_prefix:
  assumes "\<forall>e \<in> set es. entry_ok e" and "is_u64 t" and "is_i64 r" and "20 \<le> n"
  shows "\<exists>k sr. k \<le> length es \<and> newSegmentReader (take n (seg_file t r es)) = Inr sr \<and>
    sr_Term sr = t \<and> sr_FirstRev sr = r \<and> ReadAll sr = (map normal (take k es), None) \<and>
    length (seg_file t r (take k es)) \<le> n \<and>
    (k < length es \<longrightarrow> n < length (seg_file t r (take (Suc k) es)))"
proof -
  obtain k q where k: "k \<le> length es" "take (n - 20) (frames es) = frames (take k es) @ q"
    "if k = length es then q = [] else strict_prefix q (AppendEntry [] (es ! k))"
    using take_frames by blast
  let ?sr = "\<lparr>sr_r = frames (take k es) @ q, sr_Term = t, sr_FirstRev = r, sr_version = 2\<rparr>"
  have T: "take n (seg_file t r es) = seg_header t r @ frames (take k es) @ q"
    using assms(4) k(2) by (simp add: seg_file_def)
  then have L: "length (seg_file t r (take k es)) \<le> n"
    by (metis append_assoc length_append le_add1 length_take min.boundedE seg_file_def order_trans)
  have N: "newSegmentReader (take n (seg_file t r es)) = Inr ?sr"
    unfolding T using newSegmentReader_header assms(2,3) by simp
  have "ReadEntryVersion q 2 = Inl IoEOF"
    using k assms(1) by (cases "k = length es") (auto simp: ReadEntry_short intro: ReadEntry_torn)
  moreover have "\<forall>e \<in> set (take k es). entry_ok e" using assms(1) by (meson in_set_takeD)
  ultimately have R: "ReadAll ?sr = (map normal (take k es), None)" by (intro ReadAll_frames) simp_all
  have "n < length (seg_file t r (take (Suc k) es))" if "k < length es"
  proof -
    have "length q < length (AppendEntry [] (es ! k))" using k(3) that by (simp add: prefix_length_less)
    then have l: "length (frames (take k es) @ q) < length (frames (take (Suc k) es))"
      using that by (simp add: take_Suc_conv_app_nth)
    have "length (frames (take (Suc k) es)) \<le> length (frames es)"
      by (metis append_take_drop_id frames_simps(3) le_add1 length_append)
    with l k(2) have "n - 20 < length (frames (take (Suc k) es))"
      by (metis length_take min_less_iff_conj not_less min.commute leD min_def)
    then show ?thesis using assms(4) by (simp add: seg_file_def)
  qed
  with k(1) N R L show ?thesis by (intro exI [of _ k] exI [of _ ?sr]) simp
qed

section \<open>Writing\<close>

lemma sw_intact_content:
  "sw_intact sw d es \<Longrightarrow> content d (f_path (sw_f sw)) = Some (seg_file (sw_term sw) (sw_firstRev sw) es)"
  by (simp add: sw_intact_def)

lemma sw_intact_append:
  assumes "sw_intact sw d es" and "length (seg_file (sw_term sw) (sw_firstRev sw) (es @ [e])) < 2 ^ 63"
    and "f_Write (sw_f sw) (AppendEntry [] e) d = (None, f, d')"
  shows "sw_intact (sw\<lparr>sw_f := f, sw_size := wrap64 (sw_size sw + int (length (AppendEntry [] e))),
           sw_entryCount := wrap64 (sw_entryCount sw + 1)\<rparr>) d' (es @ [e])"
    and "content d' = (content d)(sw_path sw \<mapsto> seg_file (sw_term sw) (sw_firstRev sw) (es @ [e]))"
    and "d_dirs d' = d_dirs d"
proof -
  let ?s = "seg_file (sw_term sw) (sw_firstRev sw)"
  note W = f_Write_ok [OF assms(3) sw_intact_content [OF assms(1)]]
  have o: "f_off (sw_f sw) = length (?s es)" "f_path (sw_f sw) = sw_path sw"
    using assms(1) by (auto simp: sw_intact_def)
  show c: "content d' = (content d)(sw_path sw \<mapsto> ?s (es @ [e]))"
    using W(3) o by (simp add: seg_file_append)
  have n: "length es \<le> length (frames es)" for es
    by (induction es) (auto simp: length_AppendEntry)
  have "length (es @ [e]) \<le> length (frames (es @ [e]))" by (rule n)
  then have "length es + 1 \<le> length (?s (es @ [e]))" by (simp add: seg_file_def)
  then have ec: "wrap64 (int (length es) + 1) = int (length es) + 1"
    using assms(2) by (intro wrap64_pos) simp_all
  have sz: "wrap64 (int (length (?s es)) + int (length (AppendEntry [] e))) = int (length (?s (es @ [e])))"
    using assms(2) by (subst wrap64_pos) (simp_all add: seg_file_append)
  from assms(1) have i: "sw_size sw = int (length (?s es))" "sw_entryCount sw = int (length es)"
    "f_open (sw_f sw)" "\<not> sw_sealed sw" by (simp_all add: sw_intact_def)
  show "sw_intact (sw\<lparr>sw_f := f, sw_size := wrap64 (sw_size sw + int (length (AppendEntry [] e))),
           sw_entryCount := wrap64 (sw_entryCount sw + 1)\<rparr>) d' (es @ [e])"
    unfolding sw_intact_def i ec sz c W(1) using o i(3,4) by (simp add: seg_file_append)
  show "d_dirs d' = d_dirs d" by (fact W(4))
qed

lemma sw_AppendNoSync_ok:
  assumes "sw_AppendNoSync e sw d = (None, sw', d')" and "sw_intact sw d es"
    and "length (seg_file (sw_term sw) (sw_firstRev sw) (es @ [e])) < 2 ^ 63"
  shows "sw_intact sw' d' (es @ [e]) \<and> sw_path sw' = sw_path sw \<and> sw_term sw' = sw_term sw \<and>
    sw_firstRev sw' = sw_firstRev sw \<and> d_dirs d' = d_dirs d \<and>
    content d' = (content d)(sw_path sw \<mapsto> seg_file (sw_term sw) (sw_firstRev sw) (es @ [e]))"
  using assms(1) sw_intact_append [OF assms(2,3)]
  by (auto simp: sw_AppendNoSync_def Let_def split: prod.splits option.splits)

lemma sw_Append_ok:
  assumes "sw_Append e sw d = (None, sw', d')" and "sw_intact sw d es"
    and "length (seg_file (sw_term sw) (sw_firstRev sw) (es @ [e])) < 2 ^ 63"
  shows "sw_intact sw' d' (es @ [e]) \<and> sw_path sw' = sw_path sw \<and> sw_term sw' = sw_term sw \<and>
    sw_firstRev sw' = sw_firstRev sw \<and> d_dirs d' = d_dirs d \<and>
    content d' = (content d)(sw_path sw \<mapsto> seg_file (sw_term sw) (sw_firstRev sw) (es @ [e]))"
proof -
  obtain f d1 where w: "f_Write (sw_f sw) (AppendEntry [] e) d = (None, f, d1)" and s: "f_Sync f d1 = (None, d')"
    and sw': "sw' = sw\<lparr>sw_f := f, sw_size := wrap64 (sw_size sw + int (length (AppendEntry [] e))),
                  sw_entryCount := wrap64 (sw_entryCount sw + 1)\<rparr>"
    using assms(1) by (auto simp: sw_Append_def Let_def split: prod.splits option.splits)
  note A = sw_intact_append [OF assms(2,3) w] and F = f_Sync_frame [OF s]
  from A F show ?thesis by (auto simp: sw' sw_intact_def)
qed

lemma OpenSegmentWriter_ok:
  assumes "OpenSegmentWriter dir t r d = (Inr sw, d')"
  shows "sw_intact sw d' [] \<and> sw_path sw = path_join dir (SegmentName t r) \<and> sw_term sw = t \<and>
    sw_firstRev sw = r \<and> d_dirs d' = d_dirs d \<and>
    content d' = (content d)(path_join dir (SegmentName t r) \<mapsto> seg_file t r [])"
proof -
  let ?p = "path_join dir (SegmentName t r)"
  obtain f d1 f' where c: "os_Create ?p d = (Inr f, d1)" and w: "f_Write f (seg_header t r) d1 = (None, f', d')"
    and sw: "sw = \<lparr>sw_f = f', sw_path = ?p, sw_term = t, sw_firstRev = r, sw_size = int segHeaderLen,
               sw_entryCount = 0, sw_sealed = False\<rparr>"
    using assms
    by (auto simp: OpenSegmentWriter_def writeHeader_def Let_def split: prod.splits sum.splits option.splits)
  note C = os_Create_ok [OF c]
  then have "content d1 (f_path f) = Some []" by simp
  note W = f_Write_ok [OF w this]
  from C W show ?thesis
    by (simp add: sw sw_intact_def seg_file_def overwrite_def segHeaderLen_def)
qed

lemma sw_Seal_frame:
  assumes "sw_Seal sw d = (e, sw', d')"
  shows "content d' = content d \<and> d_dirs d' = d_dirs d \<and> sw_path sw' = sw_path sw \<and> sw_term sw' = sw_term sw \<and>
    sw_firstRev sw' = sw_firstRev sw \<and> sw_entryCount sw' = sw_entryCount sw"
  using assms by (auto simp: sw_Seal_def split: if_splits prod.splits option.splits dest!: f_Close_frame)

lemma sw_rollback_ok:
  assumes "sw_rollback (sw_size sw0) (sw_entryCount sw0) sw d = (None, sw', d')"
    and "sw_intact sw0 d0 es" and "content d (sw_path sw) = Some (seg_file (sw_term sw) (sw_firstRev sw) es @ q)"
    and "sw_path sw = sw_path sw0" "sw_term sw = sw_term sw0" "sw_firstRev sw = sw_firstRev sw0"
    and "f_path (sw_f sw) = sw_path sw" "f_open (sw_f sw)" "\<not> sw_sealed sw"
  shows "sw_intact sw' d' es \<and>
    content d' = (content d)(sw_path sw \<mapsto> seg_file (sw_term sw) (sw_firstRev sw) es) \<and> d_dirs d' = d_dirs d \<and>
    sw_path sw' = sw_path sw \<and> sw_term sw' = sw_term sw \<and> sw_firstRev sw' = sw_firstRev sw"
proof -
  let ?n = "nat (sw_size sw0)"
  have n: "?n = length (seg_file (sw_term sw) (sw_firstRev sw) es)" "sw_size sw0 = int (length (seg_file (sw_term sw) (sw_firstRev sw) es))"
    "sw_entryCount sw0 = int (length es)"
    using assms(2,5,6) by (simp_all add: sw_intact_def)
  obtain d1 f d2 where t: "f_Truncate (sw_f sw) ?n d = (None, d1)" and k: "f_Seek (sw_f sw) ?n d1 = (None, f, d2)"
    and s: "f_Sync f d2 = (None, d')"
    and sw': "sw' = sw\<lparr>sw_f := f, sw_size := sw_size sw0, sw_entryCount := sw_entryCount sw0\<rparr>"
    using assms(1) by (auto simp: sw_rollback_def split: prod.splits option.splits)
  have "content d (f_path (sw_f sw)) = Some (seg_file (sw_term sw) (sw_firstRev sw) es @ q)"
    using assms(3,7) by simp
  note T = f_Truncate_ok [OF t this] and K = f_Seek_frame [OF k] and S = f_Sync_frame [OF s]
  from T K S n assms(7-9) show ?thesis by (simp add: sw' sw_intact_def)
qed

section \<open>Names\<close>

lemma dash_not_in_fmt: "45 \<notin> set (fmt_0u w n)"
  using fmt_0u_chars [of 45 w n] by auto

lemma ParseSegmentName_SegmentName:
  assumes "is_u64 t" and "is_i64 r"
  shows "ParseSegmentName (SegmentName t r) = (t, r, True)"
proof -
  let ?n = "fmt_0u 10 t @ 45 # fmt_0d 20 r"
  have "SegmentName t r = ?n @ str ''.wal''" by (simp add: SegmentName_def str_def)
  then have "TrimSuffix (SegmentName t r) (str ''.wal'') = ?n" by (simp only: TrimSuffix_append)
  with assms show ?thesis
    by (simp add: ParseSegmentName_def IndexByte_append dash_not_in_fmt is_u64_def)
qed

lemma SegmentName_less:
  assumes "t < 10 ^ 10" "t' < 10 ^ 10" "0 \<le> r" "0 \<le> r'" "is_i64 r" "is_i64 r'"
  shows "SegmentName t r < SegmentName t' r' \<longleftrightarrow> t < t' \<or> t = t' \<and> r < r'"
proof -
  have b: "nat r < 10 ^ 20" "nat r' < 10 ^ 20" using assms by (simp_all add: is_i64_def nat_less_iff)
  from assms b show ?thesis
    by (simp add: SegmentName_def fmt_0d_def fmt_0u_width append_less_append put_dec_less_iff put_dec_inject
        nat_less_eq_zless del: zless_nat_conj)
qed

section \<open>Properties\<close>

text \<open>C21: a segment file cut at any byte is recovered: below 20 bytes the header is reported missing;
  otherwise reading succeeds, without an error, with exactly the entries whose frames are complete.\<close>

theorem wal_crash_prefix:
  assumes "\<forall>e \<in> set es. entry_ok e" and "is_u64 t" and "is_i64 r"
  shows "if n < 20 then newSegmentReader (take n (seg_file t r es)) = Inl (Err ''wal: read segment header'')
    else \<exists>k sr. k \<le> length es \<and> newSegmentReader (take n (seg_file t r es)) = Inr sr \<and>
      sr_Term sr = t \<and> sr_FirstRev sr = r \<and> ReadAll sr = (map normal (take k es), None) \<and>
      length (seg_file t r (take k es)) \<le> n \<and>
      (k < length es \<longrightarrow> n < length (seg_file t r (take (Suc k) es)))"
proof (cases "n < 20")
  case True
  then have "length (take n (seg_file t r es)) < 20" by (simp add: min_less_iff_disj)
  with True show ?thesis by (simp only: newSegmentReader_def segHeaderLen_def if_True)
next
  case False
  then have "20 \<le> n" by simp
  from crash_prefix [OF assms this] False show ?thesis by (simp only: if_False)
qed

theorem wal_crash_prefix_witness:
  "\<exists>sr. newSegmentReader (take 100 (seg_file 1 5 [entry0\<lparr>e_Revision := 5\<rparr>, entry0\<lparr>e_Revision := 6\<rparr>])) = Inr sr \<and>
     ReadAll sr = ([entry0\<lparr>e_ID := 5, e_Revision := 5\<rparr>], None)"
proof -
  let ?es = "[entry0\<lparr>e_Revision := 5\<rparr>, entry0\<lparr>e_Revision := 6\<rparr>]"
  have ok: "\<forall>e \<in> set ?es. entry_ok e" "is_u64 1" "is_i64 5"
    by (simp_all add: entry_ok_def entry0_def is_i64_def is_u64_def)
  have "\<exists>k sr. k \<le> length ?es \<and> newSegmentReader (take 100 (seg_file 1 5 ?es)) = Inr sr \<and>
      sr_Term sr = 1 \<and> sr_FirstRev sr = 5 \<and> ReadAll sr = (map normal (take k ?es), None) \<and>
      length (seg_file 1 5 (take k ?es)) \<le> 100 \<and>
      (k < length ?es \<longrightarrow> 100 < length (seg_file 1 5 (take (Suc k) ?es)))"
    using wal_crash_prefix [OF ok, of 100] by simp
  then obtain k sr where k: "newSegmentReader (take 100 (seg_file 1 5 ?es)) = Inr sr"
    "ReadAll sr = (map normal (take k ?es), None)" "length (seg_file 1 5 (take k ?es)) \<le> 100"
    "k < length ?es \<longrightarrow> 100 < length (seg_file 1 5 (take (Suc k) ?es))" by blast
  have "k = 1"
    using k(3,4) by (cases k) (auto simp: seg_file_def length_AppendEntry entry0_def take_Cons' split: if_splits)
  with k(1,2) show ?thesis by (simp add: normal_def Sequence_def entry0_def)
qed

text \<open>A segment name determines its term and first sequence, and names sort by term and then by
  first sequence as long as terms have at most ten digits and sequences are not negative.\<close>

theorem segment_names:
  assumes "t < 10 ^ 10" "t' < 10 ^ 10" "0 \<le> r" "0 \<le> r'" "is_i64 r" "is_i64 r'"
  shows "ParseSegmentName (SegmentName t r) = (t, r, True) \<and>
    (SegmentName t r < SegmentName t' r' \<longleftrightarrow> t < t' \<or> t = t' \<and> r < r')"
  using assms SegmentName_less ParseSegmentName_SegmentName [of t r] by (simp add: is_u64_def)

theorem segment_names_witness: "SegmentName 9 100 < SegmentName 10 2"
  using segment_names [of 9 10 100 2] by (simp add: is_i64_def)

end
