(* ===== verification/Wal_Log.thy ===== *)
theory Wal_Log
  imports Wal_Segment
begin

text \<open>
  The write-ahead log of one node, \<open>src/internal/wal/wal.go\<close>: opening, appending one entry or a
  batch, rotation by size, by age and before a checkpoint, synchronous and background upload,
  closing, local replay.

  The state is the \<open>WAL\<close> struct as a record, the disk, and the state of the object storage behind
  the uploader. The uploader is an argument, as it is in the source (\<open>WithUploader\<close>); \<open>None\<close> is the
  nil uploader. A goroutine's loop body is one definition: \<open>rotation_tick\<close>, \<open>upload_step\<close>, and
  \<open>upload_retry\<close> for the delayed re-queueing; the mutex makes each of them one step. A nil
  \<open>active\<close> segment would make the source panic; that is the error \<open>nil_active\<close>.
  The context passed to \<open>AppendBatch\<close> is the value of \<open>ctx.Err()\<close>.
\<close>

type_synonym 'o uploader = "gostring \<Rightarrow> gostring \<Rightarrow> disk \<Rightarrow> 'o \<Rightarrow> goerr option \<times> disk \<times> 'o"

record wal =
  w_dir :: gostring
  w_term :: nat
  w_segMaxSize :: int
  w_syncUpload :: bool
  w_active :: "segwriter option"
  w_closed :: bool
  w_uploadC :: "(gostring \<times> gostring) list"
  w_retry :: "(gostring \<times> gostring) list"

definition DefaultSegmentMaxSize :: int where "DefaultSegmentMaxSize = 52428800"
definition uploadC_cap :: nat where "uploadC_cap = 64"
definition nil_active :: goerr where "nil_active = Err ''nil pointer dereference''"

definition ObjectKey :: "nat \<Rightarrow> int \<Rightarrow> gostring" where
  "ObjectKey term firstRev = str ''wal/'' @ fmt_0u 10 term @ str ''/'' @ fmt_0d 20 firstRev"

definition wal_New :: "int \<Rightarrow> bool \<Rightarrow> wal" where
  "wal_New segMaxSize syncUpload = \<lparr>w_dir = [], w_term = 0, w_segMaxSize = segMaxSize,
     w_syncUpload = syncUpload, w_active = None, w_closed = False, w_uploadC = [], w_retry = []\<rparr>"

definition wal_Open :: "gostring \<Rightarrow> nat \<Rightarrow> int \<Rightarrow> wal \<Rightarrow> disk \<Rightarrow> goerr option \<times> wal \<times> disk" where
  "wal_Open dir term startRev w d =
     (case os_MkdirAll dir d of
        (Some e, d) \<Rightarrow> (Some e, w, d)
      | (None, d) \<Rightarrow>
          let w = w\<lparr>w_dir := dir, w_term := term, w_closed := False, w_uploadC := []\<rparr> in
          (case OpenSegmentWriter dir term startRev d of
             (Inl e, d) \<Rightarrow> (Some e, w, d)
           | (Inr sw, d) \<Rightarrow> (None, w\<lparr>w_active := Some sw\<rparr>, d)))"

text \<open>\<open>LocalSegments\<close>.\<close>

definition LocalSegments :: "gostring \<Rightarrow> disk \<Rightarrow> gostring list res \<times> disk" where
  "LocalSegments dir d =
     (case os_ReadDir dir d of
        (Inl e, d) \<Rightarrow> (Inl e, d)
      | (Inr names, d) \<Rightarrow> (Inr (sort (map (path_join dir) (filter (\<lambda>n. HasSuffix n (str ''.wal'')) names))), d))"

fun maxseq_loop :: "gostring list \<Rightarrow> int \<Rightarrow> goerr option \<Rightarrow> disk \<Rightarrow> (int \<times> goerr option) \<times> disk" where
  "maxseq_loop [] m firstErr d = ((m, firstErr), d)"
| "maxseq_loop (p # ps) m firstErr d =
     (case OpenSegmentFile p d of
        (Inl e, d) \<Rightarrow> maxseq_loop ps m (if firstErr = None then Some e else firstErr) d
      | (Inr sr, d) \<Rightarrow>
          (case ReadAll sr of (es, readErr) \<Rightarrow>
             maxseq_loop ps (foldl (\<lambda>m e. if Sequence e > m then Sequence e else m) m es)
               (if readErr \<noteq> None \<and> firstErr = None then readErr else firstErr) d))"

definition MaxSequence :: "gostring \<Rightarrow> disk \<Rightarrow> (int \<times> goerr option) \<times> disk" where
  "MaxSequence dir d =
     (case LocalSegments dir d of
        (Inl e, d) \<Rightarrow> (if e = ErrNotExist then (0, None) else (0, Some e), d)
      | (Inr paths, d) \<Rightarrow> maxseq_loop paths 0 None d)"

text \<open>\<open>ReplayLocal\<close>; \<open>recover\<close> is the \<open>Recover\<close> method of the state machine.\<close>

fun replay_loop :: "(entry list \<Rightarrow> 'db \<Rightarrow> goerr option \<times> 'db) \<Rightarrow> int \<Rightarrow> gostring list \<Rightarrow>
    'db \<Rightarrow> disk \<Rightarrow> goerr option \<times> 'db \<times> disk" where
  "replay_loop recover afterSeq [] db d = (None, db, d)"
| "replay_loop recover afterSeq (p # ps) db d =
     (case OpenSegmentFile p d of
        (Inl e, d) \<Rightarrow> (Some e, db, d)
      | (Inr sr, d) \<Rightarrow>
          let applicable = filter (\<lambda>e. Sequence e > afterSeq) (fst (ReadAll sr)) in
          if applicable \<noteq> [] then
            (case recover applicable db of
               (Some e, db) \<Rightarrow> (Some e, db, d)
             | (None, db) \<Rightarrow> replay_loop recover afterSeq ps db d)
          else replay_loop recover afterSeq ps db d)"

definition ReplayLocal :: "(entry list \<Rightarrow> 'db \<Rightarrow> goerr option \<times> 'db) \<Rightarrow> int \<Rightarrow> wal \<Rightarrow>
    'db \<Rightarrow> disk \<Rightarrow> goerr option \<times> 'db \<times> disk" where
  "ReplayLocal recover afterSeq w db d =
     (case LocalSegments (w_dir w) d of
        (Inl e, d) \<Rightarrow> (Some e, db, d)
      | (Inr paths, d) \<Rightarrow> replay_loop recover afterSeq paths db d)"

definition removeUploadedSegment :: "gostring \<Rightarrow> disk \<Rightarrow> goerr option \<times> disk" where
  "removeUploadedSegment path d =
     (case os_Remove path d of
        (Some e, d) \<Rightarrow> (if e = ErrNotExist then (None, d) else (Some e, d))
      | (None, d) \<Rightarrow> (None, d))"

text \<open>A non-blocking send on the upload channel.\<close>

definition enqueue :: "gostring \<times> gostring \<Rightarrow> wal \<Rightarrow> wal" where
  "enqueue t w = (if length (w_uploadC w) < uploadC_cap then w\<lparr>w_uploadC := w_uploadC w @ [t]\<rparr> else w)"

definition rotateLocked :: "'o uploader option \<Rightarrow> wal \<Rightarrow> disk \<Rightarrow> wal \<times> disk" where
  "rotateLocked up w d =
     (case w_active w of
        None \<Rightarrow> (w, d)
      | Some seg \<Rightarrow>
          let nextRev = wrap64 (sw_firstRev seg + sw_entryCount seg) in
          (case sw_Seal seg d of
             (Some e, seg, d) \<Rightarrow> (w\<lparr>w_active := Some seg\<rparr>, d)
           | (None, seg, d) \<Rightarrow>
               let w = w\<lparr>w_active := Some seg\<rparr>;
                   w = (if up \<noteq> None then enqueue (sw_path seg, ObjectKey (sw_term seg) (sw_firstRev seg)) w else w)
               in (case OpenSegmentWriter (w_dir w) (w_term w) nextRev d of
                     (Inl e, d) \<Rightarrow> (w, d)
                   | (Inr sw, d) \<Rightarrow> (w\<lparr>w_active := Some sw\<rparr>, d))))"

definition rotateSyncLocked :: "'o uploader \<Rightarrow> int \<Rightarrow> int \<Rightarrow> wal \<Rightarrow> disk \<Rightarrow> 'o \<Rightarrow>
    goerr option \<times> wal \<times> disk \<times> 'o" where
  "rotateSyncLocked up rollbackSize rollbackEntryCount w d ob =
     (case w_active w of
        None \<Rightarrow> (None, w, d, ob)
      | Some seg \<Rightarrow>
          if sw_entryCount seg = 0 then (None, w, d, ob)
          else
            let nextRev = wrap64 (sw_firstRev seg + sw_entryCount seg);
                objKey = ObjectKey (sw_term seg) (sw_firstRev seg);
                localPath = sw_path seg
            in case up localPath objKey d ob of
                 (Some uploadErr, d, ob) \<Rightarrow>
                   (case sw_rollback rollbackSize rollbackEntryCount seg d of
                      (Some rollbackErr, seg, d) \<Rightarrow> (Some uploadErr, w\<lparr>w_active := Some seg\<rparr>, d, ob)
                    | (None, seg, d) \<Rightarrow> (Some uploadErr, w\<lparr>w_active := Some seg\<rparr>, d, ob))
               | (None, d, ob) \<Rightarrow>
                   (case sw_Seal seg d of
                      (Some e, seg, d) \<Rightarrow> (Some e, w\<lparr>w_active := Some seg\<rparr>, d, ob)
                    | (None, seg, d) \<Rightarrow>
                        (case OpenSegmentWriter (w_dir w) (w_term w) nextRev d of
                           (Inl e, d) \<Rightarrow> (Some e, w\<lparr>w_active := Some seg\<rparr>, d, ob)
                         | (Inr sw, d) \<Rightarrow>
                             (case removeUploadedSegment localPath d of
                                (_, d) \<Rightarrow> (None, w\<lparr>w_active := Some sw\<rparr>, d, ob)))))"

definition wal_Append :: "'o uploader option \<Rightarrow> entry \<Rightarrow> wal \<Rightarrow> disk \<Rightarrow> goerr option \<times> wal \<times> disk" where
  "wal_Append up e w d =
     (if w_closed w then (Some (Err ''wal: closed''), w, d)
      else case w_active w of
          None \<Rightarrow> (Some nil_active, w, d)
        | Some sw \<Rightarrow>
            (case sw_Append e sw d of
               (Some er, sw, d) \<Rightarrow> (Some er, w\<lparr>w_active := Some sw\<rparr>, d)
             | (None, sw, d) \<Rightarrow>
                 let w = w\<lparr>w_active := Some sw\<rparr> in
                 if sw_size sw \<ge> w_segMaxSize w
                 then (case rotateLocked up w d of (w, d) \<Rightarrow> (None, w, d))
                 else (None, w, d)))"

fun append_entries :: "entry list \<Rightarrow> segwriter \<Rightarrow> disk \<Rightarrow> goerr option \<times> segwriter \<times> disk" where
  "append_entries [] sw d = (None, sw, d)"
| "append_entries (e # es) sw d =
     (case sw_AppendNoSync e sw d of
        (Some er, sw, d) \<Rightarrow> (Some er, sw, d)
      | (None, sw, d) \<Rightarrow> append_entries es sw d)"

definition AppendBatch :: "'o uploader option \<Rightarrow> goerr option \<Rightarrow> entry list \<Rightarrow> wal \<Rightarrow> disk \<Rightarrow> 'o \<Rightarrow>
    goerr option \<times> wal \<times> disk \<times> 'o" where
  "AppendBatch up ctxErr entries w d ob =
     (if ctxErr \<noteq> None then (ctxErr, w, d, ob)
      else if w_closed w then (Some (Err ''wal: closed''), w, d, ob)
      else case w_active w of
          None \<Rightarrow> (Some nil_active, w, d, ob)
        | Some sw0 \<Rightarrow>
            (case append_entries entries sw0 d of
               (Some e, sw, d) \<Rightarrow> (Some e, w\<lparr>w_active := Some sw\<rparr>, d, ob)
             | (None, sw, d) \<Rightarrow>
                 let w = w\<lparr>w_active := Some sw\<rparr> in
                 (case sw_Sync sw d of
                    (Some e, d) \<Rightarrow> (Some e, w, d, ob)
                  | (None, d) \<Rightarrow>
                      if w_syncUpload w \<and> up \<noteq> None
                      then rotateSyncLocked (the up) (sw_size sw0) (sw_entryCount sw0) w d ob
                      else if sw_size sw \<ge> w_segMaxSize w
                      then (case rotateLocked up w d of (w, d) \<Rightarrow> (None, w, d, ob))
                      else (None, w, d, ob))))"

text \<open>One tick of \<open>rotationLoop\<close>.\<close>

definition rotation_tick :: "'o uploader option \<Rightarrow> wal \<Rightarrow> disk \<Rightarrow> wal \<times> disk" where
  "rotation_tick up w d =
     (case w_active w of
        None \<Rightarrow> (w, d)
      | Some seg \<Rightarrow>
          if sw_entryCount seg > 0 then
            let rev = wrap64 (sw_firstRev seg + sw_entryCount seg) in
            (case sw_Seal seg d of
               (Some e, seg, d) \<Rightarrow> (w\<lparr>w_active := Some seg\<rparr>, d)
             | (None, old, d) \<Rightarrow>
                 (case OpenSegmentWriter (w_dir w) (w_term w) rev d of
                    (Inl e, d) \<Rightarrow> (w\<lparr>w_active := Some old\<rparr>, d)
                  | (Inr sw, d) \<Rightarrow>
                      let w = (if up \<noteq> None
                               then enqueue (sw_path old, ObjectKey (sw_term old) (sw_firstRev old)) w else w)
                      in (w\<lparr>w_active := Some sw\<rparr>, d)))
          else (w, d))"

text \<open>One task of \<open>uploadLoop\<close> (\<open>ctxDone\<close>: the loop's context is cancelled), and the firing of a delayed retry.\<close>

definition upload_step :: "'o uploader option \<Rightarrow> bool \<Rightarrow> wal \<Rightarrow> disk \<Rightarrow> 'o \<Rightarrow> wal \<times> disk \<times> 'o" where
  "upload_step up ctxDone w d ob =
     (case w_uploadC w of
        [] \<Rightarrow> (w, d, ob)
      | (localPath, objectKey) # ts \<Rightarrow>
          let w = w\<lparr>w_uploadC := ts\<rparr> in
          (case up of
             None \<Rightarrow> (w, d, ob)
           | Some u \<Rightarrow>
               (case u localPath objectKey d ob of
                  (Some e, d, ob) \<Rightarrow>
                    if ctxDone \<or> e = ErrNotExist then (w, d, ob)
                    else (w\<lparr>w_retry := w_retry w @ [(localPath, objectKey)]\<rparr>, d, ob)
                | (None, d, ob) \<Rightarrow> (case removeUploadedSegment localPath d of (_, d) \<Rightarrow> (w, d, ob)))))"

definition upload_retry :: "wal \<Rightarrow> wal" where
  "upload_retry w = (case w_retry w of [] \<Rightarrow> w | t # ts \<Rightarrow> enqueue t (w\<lparr>w_retry := ts\<rparr>))"

text \<open>\<open>SealAndFlush\<close>; its send blocks until the upload loop has made room.\<close>

definition SealAndFlush :: "'o uploader option \<Rightarrow> int \<Rightarrow> wal \<Rightarrow> disk \<Rightarrow> goerr option \<times> wal \<times> disk" where
  "SealAndFlush up nextSeq w d =
     (case w_active w of
        None \<Rightarrow> (None, w, d)
      | Some old \<Rightarrow>
          if sw_entryCount old = 0 then (None, w, d)
          else (case sw_Seal old d of
             (Some e, old, d) \<Rightarrow> (Some e, w\<lparr>w_active := Some old\<rparr>, d)
           | (None, old, d) \<Rightarrow>
               (case OpenSegmentWriter (w_dir w) (w_term w) nextSeq d of
                  (Inl e, d) \<Rightarrow> (Some e, w\<lparr>w_active := Some old\<rparr>, d)
                | (Inr sw, d) \<Rightarrow>
                    let w = w\<lparr>w_active := Some sw\<rparr> in
                    if up \<noteq> None
                    then (None, w\<lparr>w_uploadC := w_uploadC w @
                            [(sw_path old, ObjectKey (sw_term old) (sw_firstRev old))]\<rparr>, d)
                    else (None, w, d))))"

definition upload_final :: "'o uploader \<Rightarrow> gostring \<times> gostring \<Rightarrow> goerr option \<Rightarrow> disk \<Rightarrow> 'o \<Rightarrow>
    goerr option \<times> disk \<times> 'o" where
  "upload_final up t uploadErr d ob =
     (case up (fst t) (snd t) d ob of
        (Some e, d, ob) \<Rightarrow> (if uploadErr = None then Some e else uploadErr, d, ob)
      | (None, d, ob) \<Rightarrow>
          (case removeUploadedSegment (fst t) d of
             (Some e, d) \<Rightarrow> (if uploadErr = None then Some e else uploadErr, d, ob)
           | (None, d) \<Rightarrow> (uploadErr, d, ob)))"

fun drain_uploads :: "'o uploader \<Rightarrow> (gostring \<times> gostring) list \<Rightarrow> goerr option \<Rightarrow> disk \<Rightarrow> 'o \<Rightarrow>
    goerr option \<times> disk \<times> 'o" where
  "drain_uploads up [] uploadErr d ob = (uploadErr, d, ob)"
| "drain_uploads up (t # ts) uploadErr d ob =
     (case upload_final up t uploadErr d ob of (uploadErr, d, ob) \<Rightarrow> drain_uploads up ts uploadErr d ob)"

definition wal_Close :: "'o uploader option \<Rightarrow> wal \<Rightarrow> disk \<Rightarrow> 'o \<Rightarrow> goerr option \<times> wal \<times> disk \<times> 'o" where
  "wal_Close up w d ob =
     (if w_closed w then (None, w, d, ob)
      else
        let w = w\<lparr>w_closed := True\<rparr>;
            (finalSeg, d) =
              (case w_active w of
                 None \<Rightarrow> (None, d)
               | Some sw \<Rightarrow>
                   if sw_entryCount sw > 0 then
                     (case sw_Seal sw d of (Some e, sw, d) \<Rightarrow> (None, d) | (None, sw, d) \<Rightarrow> (Some sw, d))
                   else (case sw_Close sw d of (_, sw, d) \<Rightarrow>
                           (case os_Remove (sw_path sw) d of (_, d) \<Rightarrow> (None, d))));
            w = w\<lparr>w_active := None, w_retry := []\<rparr>
        in case up of
             None \<Rightarrow> (None, w, d, ob)
           | Some u \<Rightarrow>
               (case drain_uploads u (w_uploadC w) None d ob of (uploadErr, d, ob) \<Rightarrow>
                  let w = w\<lparr>w_uploadC := []\<rparr> in
                  (case finalSeg of
                     None \<Rightarrow> (uploadErr, w, d, ob)
                   | Some seg \<Rightarrow>
                       (case upload_final u (sw_path seg, ObjectKey (sw_term seg) (sw_firstRev seg)) uploadErr d ob of
                          (uploadErr, d, ob) \<Rightarrow> (uploadErr, w, d, ob)))))"

section \<open>The log as a list of entries\<close>

text \<open>The segment files of a directory in name order, and the entries they hold.\<close>

definition seg_set :: "gostring \<Rightarrow> disk \<Rightarrow> gostring set" where
  "seg_set dir d = {p \<in> dom (content d). \<exists>n. p = path_join dir n \<and> 47 \<notin> set n \<and> HasSuffix n (str ''.wal'')}"

definition read_seg :: "bytes \<Rightarrow> entry list" where
  "read_seg b = (case newSegmentReader b of Inl _ \<Rightarrow> [] | Inr sr \<Rightarrow> fst (ReadAll sr))"

definition local_log :: "gostring \<Rightarrow> disk \<Rightarrow> entry list" where
  "local_log dir d = concat (map (\<lambda>p. read_seg (the (content d p))) (sorted_list_of_set (seg_set dir d)))"

text \<open>A log that accepts appends: the active segment is intact and holds the entries \<open>es\<close>.\<close>

definition wal_ready :: "wal \<Rightarrow> disk \<Rightarrow> segwriter \<Rightarrow> entry list \<Rightarrow> bool" where
  "wal_ready w d sw es \<longleftrightarrow> w_active w = Some sw \<and> \<not> w_closed w \<and> sw_intact sw d es \<and> sw_term sw = w_term w \<and>
     sw_path sw = path_join (w_dir w) (SegmentName (sw_term sw) (sw_firstRev sw))"

section \<open>Appending\<close>

lemma append_entries_ok:
  assumes "append_entries es' sw d = (None, sw', d')" and "sw_intact sw d es"
    and "length (seg_file (sw_term sw) (sw_firstRev sw) (es @ es')) < 2 ^ 63"
  shows "sw_intact sw' d' (es @ es') \<and> sw_path sw' = sw_path sw \<and> sw_term sw' = sw_term sw \<and>
    sw_firstRev sw' = sw_firstRev sw \<and> d_dirs d' = d_dirs d \<and>
    content d' = (content d)(sw_path sw \<mapsto> seg_file (sw_term sw) (sw_firstRev sw) (es @ es'))"
  using assms
proof (induction es' arbitrary: sw d es)
  case Nil
  then show ?case by (auto simp: sw_intact_def fun_eq_iff)
next
  case (Cons e es')
  obtain sw1 d1 where a: "sw_AppendNoSync e sw d = (None, sw1, d1)"
    and r: "append_entries es' sw1 d1 = (None, sw', d')"
    using Cons.prems(1) by (auto split: prod.splits option.splits)
  have "length (seg_file (sw_term sw) (sw_firstRev sw) (es @ [e])) < 2 ^ 63"
    using Cons.prems(3) by (simp add: seg_file_def)
  note A = sw_AppendNoSync_ok [OF a Cons.prems(2) this]
  with Cons.IH [OF r, of "es @ [e]"] Cons.prems(3) show ?case by (simp add: fun_upd_def) (auto simp: fun_eq_iff)
qed

lemma name_props: "47 \<notin> set (SegmentName t r)" "HasSuffix (SegmentName t r) (str ''.wal'')"
proof -
  have "47 \<notin> set (fmt_0u 10 t)" "47 \<notin> set (fmt_0d 20 r)"
    using fmt_0u_chars [of 47] fmt_0d_chars [of 47] by fastforce+
  then show "47 \<notin> set (SegmentName t r)" by (simp add: SegmentName_def str_def)
  show "HasSuffix (SegmentName t r) (str ''.wal'')"
    unfolding SegmentName_def by (metis HasSuffix_append append_assoc)
qed

lemma seg_set_update:
  "content d' = (content d)(path_join dir (SegmentName t r) \<mapsto> b) \<Longrightarrow>
   seg_set dir d' = insert (path_join dir (SegmentName t r)) (seg_set dir d)"
  using name_props [of t r] by (auto simp: seg_set_def)

lemma finite_seg_set [simp]: "finite (seg_set dir d)"
  by (rule finite_subset [of _ "dom (content d)"]) (auto simp: seg_set_def content_def [abs_def] finite_dom_map_of)

lemma sorted_list_of_set_insert_max:
  assumes "finite A" and "\<forall>x \<in> A. x < (p :: 'a::linorder)"
  shows "sorted_list_of_set (insert p A) = sorted_list_of_set A @ [p]"
proof -
  have "p \<notin> A" using assms(2) by auto
  moreover have "insort p xs = xs @ [p]" if "\<forall>x \<in> set xs. x < p" for xs
    using that by (induction xs) auto
  ultimately show ?thesis using assms by simp
qed

lemma local_log_update:
  assumes "content d' = (content d)(p \<mapsto> b)" and "p = path_join dir (SegmentName t r)"
    and "\<forall>q \<in> seg_set dir d. q \<noteq> p \<longrightarrow> q < p"
  shows "local_log dir d' =
    concat (map (\<lambda>q. read_seg (the (content d q))) (sorted_list_of_set (seg_set dir d - {p}))) @ read_seg b"
proof -
  have s: "seg_set dir d' = insert p (seg_set dir d - {p})"
    using seg_set_update [of d' d dir t r b] assms(1,2) by auto
  have l: "sorted_list_of_set (seg_set dir d') = sorted_list_of_set (seg_set dir d - {p}) @ [p]"
    unfolding s by (rule sorted_list_of_set_insert_max) (use assms(3) in auto)
  have "map (\<lambda>q. read_seg (the (content d' q))) (sorted_list_of_set (seg_set dir d - {p})) =
        map (\<lambda>q. read_seg (the (content d q))) (sorted_list_of_set (seg_set dir d - {p}))"
    by (rule map_cong) (auto simp: assms(1))
  then show ?thesis unfolding local_log_def l map_append concat_append by (simp only:) (simp add: assms(1))
qed

lemma read_seg_file:
  assumes "\<forall>e \<in> set es. entry_ok e" and "is_u64 t" and "is_i64 r"
  shows "read_seg (seg_file t r es) = map normal es"
proof -
  have "ReadAll \<lparr>sr_r = frames es, sr_Term = t, sr_FirstRev = r, sr_version = 2\<rparr> = (map normal es, None)"
    by (rule ReadAll_frames [where q = "[]"]) (simp_all add: assms ReadEntry_short)
  then show ?thesis by (simp add: read_seg_def seg_file_def newSegmentReader_header assms)
qed

text \<open>Extending the active, last segment extends the log; so does opening a later, empty one.\<close>

lemma local_log_extend:
  assumes "content d p = Some (seg_file t r es)" and "content d' = (content d)(p \<mapsto> seg_file t r (es @ es'))"
    and "p = path_join dir (SegmentName t r)" and "\<forall>q \<in> seg_set dir d. q \<le> p"
    and "\<forall>e \<in> set (es @ es'). entry_ok e" and "is_u64 t" and "is_i64 r"
  shows "local_log dir d' = local_log dir d @ map normal es'"
proof -
  have le: "\<forall>q \<in> seg_set dir d. q \<noteq> p \<longrightarrow> q < p" using assms(4) by fastforce
  have "content d = (content d)(p \<mapsto> seg_file t r es)" using assms(1) by auto
  note A = local_log_update [OF this assms(3) le] and B = local_log_update [OF assms(2,3) le]
  show ?thesis unfolding A B using assms(5) by (simp add: read_seg_file assms)
qed

lemma local_log_cong: "content d' = content d \<Longrightarrow> local_log dir d' = local_log dir d"
  by (simp add: local_log_def seg_set_def)

lemma local_log_later:
  assumes "content d' = (content d)(p := x)" and "x = None \<or> (\<exists>b. x = Some b \<and> read_seg b = [])"
    and "p = path_join dir (SegmentName t r)" and "\<forall>q \<in> seg_set dir d. q < p"
  shows "local_log dir d' = local_log dir d"
proof (cases x)
  case None
  have "content d p = None" using assms(3,4) name_props [of t r] by (force simp: seg_set_def)
  with None assms(1) have "content d' = content d" by auto
  then show ?thesis by (simp add: local_log_def seg_set_def)
next
  case (Some b)
  with assms(2) have b: "read_seg b = []" by simp
  have n: "seg_set dir d - {p} = seg_set dir d" and le: "\<forall>q \<in> seg_set dir d. q \<noteq> p \<longrightarrow> q < p"
    using assms(4) by auto
  have "content d' = (content d)(p \<mapsto> b)" using assms(1) Some by simp
  from local_log_update [OF this assms(3) le] show ?thesis unfolding n by (simp add: b local_log_def)
qed

lemma path_join_less: "path_join dir a < path_join dir b \<longleftrightarrow> a < b"
  unfolding path_join_def by (subst append_less_append) auto

section \<open>Rotation\<close>

lemma OpenSegmentWriter_fail:
  assumes "OpenSegmentWriter dir t r d = (Inl e, d')"
  shows "content d' = content d \<or>
    (\<exists>x. content d' = (content d)(path_join dir (SegmentName t r) := x) \<and>
       (x = None \<or> (\<exists>k. x = Some (take k (seg_header t r)))))"
proof -
  let ?p = "path_join dir (SegmentName t r)"
  obtain x d1 where c: "os_Create ?p d = (x, d1)" by (cases "os_Create ?p d")
  show ?thesis
  proof (cases x)
    case (Inl er)
    with assms c os_Create_fail [of ?p d er d1] show ?thesis by (simp add: OpenSegmentWriter_def Let_def)
  next
    case (Inr f)
    note C = os_Create_ok [OF c [unfolded Inr]]
    then have e: "content d1 (f_path f) = Some []" by simp
    obtain we f' d2 where w: "f_Write f (seg_header t r) d1 = (we, f', d2)" by (cases "f_Write f (seg_header t r) d1") auto
    with assms c Inr obtain er where we: "we = Some er" by (auto simp: OpenSegmentWriter_def writeHeader_def Let_def split: option.splits)
    obtain k where W: "content d2 = (content d)(?p \<mapsto> take k (seg_header t r)) \<or> content d2 = (content d)(?p \<mapsto> take 0 (seg_header t r))"
      using f_Write_fail(1) [OF w [unfolded we] e] C by (auto simp: overwrite_def)
    obtain e3 f3 d3 where cl: "f_Close f' d2 = (e3, f3, d3)" by (cases "f_Close f' d2") auto
    obtain e4 d4 where rm: "os_Remove ?p d3 = (e4, d4)" by (cases "os_Remove ?p d3")
    have "d' = d4" using assms c Inr w we cl rm by (simp add: OpenSegmentWriter_def writeHeader_def sw_Close_def Let_def)
    with os_Remove_frame [OF rm] f_Close_frame [OF cl] W show ?thesis by fastforce
  qed
qed

lemma read_seg_torn: "read_seg (take k (seg_header t r)) = []"
proof (cases "k < 20")
  case True
  then have "length (take k (seg_header t r)) < 20" by simp
  then show ?thesis by (simp only: read_seg_def newSegmentReader_def segHeaderLen_def) simp
next
  case False
  have "fst (ReadAll \<lparr>sr_r = [], sr_Term = a, sr_FirstRev = b, sr_version = c\<rparr>) = []" for a b c
    by (subst ReadAll.simps) (simp add: sr_Next_def ReadEntry_short)
  with False show ?thesis
    by (simp add: read_seg_def newSegmentReader_def segHeaderLen_def Let_def)
qed

lemma SegmentName_later:
  assumes "t < 10 ^ 10" "0 \<le> r" "0 < n" "r + n < 2 ^ 63"
  shows "path_join dir (SegmentName t r) < path_join dir (SegmentName t (r + n))"
  using assms SegmentName_less [of t t r "r + n"] by (simp add: path_join_less is_i64_def)

lemma rotateLocked_log:
  assumes "rotateLocked up w d = (w', d')" and "w_active w = Some sw" and "sw_entryCount sw = int (length es)"
    and "sw_term sw = w_term w" and "sw_path sw = path_join (w_dir w) (SegmentName (sw_term sw) (sw_firstRev sw))"
    and "w_term w < 10 ^ 10" "0 \<le> sw_firstRev sw" "es \<noteq> []" "sw_firstRev sw + int (length es) < 2 ^ 63"
    and "\<forall>q \<in> seg_set (w_dir w) d. q \<le> sw_path sw"
  shows "local_log (w_dir w) d' = local_log (w_dir w) d"
proof -
  let ?r = "sw_firstRev sw + int (length es)"
  have wr: "wrap64 (sw_firstRev sw + sw_entryCount sw) = ?r"
    using assms(3,7,9) by (simp add: wrap_simps)
  have later: "sw_path sw < path_join (w_dir w) (SegmentName (w_term w) ?r)"
    using SegmentName_later [of "w_term w" "sw_firstRev sw" "int (length es)"] assms by simp
  obtain e sw1 d1 where s: "sw_Seal sw d = (e, sw1, d1)" by (cases "sw_Seal sw d") auto
  note S = sw_Seal_frame [OF s]
  then have ll: "local_log (w_dir w) d1 = local_log (w_dir w) d" and ss: "seg_set (w_dir w) d1 = seg_set (w_dir w) d"
    by (simp_all add: local_log_def seg_set_def)
  show ?thesis
  proof (cases e)
    case (Some er)
    with assms(1,2) s ll show ?thesis by (auto simp: rotateLocked_def Let_def)
  next
    case None
    obtain x d2 where o: "OpenSegmentWriter (w_dir w) (w_term w) ?r d1 = (x, d2)" by (cases "OpenSegmentWriter (w_dir w) (w_term w) ?r d1")
    have d': "d' = d2" using assms(1,2) s None wr o
      by (auto simp: rotateLocked_def Let_def enqueue_def split: sum.splits if_splits)
    let ?p = "path_join (w_dir w) (SegmentName (w_term w) ?r)"
    have later': "\<forall>q \<in> seg_set (w_dir w) d1. q < ?p"
      using assms(10) later by (auto simp: ss)
    have "content d2 = content d1 \<or> (\<exists>y. content d2 = (content d1)(?p := y) \<and>
        (y = None \<or> (\<exists>b. y = Some b \<and> read_seg b = [])))"
    proof (cases x)
      case (Inl er)
      from OpenSegmentWriter_fail [OF o [unfolded Inl]] show ?thesis using read_seg_torn by blast
    next
      case (Inr sw2)
      have "read_seg (seg_file (w_term w) ?r []) = []"
        using read_seg_torn [of 20] by (simp add: seg_file_def)
      with OpenSegmentWriter_ok [OF o [unfolded Inr]] show ?thesis by blast
    qed
    then have "local_log (w_dir w) d2 = local_log (w_dir w) d1"
      using local_log_later [OF _ _ refl later'] local_log_cong by blast
    with d' ll show ?thesis by simp
  qed
qed

section \<open>Batches\<close>

text \<open>The active segment is the last one of the directory, and its numbers stay in range for \<open>n\<close> more entries.\<close>

definition wal_last :: "wal \<Rightarrow> disk \<Rightarrow> segwriter \<Rightarrow> entry list \<Rightarrow> entry list \<Rightarrow> bool" where
  "wal_last w d sw es es' \<longleftrightarrow> (\<forall>q \<in> seg_set (w_dir w) d. q \<le> sw_path sw) \<and>
     w_term w < 10 ^ 10 \<and> 0 \<le> sw_firstRev sw \<and> sw_firstRev sw + int (length (es @ es')) < 2 ^ 63 \<and>
     length (seg_file (sw_term sw) (sw_firstRev sw) (es @ es')) < 2 ^ 63 \<and> (\<forall>e \<in> set (es @ es'). entry_ok e)"

lemma AppendBatch_appended:
  assumes "AppendBatch up None es' w d ob = (r, w', d', ob')" and "wal_ready w d sw es" and "wal_last w d sw es es'"
    and "append_entries es' sw d = (None, sw1, d1)" and "sw_Sync sw1 d1 = (None, d2)"
  shows "wal_ready (w\<lparr>w_active := Some sw1\<rparr>) d2 sw1 (es @ es')"
    and "content d2 = (content d)(sw_path sw \<mapsto> seg_file (sw_term sw) (sw_firstRev sw) (es @ es'))"
    and "local_log (w_dir w) d2 = local_log (w_dir w) d @ map normal es'"
    and "sw_path sw1 = sw_path sw" "sw_term sw1 = sw_term sw" "sw_firstRev sw1 = sw_firstRev sw"
    and "\<forall>q \<in> seg_set (w_dir w) d2. q \<le> sw_path sw1"
proof -
  have i: "sw_intact sw d es" and t: "sw_term sw = w_term w"
    and p: "sw_path sw = path_join (w_dir w) (SegmentName (sw_term sw) (sw_firstRev sw))"
    using assms(2) by (simp_all add: wal_ready_def)
  have len: "length (seg_file (sw_term sw) (sw_firstRev sw) (es @ es')) < 2 ^ 63"
    using assms(3) by (simp add: wal_last_def)
  note A = append_entries_ok [OF assms(4) i len] and S = f_Sync_frame [OF assms(5) [unfolded sw_Sync_def]]
  show c: "content d2 = (content d)(sw_path sw \<mapsto> seg_file (sw_term sw) (sw_firstRev sw) (es @ es'))"
    using A S by simp
  have r: "is_u64 (sw_term sw)" "is_i64 (sw_firstRev sw)"
    using assms(3) t by (auto simp: wal_last_def is_u64_def is_i64_def)
  show "local_log (w_dir w) d2 = local_log (w_dir w) d @ map normal es'"
    by (rule local_log_extend [OF _ c p _ _ r]) (use assms(3) i in \<open>auto simp: wal_last_def sw_intact_def\<close>)
  show "wal_ready (w\<lparr>w_active := Some sw1\<rparr>) d2 sw1 (es @ es')"
    using A S assms(2) by (simp add: wal_ready_def sw_intact_def)
  show "sw_path sw1 = sw_path sw" "sw_term sw1 = sw_term sw" "sw_firstRev sw1 = sw_firstRev sw" using A by simp_all
  have "seg_set (w_dir w) d2 = insert (sw_path sw) (seg_set (w_dir w) d)"
    using seg_set_update c p by metis
  then show "\<forall>q \<in> seg_set (w_dir w) d2. q \<le> sw_path sw1" using A assms(3) by (auto simp: wal_last_def)
qed

lemma AppendBatch_okD:
  assumes "AppendBatch up c es' w d ob = (None, w', d', ob')" and "w_active w = Some sw"
  obtains sw1 d1 d2 where "c = None" "append_entries es' sw d = (None, sw1, d1)" "sw_Sync sw1 d1 = (None, d2)"
    "(if w_syncUpload w \<and> up \<noteq> None
      then rotateSyncLocked (the up) (sw_size sw) (sw_entryCount sw) (w\<lparr>w_active := Some sw1\<rparr>) d2 ob
      else if sw_size sw1 \<ge> w_segMaxSize w
      then (case rotateLocked up (w\<lparr>w_active := Some sw1\<rparr>) d2 of (w, d) \<Rightarrow> (None, w, d, ob))
      else (None, w\<lparr>w_active := Some sw1\<rparr>, d2, ob)) = (None, w', d', ob')"
proof -
  from assms(1) have c: "c = None" by (auto simp: AppendBatch_def split: if_splits)
  have nc: "\<not> w_closed w" using assms(1) by (auto simp: AppendBatch_def split: if_splits)
  obtain x sw1 d1 where a: "append_entries es' sw d = (x, sw1, d1)" by (cases "append_entries es' sw d") auto
  have x: "x = None" using assms c nc a by (cases x) (simp_all add: AppendBatch_def)
  obtain y d2 where s: "sw_Sync sw1 d1 = (y, d2)" by (cases "sw_Sync sw1 d1")
  have y: "y = None" using assms c nc a x s by (cases y) (simp_all add: AppendBatch_def)
  show ?thesis
    by (rule that [OF c a [unfolded x] s [unfolded y]])
      (use assms c nc a x s y in \<open>simp add: AppendBatch_def Let_def cong: if_cong\<close>)
qed

lemma AppendBatch_log:
  assumes "AppendBatch up c es' w d ob = (None, w', d', ob')" and "wal_ready w d sw es" and "wal_last w d sw es es'"
    and "\<not> (w_syncUpload w \<and> up \<noteq> None)" and "es' \<noteq> []"
  shows "local_log (w_dir w) d' = local_log (w_dir w) d @ map normal es'"
proof -
  have act: "w_active w = Some sw" using assms(2) by (simp add: wal_ready_def)
  obtain sw1 d1 d2 where a: "c = None" "append_entries es' sw d = (None, sw1, d1)" "sw_Sync sw1 d1 = (None, d2)"
    and r0: "(if w_syncUpload w \<and> up \<noteq> None
      then rotateSyncLocked (the up) (sw_size sw) (sw_entryCount sw) (w\<lparr>w_active := Some sw1\<rparr>) d2 ob
      else if sw_size sw1 \<ge> w_segMaxSize w
      then (case rotateLocked up (w\<lparr>w_active := Some sw1\<rparr>) d2 of (w, d) \<Rightarrow> (None, w, d, ob))
      else (None, w\<lparr>w_active := Some sw1\<rparr>, d2, ob)) = (None, w', d', ob')"
    by (rule AppendBatch_okD [OF assms(1) act])
  note r = r0 [unfolded if_not_P [OF assms(4)]]
  note B = AppendBatch_appended [OF assms(1) [unfolded a(1)] assms(2,3) a(2,3)]
  show ?thesis
  proof (cases "sw_size sw1 \<ge> w_segMaxSize w")
    case False
    with r have "d' = d2" by simp
    with B show ?thesis by simp
  next
    case True
    obtain w2 d3 where rot: "rotateLocked up (w\<lparr>w_active := Some sw1\<rparr>) d2 = (w2, d3)"
      by (cases "rotateLocked up (w\<lparr>w_active := Some sw1\<rparr>) d2")
    have "local_log (w_dir (w\<lparr>w_active := Some sw1\<rparr>)) d3 = local_log (w_dir (w\<lparr>w_active := Some sw1\<rparr>)) d2"
      by (rule rotateLocked_log [OF rot, where es = "es @ es'"])
        (use B assms(2,3,5) in \<open>auto simp: wal_ready_def sw_intact_def wal_last_def\<close>)
    moreover have "d' = d3" using r rot True by simp
    ultimately show ?thesis using B(3) by simp
  qed
qed

section \<open>Synchronous upload\<close>

text \<open>What the log relies on of an uploader: it does not touch the local files.\<close>

definition up_frame :: "'o uploader \<Rightarrow> bool" where
  "up_frame up \<longleftrightarrow> (\<forall>p k d ob. d_faults d = [] \<longrightarrow> fst (snd (up p k d ob)) = d)"

lemma AppendBatch_sync_upload:
  assumes "AppendBatch (Some up) c es' w d ob = (None, w', d', ob')" and "wal_ready w d sw es" and "wal_last w d sw es es'"
    and "w_syncUpload w" and "es' \<noteq> []"
  shows "\<exists>d2 d3. content d2 (sw_path sw) = Some (seg_file (sw_term sw) (sw_firstRev sw) (es @ es')) \<and>
    up (sw_path sw) (ObjectKey (sw_term sw) (sw_firstRev sw)) d2 ob = (None, d3, ob')"
proof -
  have act: "w_active w = Some sw" using assms(2) by (simp add: wal_ready_def)
  obtain sw1 d1 d2 where a: "c = None" "append_entries es' sw d = (None, sw1, d1)" "sw_Sync sw1 d1 = (None, d2)"
    and r0: "(if w_syncUpload w \<and> Some up \<noteq> None
      then rotateSyncLocked (the (Some up)) (sw_size sw) (sw_entryCount sw) (w\<lparr>w_active := Some sw1\<rparr>) d2 ob
      else if sw_size sw1 \<ge> w_segMaxSize w
      then (case rotateLocked (Some up) (w\<lparr>w_active := Some sw1\<rparr>) d2 of (w, d) \<Rightarrow> (None, w, d, ob))
      else (None, w\<lparr>w_active := Some sw1\<rparr>, d2, ob)) = (None, w', d', ob')"
    by (rule AppendBatch_okD [OF assms(1) act])
  then have r: "rotateSyncLocked up (sw_size sw) (sw_entryCount sw) (w\<lparr>w_active := Some sw1\<rparr>) d2 ob = (None, w', d', ob')"
    using assms(4) by simp
  note B = AppendBatch_appended [OF assms(1) [unfolded a(1)] assms(2,3) a(2,3)]
  have n: "sw_entryCount sw1 \<noteq> 0" using B(1) assms(5) by (auto simp: wal_ready_def sw_intact_def neq_Nil_conv)
  have "\<exists>d3. up (sw_path sw1) (ObjectKey (sw_term sw1) (sw_firstRev sw1)) d2 ob = (None, d3, ob')"
    using r n by (auto simp: rotateSyncLocked_def Let_def split: prod.splits option.splits sum.splits)
  then obtain d3 where "up (sw_path sw) (ObjectKey (sw_term sw) (sw_firstRev sw)) d2 ob = (None, d3, ob')"
    using B(4-6) by auto
  moreover have "content d2 (sw_path sw) = Some (seg_file (sw_term sw) (sw_firstRev sw) (es @ es'))" using B(2) by simp
  ultimately show ?thesis by blast
qed

lemma no_faults [simp]: "d_faults d = [] \<Longrightarrow> next_fault d = (None, d)"
  by (simp add: next_fault_def)

lemma no_faults_put_at [simp]: "d_faults (put_at f b d) = d_faults d" "d_faults (set_content p c d) = d_faults d"
  by (simp_all add: put_at_def set_content_def split: option.split)

lemma append_entries_no_faults:
  "d_faults d = [] \<Longrightarrow> f_open (sw_f sw) \<Longrightarrow>
   \<exists>sw' d'. append_entries es sw d = (None, sw', d') \<and> d_faults d' = [] \<and> f_open (sw_f sw')"
proof (induction es arbitrary: sw d)
  case Nil
  then show ?case by simp
next
  case (Cons e es)
  then show ?case by (simp add: sw_AppendNoSync_def f_Write_def Let_def)
qed

lemma AppendBatch_rollback:
  assumes "wal_ready w d sw es" and "wal_last w d sw es es'"
    and "w_syncUpload w" and "es' \<noteq> []" and "up_frame up" and "d_faults d = []"
    and fail: "\<And>d2. fst (up (sw_path sw) (ObjectKey (sw_term sw) (sw_firstRev sw)) d2 ob) = Some e"
  shows "\<exists>w' d' sw' ob'. AppendBatch (Some up) None es' w d ob = (Some e, w', d', ob') \<and>
    content d' = content d \<and> wal_ready w' d' sw' es"
proof -
  have act: "w_active w = Some sw" "\<not> w_closed w" "sw_intact sw d es"
    using assms(1) by (simp_all add: wal_ready_def)
  have opn: "f_open (sw_f sw)" using act(3) by (simp add: sw_intact_def)
  obtain sw1 d1 where a: "append_entries es' sw d = (None, sw1, d1)" and nf: "d_faults d1 = []" and op: "f_open (sw_f sw1)"
    using append_entries_no_faults [OF assms(6) opn] by blast
  have s: "sw_Sync sw1 d1 = (None, d1)" using nf op by (simp add: sw_Sync_def f_Sync_def)
  obtain r w' d' ob' where run: "AppendBatch (Some up) None es' w d ob = (r, w', d', ob')" by (cases "AppendBatch (Some up) None es' w d ob") auto
  note B = AppendBatch_appended [OF run assms(1,2) a s]
  have n: "sw_entryCount sw1 \<noteq> 0" using B(1) assms(4) by (auto simp: wal_ready_def sw_intact_def neq_Nil_conv)
  obtain ob3 where u: "up (sw_path sw) (ObjectKey (sw_term sw) (sw_firstRev sw)) d1 ob = (Some e, d1, ob3)"
    using fail [of d1] assms(5) nf unfolding up_frame_def by (metis prod.collapse)
  have s1: "f_path (sw_f sw1) = sw_path sw1" "f_open (sw_f sw1)" "\<not> sw_sealed sw1"
    using B(1) by (simp_all add: wal_ready_def sw_intact_def)
  have c: "content d1 (sw_path sw1) = Some (seg_file (sw_term sw1) (sw_firstRev sw1) es @ frames es')"
    using B(2,4-6) by (simp add: seg_file_append)
  obtain sw2 d4 where rb: "sw_rollback (sw_size sw) (sw_entryCount sw) sw1 d1 = (None, sw2, d4)"
    using nf op c s1(1) by (simp add: sw_rollback_def f_Truncate_def f_Seek_def f_Sync_def)
  note R = sw_rollback_ok [OF rb act(3) c B(4-6) s1]
  have "content d4 = content d"
    using R B(2,4-6) act(3) by (auto simp: sw_intact_def fun_eq_iff)
  moreover have "wal_ready (w\<lparr>w_active := Some sw2\<rparr>) d4 sw2 es"
    using R assms(1) B(4-6) by (simp add: wal_ready_def)
  moreover have "AppendBatch (Some up) None es' w d ob = (Some e, w\<lparr>w_active := Some sw2\<rparr>, d4, ob3)"
    using act assms(3) a s n u rb B(4-6) by (simp add: AppendBatch_def rotateSyncLocked_def Let_def)
  ultimately show ?thesis by blast
qed

section \<open>Replay\<close>

lemma os_ReadDir_no_faults:
  assumes "d_faults d = []" and "dir \<in> set (d_dirs d)"
  shows "LocalSegments dir d = (Inr (sorted_list_of_set (seg_set dir d)), d)"
proof -
  let ?N = "remdups (filter (\<lambda>n. 47 \<notin> set n)
     (map (drop (length dir + 1)) (filter (\<lambda>p. HasPrefix p (path_join dir [])) (map fst (d_files d)))))"
  let ?L = "sort (map (path_join dir) (filter (\<lambda>n. HasSuffix n (str ''.wal'')) (sort ?N)))"
  have pj: "HasPrefix p (path_join dir []) \<longleftrightarrow> (\<exists>n. p = path_join dir n)" for p
    by (auto simp: HasPrefix_iff prefix_def path_join_def)
  have dj: "drop (length dir + 1) (path_join dir n) = n" for n by (simp add: path_join_def)
  have dm: "fst ` set (d_files d) = dom (content d)"
    by (simp add: content_def [abs_def] dom_map_of_conv_image_fst)
  have "n \<in> set ?N \<longleftrightarrow> 47 \<notin> set n \<and> path_join dir n \<in> dom (content d)" for n
  proof -
    have "n \<in> set ?N \<longleftrightarrow> 47 \<notin> set n \<and> (\<exists>p \<in> dom (content d). (\<exists>m. p = path_join dir m) \<and> n = drop (length dir + 1) p)"
      unfolding dm [symmetric] pj [symmetric] by auto
    then show ?thesis using dj by metis
  qed
  then have "set ?L = seg_set dir d" by (auto simp: seg_set_def)
  moreover have "distinct ?L" by (simp add: distinct_map inj_on_def path_join_def)
  ultimately have "?L = sorted_list_of_set (seg_set dir d)"
    by (metis sorted_list_of_set.idem_if_sorted_distinct sorted_sort)
  with assms show ?thesis by (simp add: LocalSegments_def os_ReadDir_def)
qed

lemma replay_loop_no_faults:
  assumes "d_faults d = []" and "\<forall>p \<in> set ps. \<exists>b sr. content d p = Some b \<and> newSegmentReader b = Inr sr"
    and rec: "\<And>es db. recover es db = (None, r es db)" and "\<And>xs ys db. r (xs @ ys) db = r ys (r xs db)" and "\<And>db. r [] db = db"
  shows "replay_loop recover afterSeq ps db d =
    (None, r (filter (\<lambda>e. afterSeq < Sequence e) (concat (map (\<lambda>p. read_seg (the (content d p))) ps))) db, d)"
  using assms(2)
proof (induction ps arbitrary: db)
  case Nil
  then show ?case by (simp add: assms(5))
next
  case (Cons p ps)
  then obtain b sr where "content d p = Some b" "newSegmentReader b = Inr sr" by auto
  with Cons show ?case
    by (auto simp: OpenSegmentFile_def os_ReadFile_def assms(1) Let_def rec assms(4,5) read_seg_def)
qed

section \<open>Opening\<close>

lemma wal_Open_ready:
  assumes "wal_Open dir t r w d = (None, w', d')"
  shows "\<exists>sw. wal_ready w' d' sw [] \<and> sw_firstRev sw = r \<and> sw_term sw = t \<and> w_dir w' = dir \<and> w_term w' = t \<and>
    w_syncUpload w' = w_syncUpload w \<and> dir \<in> set (d_dirs d') \<and>
    content d' = (content d)(path_join dir (SegmentName t r) \<mapsto> seg_file t r [])"
proof -
  obtain d1 where m: "os_MkdirAll dir d = (None, d1)"
    using assms by (auto simp: wal_Open_def split: prod.splits option.splits)
  obtain sw where o: "OpenSegmentWriter dir t r d1 = (Inr sw, d')"
    and w': "w' = w\<lparr>w_dir := dir, w_term := t, w_closed := False, w_uploadC := [], w_active := Some sw\<rparr>"
    using assms m by (auto simp: wal_Open_def Let_def split: prod.splits sum.splits)
  have c: "content d1 = content d" "dir \<in> set (d_dirs d1)"
    using m by (auto simp: os_MkdirAll_def content_def fun_eq_iff split: prod.splits option.splits dest!: next_fault_frame)
  from OpenSegmentWriter_ok [OF o] c show ?thesis
    by (intro exI [of _ sw]) (simp add: w' wal_ready_def)
qed

lemma wal_Open_succeeds:
  "d_faults d = [] \<Longrightarrow> \<exists>w' d'. wal_Open dir t r w d = (None, w', d') \<and> d_faults d' = []"
  by (simp add: wal_Open_def os_MkdirAll_def OpenSegmentWriter_def os_Create_def writeHeader_def f_Write_def Let_def)

lemma AppendBatch_succeeds:
  assumes "wal_ready w d sw es" and "d_faults d = []" and "\<not> (w_syncUpload w \<and> up \<noteq> None)"
  shows "\<exists>w' d'. AppendBatch up None es' w d ob = (None, w', d', ob)"
proof -
  have act: "w_active w = Some sw" "\<not> w_closed w" "f_open (sw_f sw)"
    using assms(1) by (simp_all add: wal_ready_def sw_intact_def)
  obtain sw1 d1 where a: "append_entries es' sw d = (None, sw1, d1)" and nf: "d_faults d1 = []" and op: "f_open (sw_f sw1)"
    using append_entries_no_faults [OF assms(2) act(3)] by blast
  have s: "sw_Sync sw1 d1 = (None, d1)" using nf op by (simp add: sw_Sync_def f_Sync_def)
  show ?thesis
    unfolding AppendBatch_def using act a s assms(3) by (auto simp: Let_def split: prod.splits)
qed

lemma AppendBatch_sync_succeeds:
  assumes "wal_ready w d sw es" and "wal_last w d sw es es'" and "d_faults d = []" and "w_syncUpload w"
    and "up_frame up" and "\<And>p k d ob. fst (up p k d ob) = None"
  shows "\<exists>w' d' ob'. AppendBatch (Some up) None es' w d ob = (None, w', d', ob')"
proof -
  have act: "w_active w = Some sw" "\<not> w_closed w" "f_open (sw_f sw)"
    using assms(1) by (simp_all add: wal_ready_def sw_intact_def)
  obtain sw1 d1 where a: "append_entries es' sw d = (None, sw1, d1)" and nf: "d_faults d1 = []" and op: "f_open (sw_f sw1)"
    using append_entries_no_faults [OF assms(3) act(3)] by blast
  have s: "sw_Sync sw1 d1 = (None, d1)" using nf op by (simp add: sw_Sync_def f_Sync_def)
  obtain ob1 where u: "up (sw_path sw1) (ObjectKey (sw_term sw1) (sw_firstRev sw1)) d1 ob = (None, d1, ob1)"
    using assms(5,6) nf unfolding up_frame_def by (metis prod.collapse)
  show ?thesis
    unfolding AppendBatch_def rotateSyncLocked_def using act a s assms(4) u nf op
    by (auto simp: Let_def sw_Seal_def f_Close_def OpenSegmentWriter_def os_Create_def writeHeader_def f_Write_def
        split: prod.splits)
qed

lemma seg_set_empty: "d_files d = [] \<Longrightarrow> seg_set dir d = {}"
  by (auto simp: seg_set_def content_def)

lemma replay_loop_torn:
  assumes "d_faults d = []" and "content d p = Some b" and "length b < 20"
  shows "p \<in> set ps \<Longrightarrow> fst (replay_loop recover afterSeq ps db d) \<noteq> None"
proof (induction ps arbitrary: db)
  case (Cons q ps)
  have "snd (OpenSegmentFile q d) = d"
    using assms(1) by (simp add: OpenSegmentFile_def os_ReadFile_def split: option.split)
  then obtain x where x: "OpenSegmentFile q d = (x, d)" by (metis prod.collapse)
  have "\<exists>e. OpenSegmentFile p d = (Inl e, d)"
    using assms by (simp add: OpenSegmentFile_def os_ReadFile_def newSegmentReader_def segHeaderLen_def)
  with Cons x show ?case by (auto simp: Let_def split: sum.split option.split prod.split)
qed simp

lemma wal_Open_empty:
  assumes "wal_Open dir t r w \<lparr>d_files = [], d_dirs = [], d_faults = []\<rparr> = (None, w', d')"
    and "t < 10 ^ 10" "0 \<le> r" "r + int (length es') < 2 ^ 63"
    and "length (seg_file t r es') < 2 ^ 63" "\<forall>e \<in> set es'. entry_ok e"
  shows "\<exists>sw. wal_ready w' d' sw [] \<and> wal_last w' d' sw [] es' \<and> local_log dir d' = []"
proof -
  let ?p = "path_join dir (SegmentName t r)"
  obtain sw where sw: "wal_ready w' d' sw []" "sw_firstRev sw = r" "sw_term sw = t" "w_dir w' = dir" "w_term w' = t"
    and c: "content d' = (content \<lparr>d_files = [], d_dirs = [], d_faults = []\<rparr>)(?p \<mapsto> seg_file t r [])"
    using wal_Open_ready [OF assms(1)] by blast
  have e: "seg_set dir \<lparr>d_files = [], d_dirs = [], d_faults = []\<rparr> = {}" by (simp add: seg_set_empty)
  have "seg_set dir d' = {?p}" using seg_set_update [OF c] e by simp
  moreover have "read_seg (seg_file t r []) = []" using read_seg_torn [of 20 t r] by (simp add: seg_file_def)
  ultimately have "local_log dir d' = []" and "\<forall>q \<in> seg_set dir d'. q \<le> ?p"
    by (simp_all add: local_log_def c)
  with sw assms(2-6) show ?thesis
    by (intro exI [of _ sw]) (simp add: wal_last_def wal_ready_def)
qed

section \<open>Properties\<close>



text \<open>C26: with synchronous upload, an acknowledged batch is in object storage: the uploader was called on the
  active segment, holding all its entries and this batch, and reported success.\<close>

theorem wal_sync_upload_durable:
  assumes "wal_ready w d sw es" and "wal_last w d sw es es'" and "es' \<noteq> []" and "w_syncUpload w"
    and "AppendBatch (Some up) ctxErr es' w d ob = (None, w', d', ob')"
  shows "\<exists>d2 d3. content d2 (sw_path sw) = Some (seg_file (sw_term sw) (sw_firstRev sw) (es @ es')) \<and>
    up (sw_path sw) (ObjectKey (sw_term sw) (sw_firstRev sw)) d2 ob = (None, d3, ob')"
  by (rule AppendBatch_sync_upload [OF assms(5,1,2,4,3)])

theorem wal_sync_upload_durable_witness:
  "\<exists>w d w' d' d2 ob'. wal_Open (str ''wal'') 1 1 (wal_New 1000 True) \<lparr>d_files = [], d_dirs = [], d_faults = []\<rparr> = (None, w, d) \<and>
     AppendBatch (Some (\<lambda>p k d ob. (None, d, content d p))) None [entry0\<lparr>e_Revision := 1\<rparr>] w d None = (None, w', d', ob') \<and>
     ob' = Some (seg_file 1 1 [entry0\<lparr>e_Revision := 1\<rparr>])"
proof -
  let ?es = "[entry0\<lparr>e_Revision := 1\<rparr>]" and ?up = "\<lambda>p k d (ob :: bytes option). (None :: goerr option, d, content d p)"
  obtain w d where o: "wal_Open (str ''wal'') 1 1 (wal_New 1000 True) \<lparr>d_files = [], d_dirs = [], d_faults = []\<rparr> = (None, w, d)"
    and nf: "d_faults d = []" using wal_Open_succeeds by (metis disk.select_convs(3))
  have su: "w_syncUpload w" using wal_Open_ready [OF o] by (auto simp: wal_New_def)
  obtain sw where sw: "wal_ready w d sw []" "wal_last w d sw [] ?es" "sw_term sw = 1" "sw_firstRev sw = 1"
    using wal_Open_empty [OF o, of ?es] wal_Open_ready [OF o]
    by (auto simp: entry_ok_def entry0_def is_i64_def is_u64_def seg_file_def length_AppendEntry wal_ready_def)
  obtain w' d' ob' where r: "AppendBatch (Some ?up) None ?es w d None = (None, w', d', ob')"
    using AppendBatch_sync_succeeds [OF sw(1,2) nf su, of ?up None] by (auto simp: up_frame_def)
  from wal_sync_upload_durable [OF sw(1,2) _ su r] sw(3,4) have "ob' = Some (seg_file 1 1 ?es)" by auto
  with o r show ?thesis by blast
qed

text \<open>When the upload of a batch fails on a working disk, the caller gets the upload error and the batch is
  rolled back: every local file is as before and the log accepts further appends, so replay can
  never expose a write that was not acknowledged.\<close>

theorem wal_sync_upload_rollback:
  assumes "wal_ready w d sw es" and "wal_last w d sw es es'" and "es' \<noteq> []" and "w_syncUpload w"
    and "up_frame up" and "d_faults d = []"
    and "\<And>d2. fst (up (sw_path sw) (ObjectKey (sw_term sw) (sw_firstRev sw)) d2 ob) = Some e"
  shows "\<exists>w' d' sw' ob'. AppendBatch (Some up) None es' w d ob = (Some e, w', d', ob') \<and>
    content d' = content d \<and> wal_ready w' d' sw' es"
  by (rule AppendBatch_rollback [OF assms(1,2,4,3,5-7)])

theorem wal_sync_upload_rollback_witness:
  "\<exists>w d w' d' ob'. wal_Open (str ''wal'') 1 1 (wal_New 1000 True) \<lparr>d_files = [], d_dirs = [], d_faults = []\<rparr> = (None, w, d) \<and>
     AppendBatch (Some (\<lambda>p k d ob. (Some (ErrIO 77), d, ob))) None [entry0\<lparr>e_Revision := 1\<rparr>] w d () = (Some (ErrIO 77), w', d', ob') \<and>
     content d' = content d"
proof -
  let ?es = "[entry0\<lparr>e_Revision := 1\<rparr>]" and ?up = "\<lambda>p k d ob. (Some (ErrIO 77), d, ob :: unit)"
  obtain w d where o: "wal_Open (str ''wal'') 1 1 (wal_New 1000 True) \<lparr>d_files = [], d_dirs = [], d_faults = []\<rparr> = (None, w, d)"
    and nf: "d_faults d = []" using wal_Open_succeeds by (metis disk.select_convs(3))
  have su: "w_syncUpload w" using wal_Open_ready [OF o] by (auto simp: wal_New_def)
  obtain sw where sw: "wal_ready w d sw []" "wal_last w d sw [] ?es"
    using wal_Open_empty [OF o, of ?es]
    by (auto simp: entry_ok_def entry0_def is_i64_def is_u64_def seg_file_def length_AppendEntry)
  have "up_frame ?up" by (simp add: up_frame_def)
  from wal_sync_upload_rollback [OF sw(1,2) _ su this nf, of "()" "ErrIO 77"] o show ?thesis by auto
qed

text \<open>Local replay hands the state machine exactly the entries of the local segments behind the sequence
  it has already applied, in log order: for a state machine whose \<open>Recover\<close> applies a list entry by entry,
  replaying segment by segment is applying the filtered log.\<close>

theorem wal_replay_log:
  assumes "d_faults d = []" and "w_dir w \<in> set (d_dirs d)"
    and "\<forall>p \<in> seg_set (w_dir w) d. \<exists>b sr. content d p = Some b \<and> newSegmentReader b = Inr sr"
    and "\<And>es db. recover es db = (None, r es db)" and "\<And>xs ys db. r (xs @ ys) db = r ys (r xs db)" and "\<And>db. r [] db = db"
  shows "ReplayLocal recover afterSeq w db d = (None, r (filter (\<lambda>e. afterSeq < Sequence e) (local_log (w_dir w) d)) db, d)"
  using replay_loop_no_faults [OF assms(1) _ assms(4-6), of "sorted_list_of_set (seg_set (w_dir w) d)" afterSeq db] assms(3)
  by (simp add: ReplayLocal_def os_ReadDir_no_faults [OF assms(1,2)] local_log_def)

theorem wal_replay_log_witness:
  "ReplayLocal (\<lambda>es db. (None, db @ es)) 3 ((wal_New 1000 False)\<lparr>w_dir := str ''wal''\<rparr>) []
     \<lparr>d_files = [], d_dirs = [str ''wal''], d_faults = []\<rparr> =
   (None, filter (\<lambda>e. 3 < Sequence e) (local_log (str ''wal'') \<lparr>d_files = [], d_dirs = [str ''wal''], d_faults = []\<rparr>),
    \<lparr>d_files = [], d_dirs = [str ''wal''], d_faults = []\<rparr>)"
  using wal_replay_log [of "\<lparr>d_files = [], d_dirs = [str ''wal''], d_faults = []\<rparr>" "(wal_New 1000 False)\<lparr>w_dir := str ''wal''\<rparr>"
      "\<lambda>es db. (None, db @ es)" "\<lambda>es db. db @ es" 3 "[]"]
  by (simp add: seg_set_empty)

text \<open>C40: a segment whose header is incomplete (a crash while a segment was being opened leaves one, as the header
  is not synced) makes local replay fail, whatever the other segments hold.\<close>

theorem wal_replay_torn_header:
  assumes "d_faults d = []" and "w_dir w \<in> set (d_dirs d)"
    and "p \<in> seg_set (w_dir w) d" and "content d p = Some b" and "length b < 20"
  shows "fst (ReplayLocal recover afterSeq w db d) \<noteq> None"
  using replay_loop_torn [OF assms(1,4,5), of "sorted_list_of_set (seg_set (w_dir w) d)"] assms(3)
  by (simp add: ReplayLocal_def os_ReadDir_no_faults [OF assms(1,2)])

theorem wal_replay_torn_header_witness:
  "fst (ReplayLocal (\<lambda>es db. (None, db @ es)) 0 ((wal_New 1000 False)\<lparr>w_dir := [1]\<rparr>) []
     \<lparr>d_files = [([1, 47] @ SegmentName 1 1, [84])], d_dirs = [[1]], d_faults = []\<rparr>) \<noteq> None"
proof -
  let ?d = "\<lparr>d_files = [([1, 47] @ SegmentName 1 1, [84])], d_dirs = [[1]], d_faults = []\<rparr>"
  have s: "[1, 47] @ SegmentName 1 1 \<in> seg_set (w_dir ((wal_New 1000 False)\<lparr>w_dir := [1]\<rparr>)) ?d"
    using name_props [of 1 1] by (auto simp: seg_set_def content_def path_join_def)
  show ?thesis
    by (rule wal_replay_torn_header [OF _ _ s, where b = "[84]"]) (simp_all add: content_def)
qed

end
