(* ===== verification/Object_Store.thy ===== *)
theory Object_Store
  imports Go_Strings "HOL-Library.AList"
begin

text \<open>
  The object storage interface, \<open>src/pkg/object/object.go\<close>, and its in-memory implementation,
  \<open>src/pkg/object/mem.go\<close>.

  A value of the Go interface is a record of operations on a state \<open>'o\<close>; an operation that can fail
  returns the error together with the new state. The locale \<open>object_store\<close> states what the interface
  documents, over the abstraction of a state to the map of objects it holds; its clients are verified
  against it, and it is interpreted on the in-memory store. A failed write may or may not
  have reached the store.
\<close>

section \<open>The interface\<close>

record 'o store =
  st_Put :: "gostring \<Rightarrow> bytes \<Rightarrow> 'o \<Rightarrow> goerr option \<times> 'o"
  st_Get :: "gostring \<Rightarrow> 'o \<Rightarrow> bytes res \<times> 'o"
  st_Delete :: "gostring \<Rightarrow> 'o \<Rightarrow> goerr option \<times> 'o"
  st_DeleteMany :: "gostring list \<Rightarrow> 'o \<Rightarrow> goerr option \<times> 'o"
  st_List :: "gostring \<Rightarrow> 'o \<Rightarrow> gostring list res \<times> 'o"

record 'o cstore = "'o store" +
  st_GetETag :: "gostring \<Rightarrow> 'o \<Rightarrow> (bytes \<times> gostring) res \<times> 'o"
  st_PutIfAbsent :: "gostring \<Rightarrow> bytes \<Rightarrow> 'o \<Rightarrow> goerr option \<times> 'o"
  st_PutIfMatch :: "gostring \<Rightarrow> bytes \<Rightarrow> gostring \<Rightarrow> 'o \<Rightarrow> goerr option \<times> 'o"

text \<open>What the interface promises; \<open>abs\<close> is the map of objects.\<close>

locale object_store =
  fixes S :: "('o, 'more) store_scheme" and abs :: "'o \<Rightarrow> gostring \<rightharpoonup> bytes"
  assumes Put_ok: "st_Put S k b ob = (None, ob') \<Longrightarrow> abs ob' = (abs ob)(k \<mapsto> b)"
    and Put_err: "st_Put S k b ob = (Some e, ob') \<Longrightarrow> abs ob' = abs ob \<or> abs ob' = (abs ob)(k \<mapsto> b)"
    and Get_ok: "st_Get S k ob = (Inr b, ob') \<Longrightarrow> abs ob k = Some b"
    and Get_missing: "st_Get S k ob = (Inl ErrNotFound, ob') \<Longrightarrow> abs ob k = None"
    and Get_frame: "st_Get S k ob = (r, ob') \<Longrightarrow> abs ob' = abs ob"
    and Delete_ok: "st_Delete S k ob = (None, ob') \<Longrightarrow> abs ob' = (abs ob)(k := None)"
    and Delete_err: "st_Delete S k ob = (Some e, ob') \<Longrightarrow> abs ob' = abs ob \<or> abs ob' = (abs ob)(k := None)"
    and DeleteMany_ok: "st_DeleteMany S ks ob = (None, ob') \<Longrightarrow> abs ob' = abs ob |` (- set ks)"
    and DeleteMany_err: "st_DeleteMany S ks ob = (Some e, ob') \<Longrightarrow>
      \<exists>D \<subseteq> set ks. abs ob' = abs ob |` (- D)"
    and List_ok: "st_List S p ob = (Inr ks, ob') \<Longrightarrow>
      sorted ks \<and> distinct ks \<and> set ks = {k \<in> dom (abs ob). HasPrefix k p}"
    and List_frame: "st_List S p ob = (rs, ob') \<Longrightarrow> abs ob' = abs ob"
begin

lemma Put_other: "st_Put S k b ob = (r, ob') \<Longrightarrow> k' \<noteq> k \<Longrightarrow> abs ob' k' = abs ob k'"
  using Put_ok [of k b ob ob'] Put_err [of k b ob _ ob'] by (cases r) auto

lemma DeleteMany_other: "st_DeleteMany S ks ob = (r, ob') \<Longrightarrow> k \<notin> set ks \<Longrightarrow> abs ob' k = abs ob k"
proof (cases r)
  case None
  then show "st_DeleteMany S ks ob = (r, ob') \<Longrightarrow> k \<notin> set ks \<Longrightarrow> abs ob' k = abs ob k"
    using DeleteMany_ok [of ks ob ob'] by simp
next
  case (Some e)
  then show "st_DeleteMany S ks ob = (r, ob') \<Longrightarrow> k \<notin> set ks \<Longrightarrow> abs ob' k = abs ob k"
    using DeleteMany_err [of ks ob e ob'] by (auto simp: restrict_map_def)
qed

lemma List_keys: "st_List S p ob = (Inr ks, ob') \<Longrightarrow> k \<in> set ks \<longleftrightarrow> k \<in> dom (abs ob) \<and> HasPrefix k p"
  using List_ok by blast

end

locale conditional_store = object_store S abs
  for S :: "('o, 'more) cstore_scheme" and abs :: "'o \<Rightarrow> gostring \<rightharpoonup> bytes" +
  fixes etag :: "'o \<Rightarrow> gostring \<Rightarrow> gostring"
  assumes GetETag_ok: "st_GetETag S k ob = (Inr (b, t), ob') \<Longrightarrow> abs ob k = Some b \<and> t = etag ob k"
    and GetETag_missing: "st_GetETag S k ob = (Inl ErrNotFound, ob') \<Longrightarrow> abs ob k = None"
    and GetETag_frame: "st_GetETag S k ob = (rt, ob') \<Longrightarrow> abs ob' = abs ob \<and> etag ob' = etag ob"
    and PutIfAbsent_ok: "st_PutIfAbsent S k b ob = (None, ob') \<Longrightarrow> abs ob k = None \<and> abs ob' = (abs ob)(k \<mapsto> b)"
    and PutIfAbsent_failed: "st_PutIfAbsent S k b ob = (Some ErrPreconditionFailed, ob') \<Longrightarrow>
      abs ob k \<noteq> None \<and> abs ob' = abs ob \<and> etag ob' = etag ob"
    and PutIfMatch_ok: "st_PutIfMatch S k b t ob = (None, ob') \<Longrightarrow>
      abs ob k \<noteq> None \<and> etag ob k = t \<and> abs ob' = (abs ob)(k \<mapsto> b)"
    and PutIfMatch_failed: "st_PutIfMatch S k b t ob = (Some ErrPreconditionFailed, ob') \<Longrightarrow>
      (abs ob k = None \<or> etag ob k \<noteq> t) \<and> abs ob' = abs ob \<and> etag ob' = etag ob"
begin

text \<open>Two conditional writes against the same version: the second one fails if the first changed the version.\<close>

lemma PutIfMatch_once:
  assumes "st_PutIfMatch S k b t ob = (None, ob1)" and "etag ob1 k \<noteq> t"
  shows "fst (st_PutIfMatch S k b' t ob1) \<noteq> None"
  using assms PutIfMatch_ok [of k b' t ob1] by (metis prod.collapse)

lemma PutIfAbsent_once:
  assumes "st_PutIfAbsent S k b ob = (None, ob1)"
  shows "fst (st_PutIfAbsent S k b' ob1) \<noteq> None"
proof
  assume "fst (st_PutIfAbsent S k b' ob1) = None"
  then obtain ob2 where "st_PutIfAbsent S k b' ob1 = (None, ob2)" by (metis prod.collapse)
  with PutIfAbsent_ok [OF assms] PutIfAbsent_ok [of k b' ob1 ob2] show False by simp
qed

end

section \<open>MD5\<close>

text \<open>\<open>crypto/md5\<close>, which the in-memory store uses for its entity tags.\<close>

definition md5_K :: "32 word list" where
  "md5_K = [0xd76aa478, 0xe8c7b756, 0x242070db, 0xc1bdceee, 0xf57c0faf, 0x4787c62a, 0xa8304613, 0xfd469501,
    0x698098d8, 0x8b44f7af, 0xffff5bb1, 0x895cd7be, 0x6b901122, 0xfd987193, 0xa679438e, 0x49b40821,
    0xf61e2562, 0xc040b340, 0x265e5a51, 0xe9b6c7aa, 0xd62f105d, 0x02441453, 0xd8a1e681, 0xe7d3fbc8,
    0x21e1cde6, 0xc33707d6, 0xf4d50d87, 0x455a14ed, 0xa9e3e905, 0xfcefa3f8, 0x676f02d9, 0x8d2a4c8a,
    0xfffa3942, 0x8771f681, 0x6d9d6122, 0xfde5380c, 0xa4beea44, 0x4bdecfa9, 0xf6bb4b60, 0xbebfbc70,
    0x289b7ec6, 0xeaa127fa, 0xd4ef3085, 0x04881d05, 0xd9d4d039, 0xe6db99e5, 0x1fa27cf8, 0xc4ac5665,
    0xf4292244, 0x432aff97, 0xab9423a7, 0xfc93a039, 0x655b59c3, 0x8f0ccc92, 0xffeff47d, 0x85845dd1,
    0x6fa87e4f, 0xfe2ce6e0, 0xa3014314, 0x4e0811a1, 0xf7537e82, 0xbd3af235, 0x2ad7d2bb, 0xeb86d391]"

definition md5_s :: "nat list" where
  "md5_s = [7, 12, 17, 22, 5, 9, 14, 20, 4, 11, 16, 23, 6, 10, 15, 21]"

definition md5_round :: "32 word list \<Rightarrow> 32 word \<times> 32 word \<times> 32 word \<times> 32 word \<Rightarrow> nat \<Rightarrow>
    32 word \<times> 32 word \<times> 32 word \<times> 32 word" where
  "md5_round M st i = (case st of (A, B, C, D) \<Rightarrow>
     let q = i div 16;
         F = (if q = 0 then (B AND C) OR (NOT B AND D) else if q = 1 then (D AND B) OR (NOT D AND C)
              else if q = 2 then B XOR C XOR D else C XOR (B OR NOT D));
         g = (if q = 0 then i else if q = 1 then (5 * i + 1) mod 16
              else if q = 2 then (3 * i + 5) mod 16 else (7 * i) mod 16);
         F' = F + A + md5_K ! i + M ! g
     in (D, B + word_rotl (md5_s ! (4 * q + i mod 4)) F', B, C))"

definition md5_block :: "32 word \<times> 32 word \<times> 32 word \<times> 32 word \<Rightarrow> bytes \<Rightarrow> 32 word \<times> 32 word \<times> 32 word \<times> 32 word" where
  "md5_block st b =
     (let M = map (\<lambda>j. of_nat (get_le (gslice b (4 * j) (4 * j + 4)))) [0..<16] in
      case foldl (md5_round M) st [0..<64] of (A, B, C, D) \<Rightarrow>
      case st of (a, b', c, d) \<Rightarrow> (a + A, b' + B, c + C, d + D))"

definition md5_sum :: "bytes \<Rightarrow> bytes" where
  "md5_sum data =
     (let n = length data;
          padded = data @ [0x80] @ replicate ((119 - n mod 64) mod 64) 0 @ put_le 8 (8 * n mod 2 ^ 64);
          blocks = map (\<lambda>i. gslice padded (64 * i) (64 * i + 64)) [0..<length padded div 64]
      in case foldl md5_block (0x67452301, 0xefcdab89, 0x98badcfe, 0x10325476) blocks of (A, B, C, D) \<Rightarrow>
           concat (map (\<lambda>w. put_le 4 (unat w)) [A, B, C, D]))"

definition hex_digit :: "nat \<Rightarrow> byte" where
  "hex_digit n = (if n < 10 then 48 + of_nat n else 87 + of_nat n)"

definition hex_string :: "bytes \<Rightarrow> gostring" where
  "hex_string bs = concat (map (\<lambda>b. [hex_digit (unat b div 16), hex_digit (unat b mod 16)]) bs)"

section \<open>The in-memory store\<close>

record memObj =
  mo_data :: bytes
  mo_etag :: gostring

type_synonym mem = "(gostring \<times> memObj) list"

definition NewMem :: mem where "NewMem = []"

definition memETag :: "bytes \<Rightarrow> gostring" where
  "memETag data = hex_string (md5_sum data)"

definition mem_Put :: "gostring \<Rightarrow> bytes \<Rightarrow> mem \<Rightarrow> goerr option \<times> mem" where
  "mem_Put key data m = (None, AList.update key \<lparr>mo_data = data, mo_etag = memETag data\<rparr> m)"

definition mem_Get :: "gostring \<Rightarrow> mem \<Rightarrow> bytes res \<times> mem" where
  "mem_Get key m = (case map_of m key of None \<Rightarrow> (Inl ErrNotFound, m) | Some obj \<Rightarrow> (Inr (mo_data obj), m))"

definition mem_GetETag :: "gostring \<Rightarrow> mem \<Rightarrow> (bytes \<times> gostring) res \<times> mem" where
  "mem_GetETag key m =
     (case map_of m key of None \<Rightarrow> (Inl ErrNotFound, m) | Some obj \<Rightarrow> (Inr (mo_data obj, mo_etag obj), m))"

definition mem_PutIfAbsent :: "gostring \<Rightarrow> bytes \<Rightarrow> mem \<Rightarrow> goerr option \<times> mem" where
  "mem_PutIfAbsent key data m =
     (if map_of m key \<noteq> None then (Some ErrPreconditionFailed, m)
      else (None, AList.update key \<lparr>mo_data = data, mo_etag = memETag data\<rparr> m))"

definition mem_PutIfMatch :: "gostring \<Rightarrow> bytes \<Rightarrow> gostring \<Rightarrow> mem \<Rightarrow> goerr option \<times> mem" where
  "mem_PutIfMatch key data matchETag m =
     (case map_of m key of
        None \<Rightarrow> (Some ErrPreconditionFailed, m)
      | Some obj \<Rightarrow>
          if mo_etag obj \<noteq> matchETag then (Some ErrPreconditionFailed, m)
          else (None, AList.update key \<lparr>mo_data = data, mo_etag = memETag data\<rparr> m))"

definition mem_Delete :: "gostring \<Rightarrow> mem \<Rightarrow> goerr option \<times> mem" where
  "mem_Delete key m = (None, AList.delete key m)"

definition mem_DeleteMany :: "gostring list \<Rightarrow> mem \<Rightarrow> goerr option \<times> mem" where
  "mem_DeleteMany keys m = (None, foldl (\<lambda>m k. AList.delete k m) m keys)"

definition mem_List :: "gostring \<Rightarrow> mem \<Rightarrow> gostring list res \<times> mem" where
  "mem_List p m = (Inr (sort (filter (\<lambda>k. HasPrefix k p) (remdups (map fst m)))), m)"

definition mem_store :: "mem cstore" where
  "mem_store = \<lparr>st_Put = mem_Put, st_Get = mem_Get, st_Delete = mem_Delete, st_DeleteMany = mem_DeleteMany,
     st_List = mem_List, st_GetETag = mem_GetETag, st_PutIfAbsent = mem_PutIfAbsent, st_PutIfMatch = mem_PutIfMatch\<rparr>"

definition mem_abs :: "mem \<Rightarrow> gostring \<rightharpoonup> bytes" where
  "mem_abs m k = map_option mo_data (map_of m k)"

definition mem_etag :: "mem \<Rightarrow> gostring \<Rightarrow> gostring" where
  "mem_etag m k = (case map_of m k of None \<Rightarrow> [] | Some obj \<Rightarrow> mo_etag obj)"

section \<open>The in-memory store keeps the contract\<close>

lemma map_of_delete_many: "map_of (foldl (\<lambda>m k. AList.delete k m) m ks) = map_of m |` (- set ks)"
proof (induction ks arbitrary: m)
  case (Cons k ks)
  then show ?case by (auto simp: delete_conv' restrict_map_def fun_eq_iff)
qed (simp add: restrict_map_def)

lemma dom_mem_abs: "dom (mem_abs m) = fst ` set m"
  by (simp add: mem_abs_def [abs_def] dom_map_of_conv_image_fst dom_map_option)

lemma mem_List_set:
  assumes "mem_List p m = (Inr ks, m')"
  shows "sorted ks \<and> distinct ks \<and> set ks = {k \<in> dom (mem_abs m). HasPrefix k p}"
proof -
  have "ks = sort (filter (\<lambda>k. HasPrefix k p) (remdups (map fst m)))" using assms by (auto simp: mem_List_def)
  then show ?thesis by (auto simp: dom_mem_abs)
qed

lemma mem_List_state: "mem_List p m = (r, m') \<Longrightarrow> m' = m"
  by (simp add: mem_List_def)

lemmas mem_defs = mem_store_def mem_Put_def mem_Get_def mem_Delete_def mem_DeleteMany_def mem_GetETag_def
  mem_PutIfAbsent_def mem_PutIfMatch_def mem_abs_def mem_etag_def

lemma mem_abs_simps:
  "mem_abs (AList.update k v m) = (mem_abs m)(k \<mapsto> mo_data v)"
  "mem_abs (AList.delete k m) = (mem_abs m)(k := None)"
  "mem_abs (foldl (\<lambda>m k. AList.delete k m) m ks) = mem_abs m |` (- set ks)"
  by (simp_all add: mem_abs_def fun_eq_iff update_conv' delete_conv' map_of_delete_many restrict_map_def)

lemma mem_is_store: "object_store mem_store mem_abs"
proof
  fix p ob ks ob' and rs :: "gostring list res"
  show "st_List mem_store p ob = (Inr ks, ob') \<Longrightarrow>
      sorted ks \<and> distinct ks \<and> set ks = {k \<in> dom (mem_abs ob). HasPrefix k p}"
    using mem_List_set by (simp add: mem_store_def)
  show "st_List mem_store p ob = (rs, ob') \<Longrightarrow> mem_abs ob' = mem_abs ob"
    by (simp add: mem_store_def mem_List_def)
qed (auto simp: mem_store_def mem_Put_def mem_Get_def mem_Delete_def mem_DeleteMany_def mem_abs_simps
      mem_abs_def split: option.splits)

lemma mem_is_conditional: "conditional_store_axioms mem_store mem_abs mem_etag"
proof
  fix k b t ob ob' and rt :: "(bytes \<times> gostring) res"
  show "st_GetETag mem_store k ob = (Inr (b, t), ob') \<Longrightarrow> mem_abs ob k = Some b \<and> t = mem_etag ob k"
    by (auto simp: mem_defs split: option.splits)
  show "st_GetETag mem_store k ob = (Inl ErrNotFound, ob') \<Longrightarrow> mem_abs ob k = None"
    by (auto simp: mem_defs split: option.splits)
  show "st_GetETag mem_store k ob = (rt, ob') \<Longrightarrow> mem_abs ob' = mem_abs ob \<and> mem_etag ob' = mem_etag ob"
    by (auto simp: mem_store_def mem_GetETag_def split: option.splits)
  show "st_PutIfAbsent mem_store k b ob = (None, ob') \<Longrightarrow> mem_abs ob k = None \<and> mem_abs ob' = (mem_abs ob)(k \<mapsto> b)"
    by (auto simp: mem_store_def mem_PutIfAbsent_def mem_abs_simps mem_abs_def [of ob k] split: if_splits)
  show "st_PutIfAbsent mem_store k b ob = (Some ErrPreconditionFailed, ob') \<Longrightarrow>
      mem_abs ob k \<noteq> None \<and> mem_abs ob' = mem_abs ob \<and> mem_etag ob' = mem_etag ob"
    by (auto simp: mem_store_def mem_PutIfAbsent_def mem_abs_def [of ob k] split: if_splits)
  show "st_PutIfMatch mem_store k b t ob = (None, ob') \<Longrightarrow>
      mem_abs ob k \<noteq> None \<and> mem_etag ob k = t \<and> mem_abs ob' = (mem_abs ob)(k \<mapsto> b)"
    by (auto simp: mem_store_def mem_PutIfMatch_def mem_abs_simps mem_abs_def [of ob k] mem_etag_def [of ob k]
        split: if_splits option.splits)
  show "st_PutIfMatch mem_store k b t ob = (Some ErrPreconditionFailed, ob') \<Longrightarrow>
      (mem_abs ob k = None \<or> mem_etag ob k \<noteq> t) \<and> mem_abs ob' = mem_abs ob \<and> mem_etag ob' = mem_etag ob"
    by (auto simp: mem_store_def mem_PutIfMatch_def mem_abs_def [of ob k] mem_etag_def [of ob k]
        split: if_splits option.splits)
qed

interpretation mem: conditional_store mem_store mem_abs mem_etag
  by (intro conditional_store.intro mem_is_store mem_is_conditional)

lemma mem_store_sel:
  "st_Put mem_store = mem_Put" "st_Get mem_store = mem_Get" "st_Delete mem_store = mem_Delete"
  "st_DeleteMany mem_store = mem_DeleteMany" "st_List mem_store = mem_List" "st_GetETag mem_store = mem_GetETag"
  "st_PutIfAbsent mem_store = mem_PutIfAbsent" "st_PutIfMatch mem_store = mem_PutIfMatch"
  by (simp_all add: mem_store_def)

section \<open>Properties\<close>

text \<open>A value written to the in-memory store is read back, under its own tag, until the key is overwritten or deleted.\<close>

theorem mem_put_get:
  "fst (mem_Get k (snd (mem_Put k b m))) = Inr b \<and>
   fst (mem_GetETag k (snd (mem_Put k b m))) = Inr (b, memETag b) \<and>
   fst (mem_Get k (snd (mem_Delete k (snd (mem_Put k b m))))) = Inl ErrNotFound"
  by (simp add: mem_defs update_conv' delete_conv')

end
