(* ===== verification/Wal_Remote.thy ===== *)
theory Wal_Remote
  imports Wal_Log Object_Store "HOL-Library.Product_Lexorder"
begin

text \<open>
  The write-ahead log in object storage: the uploader (\<open>makeUploader\<close> in \<open>src/node.go\<close>), the upload of
  local segments when a node becomes leader (\<open>src/leader.go\<close>), segment garbage collection
  (\<open>src/internal/wal/gc.go\<close>) and replay from object storage (\<open>src/wal_replay.go\<close>).

  The store is any value of the interface of \<open>Object_Store\<close>; \<open>recover\<close> is the \<open>Recover\<close> method of the local
  database. \<open>sort.Slice\<close> orders by sequence and term; entries that agree in both are the same entry.
\<close>

section \<open>Uploading\<close>

definition makeUploader :: "('o, 'm) store_scheme \<Rightarrow> 'o uploader" where
  "makeUploader S localPath objectKey d ob =
     (case os_ReadFile localPath d of
        (Inl e, d) \<Rightarrow>
          if e \<noteq> ErrNotExist then (Some e, d, ob)
          else (case st_Get S objectKey ob of
                  (Inr _, ob) \<Rightarrow> (None, d, ob)
                | (Inl _, ob) \<Rightarrow> (Some e, d, ob))
      | (Inr b, d) \<Rightarrow>
          (case st_Put S objectKey b ob of
             (Some e, ob) \<Rightarrow> (Some e, d, ob)
           | (None, ob) \<Rightarrow>
               (case next_fault d of (Some _, d) \<Rightarrow> (Some (ErrIO 11), d, ob) | (None, d) \<Rightarrow> (None, d, ob))))"

fun upload_local_loop :: "('o, 'm) store_scheme \<Rightarrow> gostring list \<Rightarrow> gostring list \<Rightarrow> disk \<Rightarrow> 'o \<Rightarrow> disk \<times> 'o" where
  "upload_local_loop S inS3 [] d ob = (d, ob)"
| "upload_local_loop S inS3 (path # paths) d ob =
     (case ParseSegmentName (path_base path) of (term, firstRev, ok) \<Rightarrow>
        if \<not> ok then upload_local_loop S inS3 paths d ob
        else
          let objKey = ObjectKey term firstRev in
          if objKey \<in> set inS3 then upload_local_loop S inS3 paths d ob
          else (case makeUploader S path objKey d ob of (_, d, ob) \<Rightarrow> upload_local_loop S inS3 paths d ob))"

definition uploadLocalWALSegments :: "('o, 'm) store_scheme \<Rightarrow> gostring \<Rightarrow> disk \<Rightarrow> 'o \<Rightarrow> disk \<times> 'o" where
  "uploadLocalWALSegments S walDir d ob =
     (case LocalSegments walDir d of
        (Inl e, d) \<Rightarrow> (d, ob)
      | (Inr paths, d) \<Rightarrow>
          if paths = [] then (d, ob)
          else (case st_List S (str ''wal/'') ob of
             (Inl e, ob) \<Rightarrow> upload_local_loop S [] paths d ob
           | (Inr s3Keys, ob) \<Rightarrow> upload_local_loop S s3Keys paths d ob))"

section \<open>Garbage collection\<close>

definition parseFirstRev :: "gostring \<Rightarrow> int" where
  "parseFirstRev key =
     (let parts = SplitByte key 47 in
      if length parts < 3 then 0 else fst (ParseInt (TrimLeft0 (parts ! 2))))"

fun gc_candidates :: "gostring list \<Rightarrow> int \<Rightarrow> gostring list" where
  "gc_candidates (k # k' # ks) checkpointSeq =
     (if wrap64 (parseFirstRev k' - 1) \<le> checkpointSeq then k # gc_candidates (k' # ks) checkpointSeq
      else gc_candidates (k' # ks) checkpointSeq)"
| "gc_candidates _ checkpointSeq = []"

definition GCSegments :: "('o, 'm) store_scheme \<Rightarrow> int \<Rightarrow> 'o \<Rightarrow> nat res \<times> 'o" where
  "GCSegments S checkpointSeq ob =
     (case st_List S (str ''wal/'') ob of
        (Inl e, ob) \<Rightarrow> (Inl e, ob)
      | (Inr keys, ob) \<Rightarrow>
          if length keys < 2 then (Inr 0, ob)
          else
            let toDelete = gc_candidates keys checkpointSeq in
            if toDelete = [] then (Inr 0, ob)
            else (case st_DeleteMany S toDelete ob of
                    (Some e, ob) \<Rightarrow> (Inr 0, ob)
                  | (None, ob) \<Rightarrow> (Inr (length toDelete), ob)))"

section \<open>Replay\<close>

definition parseWALKey :: "gostring \<Rightarrow> nat \<times> int" where
  "parseWALKey key =
     (let parts = SplitNByte key 47 3 in
      if length parts \<noteq> 3 then (0, 0)
      else (fst (ParseUint (TrimLeft0 (parts ! 1))), fst (ParseInt (TrimLeft0 (parts ! 2)))))"

definition min_first_revs :: "gostring list \<Rightarrow> (nat \<times> int) list" where
  "min_first_revs keys = foldl (\<lambda>m key.
     case parseWALKey key of (term, firstRev) \<Rightarrow>
       (case map_of m term of
          None \<Rightarrow> AList.update term firstRev m
        | Some existing \<Rightarrow> if firstRev < existing then AList.update term firstRev m else m)) [] keys"

definition term_cutoff :: "(nat \<times> int) list \<Rightarrow> nat \<Rightarrow> int" where
  "term_cutoff m term = foldl (\<lambda>c p. if fst p > term \<and> snd p < c then snd p else c) max_i64 m"

definition walTermCutoffs :: "gostring list \<Rightarrow> (nat \<times> int) list" where
  "walTermCutoffs keys = (let m = min_first_revs keys in map (\<lambda>p. (fst p, term_cutoff m (fst p))) m)"

definition lookup0 :: "('k \<times> int) list \<Rightarrow> 'k \<Rightarrow> int" where
  "lookup0 m k = (case map_of m k of None \<Rightarrow> 0 | Some v \<Rightarrow> v)"

fun collect_loop :: "('o, 'm) store_scheme \<Rightarrow> (nat \<times> int) list \<Rightarrow> int \<Rightarrow> gostring list \<Rightarrow> 'o \<Rightarrow> entry list res \<times> 'o" where
  "collect_loop S cutoff afterSeq [] ob = (Inr [], ob)"
| "collect_loop S cutoff afterSeq (key # keys) ob =
     (let termCutoff = lookup0 cutoff (fst (parseWALKey key)) in
      case st_Get S key ob of
        (Inl e, ob) \<Rightarrow> (Inl e, ob)
      | (Inr b, ob) \<Rightarrow>
          (case NewSegmentReader b of
             Inl e \<Rightarrow> (Inl e, ob)
           | Inr sr \<Rightarrow>
               let entries = filter (\<lambda>e. \<not> Sequence e \<le> afterSeq \<and> \<not> Sequence e \<ge> termCutoff) (fst (ReadAll sr)) in
               (case collect_loop S cutoff afterSeq keys ob of
                  (Inl e, ob) \<Rightarrow> (Inl e, ob)
                | (Inr es, ob) \<Rightarrow> (Inr (entries @ es), ob))))"

text \<open>The merge of equal sequence numbers: the last element of \<open>merged\<close> is replaced by an entry of the same
  sequence whose term is not smaller.\<close>

fun merge_entries :: "entry list \<Rightarrow> entry list \<Rightarrow> entry list" where
  "merge_entries merged [] = merged"
| "merge_entries merged (e # es) =
     (if merged \<noteq> [] \<and> Sequence (last merged) = Sequence e
      then merge_entries (if e_Term e \<ge> e_Term (last merged) then butlast merged @ [e] else merged) es
      else merge_entries (merged @ [e]) es)"

fun check_contiguous :: "int \<Rightarrow> entry list \<Rightarrow> bool" where
  "check_contiguous expected [] = True"
| "check_contiguous expected (e # es) = (Sequence e = expected \<and> check_contiguous (wrap64 (expected + 1)) es)"

definition replayRemote :: "('o, 'm) store_scheme \<Rightarrow> (entry list \<Rightarrow> 'db \<Rightarrow> goerr option \<times> 'db) \<Rightarrow> int \<Rightarrow>
    'db \<Rightarrow> 'o \<Rightarrow> goerr option \<times> 'db \<times> 'o" where
  "replayRemote S recover afterSeq db ob =
     (case st_List S (str ''wal/'') ob of
        (Inl e, ob) \<Rightarrow> (Some e, db, ob)
      | (Inr keys, ob) \<Rightarrow>
          (case collect_loop S (walTermCutoffs keys) afterSeq keys ob of
             (Inl e, ob) \<Rightarrow> (Some e, db, ob)
           | (Inr all, ob) \<Rightarrow>
               if all = [] then (None, db, ob)
               else
                 let merged = merge_entries [] (sort_key (\<lambda>e. (Sequence e, e_Term e)) all) in
                 if \<not> check_contiguous (wrap64 (afterSeq + 1)) merged
                 then (Some (Err ''replayRemote: missing sequence(s)''), db, ob)
                 else (case recover merged db of (e, db) \<Rightarrow> (e, db, ob))))"

text \<open>Replay of the segments pinned by a restore point; \<open>getv\<close> is \<open>GetVersioned\<close> of its store.\<close>

fun replayPinned :: "(gostring \<Rightarrow> gostring \<Rightarrow> bytes res) \<Rightarrow> (entry list \<Rightarrow> 'db \<Rightarrow> goerr option \<times> 'db) \<Rightarrow>
    (gostring \<times> gostring) list \<Rightarrow> int \<Rightarrow> 'db \<Rightarrow> goerr option \<times> 'db" where
  "replayPinned getv recover [] afterSeq db = (None, db)"
| "replayPinned getv recover ((key, versionID) # segs) afterSeq db =
     (case getv key versionID of
        Inl e \<Rightarrow> (Some e, db)
      | Inr b \<Rightarrow>
          (case NewSegmentReader b of
             Inl e \<Rightarrow> (Some e, db)
           | Inr sr \<Rightarrow>
               let applicable = filter (\<lambda>e. Sequence e > afterSeq) (fst (ReadAll sr)) in
               if applicable \<noteq> [] then
                 (case recover applicable db of
                    (Some e, db) \<Rightarrow> (Some e, db)
                  | (None, db) \<Rightarrow> replayPinned getv recover segs afterSeq db)
               else replayPinned getv recover segs afterSeq db))"

section \<open>Object keys\<close>

definition wal_key :: "gostring \<Rightarrow> nat \<Rightarrow> int \<Rightarrow> bool" where
  "wal_key k t r \<longleftrightarrow> k = ObjectKey t r \<and> t < 10 ^ 10 \<and> 0 \<le> r \<and> is_i64 r"

lemma slash_not_in_fmt: "47 \<notin> set (fmt_0u w n)" "47 \<notin> set (fmt_0d w x)" "47 \<notin> set (str ''wal'')"
  using fmt_0u_chars [of 47 w n] fmt_0d_chars [of 47 w x] by (auto simp: str_def)

lemma ObjectKey_split: "ObjectKey t r = str ''wal'' @ 47 # fmt_0u 10 t @ 47 # fmt_0d 20 r"
  by (simp add: ObjectKey_def str_def)

lemma parseFirstRev_ObjectKey: "is_i64 r \<Longrightarrow> parseFirstRev (ObjectKey t r) = r"
  by (simp add: parseFirstRev_def ObjectKey_split SplitByte_append SplitByte_none slash_not_in_fmt)

lemma parseWALKey_ObjectKey:
  assumes "t < 2 ^ 64" and "is_i64 r"
  shows "parseWALKey (ObjectKey t r) = (t, r)"
proof -
  have "SplitNByte (ObjectKey t r) 47 3 = [str ''wal'', fmt_0u 10 t, fmt_0d 20 r]"
    unfolding ObjectKey_split
    by (simp add: numeral_3_eq_3 SplitNByte_append slash_not_in_fmt del: SplitNByte.simps(3))
  with assms show ?thesis by (simp add: parseWALKey_def)
qed

lemma ObjectKey_less:
  assumes "t < 10 ^ 10" "t' < 10 ^ 10" "0 \<le> r" "0 \<le> r'" "is_i64 r" "is_i64 r'"
  shows "ObjectKey t r < ObjectKey t' r' \<longleftrightarrow> t < t' \<or> t = t' \<and> r < r'"
proof -
  have b: "nat r < 10 ^ 20" "nat r' < 10 ^ 20" using assms by (simp_all add: is_i64_def nat_less_iff)
  from assms b show ?thesis
    by (simp add: ObjectKey_def fmt_0d_def fmt_0u_width append_less_append put_dec_less_iff put_dec_inject
        nat_less_eq_zless del: zless_nat_conj)
qed

lemma wal_keyD:
  assumes "wal_key k t r"
  shows "parseWALKey k = (t, r)" and "parseFirstRev k = r" and "wrap64 (r - 1) = r - 1"
  using assms
  by (auto simp: wal_key_def parseWALKey_ObjectKey parseFirstRev_ObjectKey is_i64_def wrap_simps)

lemma wal_key_prefix: "wal_key k t r \<Longrightarrow> HasPrefix k (str ''wal/'')"
  by (simp add: wal_key_def HasPrefix_def ObjectKey_def)

section \<open>Cutoffs\<close>

lemma min_first_revs_inv:
  "(\<forall>k \<in> set keys. \<exists>v. map_of (min_first_revs keys) (fst (parseWALKey k)) = Some v \<and> v \<le> snd (parseWALKey k)) \<and>
   (\<forall>t v. map_of (min_first_revs keys) t = Some v \<longrightarrow> (\<exists>k \<in> set keys. parseWALKey k = (t, v))) \<and>
   distinct (map fst (min_first_revs keys))"
proof (induction keys rule: rev_induct)
  case Nil
  then show ?case by (simp add: min_first_revs_def)
next
  case (snoc k keys)
  obtain t r where k: "parseWALKey k = (t, r)" by (cases "parseWALKey k")
  let ?m = "min_first_revs keys"
  have step: "min_first_revs (keys @ [k]) =
      (case map_of ?m t of None \<Rightarrow> AList.update t r ?m | Some v \<Rightarrow> if r < v then AList.update t r ?m else ?m)"
    by (simp add: min_first_revs_def k split: option.split)
  show ?case
  proof (cases "map_of ?m t")
    case None
    with snoc k step show ?thesis by (auto simp: update_conv' distinct_update)
  next
    case (Some v)
    show ?thesis
    proof (cases "r < v")
      case True
      with snoc k step Some show ?thesis
        by (auto simp: update_conv' distinct_update)
    qed (use snoc k step Some in auto)
  qed
qed

lemma term_cutoff_le: "p \<in> set m \<Longrightarrow> t < fst p \<Longrightarrow> term_cutoff m t \<le> snd p"
proof -
  let ?f = "\<lambda>c p. if t < fst p \<and> snd p < c then snd p else c"
  have mono: "foldl ?f c m \<le> c" for c and m :: "(nat \<times> int) list"
  proof (induction m arbitrary: c)
    case (Cons q m)
    have "foldl ?f (?f c q) m \<le> ?f c q" by (rule Cons)
    also have "\<dots> \<le> c" by simp
    finally show ?case by simp
  qed simp
  have "p \<in> set m \<Longrightarrow> t < fst p \<Longrightarrow> foldl ?f c m \<le> snd p" for c
  proof (induction m arbitrary: c)
    case (Cons q m)
    show ?case
    proof (cases "p = q")
      case True
      with mono [of "?f c q" m] Cons.prems(2) show ?thesis by (auto split: if_splits)
    qed (use Cons in auto)
  qed simp
  then show "p \<in> set m \<Longrightarrow> t < fst p \<Longrightarrow> term_cutoff m t \<le> snd p" by (simp add: term_cutoff_def)
qed

lemma term_cutoff_cases: "term_cutoff m t = max_i64 \<or> (\<exists>p \<in> set m. t < fst p \<and> snd p = term_cutoff m t)"
proof -
  let ?f = "\<lambda>c p. if t < fst p \<and> snd p < c then snd p else c"
  have "foldl ?f c m = c \<or> (\<exists>p \<in> set m. t < fst p \<and> snd p = foldl ?f c m)" for c
  proof (induction m arbitrary: c)
    case (Cons q m)
    from Cons [of "?f c q"] show ?case by (auto split: if_splits)
  qed simp
  then show ?thesis by (simp add: term_cutoff_def)
qed

definition cutoff_of :: "gostring list \<Rightarrow> nat \<Rightarrow> int" where
  "cutoff_of keys t = lookup0 (walTermCutoffs keys) t"

lemma cutoff_of_term:
  assumes "k \<in> set keys" and "fst (parseWALKey k) = t"
  shows "cutoff_of keys t = term_cutoff (min_first_revs keys) t"
proof -
  let ?m = "min_first_revs keys"
  obtain v where v: "map_of ?m t = Some v" using min_first_revs_inv [of keys] assms by auto
  have d: "distinct (map fst (walTermCutoffs keys))"
    using min_first_revs_inv [of keys] by (simp add: walTermCutoffs_def Let_def comp_def)
  have "(t, term_cutoff ?m t) \<in> set (walTermCutoffs keys)"
    using map_of_SomeD [OF v] by (force simp: walTermCutoffs_def Let_def)
  with d show ?thesis by (simp add: cutoff_of_def lookup0_def)
qed

lemma cutoff_le:
  assumes "k \<in> set keys" and "fst (parseWALKey k) = t" and "k' \<in> set keys" and "t < fst (parseWALKey k')"
  shows "cutoff_of keys t \<le> snd (parseWALKey k')"
proof -
  obtain v where v: "map_of (min_first_revs keys) (fst (parseWALKey k')) = Some v" "v \<le> snd (parseWALKey k')"
    using min_first_revs_inv [of keys] assms(3) by blast
  from term_cutoff_le [OF map_of_SomeD [OF v(1)], of t] assms(4) v(2) show ?thesis
    by (simp add: cutoff_of_term [OF assms(1,2)])
qed

lemma cutoff_cases:
  assumes "k \<in> set keys" and "fst (parseWALKey k) = t"
  shows "cutoff_of keys t = max_i64 \<or>
    (\<exists>k' \<in> set keys. t < fst (parseWALKey k') \<and> snd (parseWALKey k') = cutoff_of keys t)"
proof -
  let ?m = "min_first_revs keys"
  have "\<exists>k \<in> set keys. parseWALKey k = p" if "p \<in> set ?m" for p
    using that min_first_revs_inv [of keys] by (metis map_of_is_SomeI prod.collapse)
  with term_cutoff_cases [of ?m t] show ?thesis
    unfolding cutoff_of_term [OF assms] by (metis prod.collapse)
qed

section \<open>Merging\<close>

definition ekey :: "entry \<Rightarrow> int \<times> nat" where
  "ekey e = (Sequence e, e_Term e)"

definition merge_inv :: "entry list \<Rightarrow> entry list \<Rightarrow> bool" where
  "merge_inv M P \<longleftrightarrow> sorted_wrt (\<lambda>x y. Sequence x < Sequence y) M \<and> set M \<subseteq> set P \<and>
     (\<forall>x \<in> set P. \<exists>y \<in> set M. Sequence y = Sequence x \<and> e_Term x \<le> e_Term y) \<and>
     (P \<noteq> [] \<longrightarrow> M \<noteq> [] \<and> Sequence (last M) = Sequence (last P))"

lemma merge_inv_replace:
  assumes "merge_inv M P" and "M \<noteq> []" and "Sequence (last M) = Sequence e" and "\<forall>x \<in> set P. ekey x \<le> ekey e"
  shows "merge_inv (butlast M @ [e]) (P @ [e])"
proof -
  obtain N l where M: "M = N @ [l]" using assms(2) by (cases M rule: rev_cases) auto
  have s: "sorted_wrt (\<lambda>x y. Sequence x < Sequence y) (N @ [e])"
    using assms(1,3) by (simp add: merge_inv_def M sorted_wrt_append)
  have "\<exists>y \<in> set (N @ [e]). Sequence y = Sequence x \<and> e_Term x \<le> e_Term y" if "x \<in> set (P @ [e])" for x
  proof (cases "x = e \<or> Sequence x = Sequence e")
    case True
    with that assms(4) have "e_Term x \<le> e_Term e" by (auto simp: ekey_def less_eq_prod_def)
    with True show ?thesis by auto
  next
    case False
    with that assms(1,3) show ?thesis by (fastforce simp: merge_inv_def M)
  qed
  with s assms(1) show ?thesis by (auto simp: merge_inv_def M)
qed

lemma merge_inv_append:
  assumes "merge_inv M P" and "M = [] \<or> Sequence (last M) \<noteq> Sequence e" and "\<forall>x \<in> set P. ekey x \<le> ekey e"
  shows "merge_inv (M @ [e]) (P @ [e])"
proof -
  have "Sequence x < Sequence e" if "x \<in> set M" for x
  proof -
    have "M \<noteq> []" using that by auto
    then have l: "last M \<in> set M" "Sequence (last M) < Sequence e"
      using assms by (auto simp: merge_inv_def ekey_def less_eq_prod_def dest: subsetD [OF _ last_in_set])
    moreover have "Sequence x \<le> Sequence (last M)"
    proof -
      obtain N y where M: "M = N @ [y]" using \<open>M \<noteq> []\<close> by (cases M rule: rev_cases) auto
      with assms(1) that show ?thesis by (auto simp: merge_inv_def sorted_wrt_append)
    qed
    ultimately show ?thesis by simp
  qed
  with assms(1) show ?thesis by (auto simp: merge_inv_def sorted_wrt_append)
qed

lemma merge_entries_inv:
  assumes "merge_inv M P" and "sorted (map ekey (P @ es))"
  shows "merge_inv (merge_entries M es) (P @ es)"
  using assms
proof (induction es arbitrary: M P)
  case (Cons e es)
  have le: "\<forall>x \<in> set P. ekey x \<le> ekey e" using Cons.prems(2) by (auto simp: sorted_append)
  have s: "sorted (map ekey ((P @ [e]) @ es))" using Cons.prems(2) by simp
  show ?case
  proof (cases "M \<noteq> [] \<and> Sequence (last M) = Sequence e")
    case True
    have "last M \<in> set P" using True Cons.prems(1) by (auto simp: merge_inv_def dest: subsetD [OF _ last_in_set])
    with le True have t: "e_Term (last M) \<le> e_Term e" by (auto simp: ekey_def less_eq_prod_def)
    from Cons.IH [OF merge_inv_replace [OF Cons.prems(1) _ _ le] s] True t show ?thesis by simp
  next
    case False
    with Cons.IH [OF merge_inv_append [OF Cons.prems(1) _ le] s] show ?thesis by auto
  qed
qed simp

lemma sorted_wrt_inj: "sorted_wrt (\<lambda>x y. f x < (f y :: 'b::linorder)) xs \<Longrightarrow> inj_on f (set xs)"
  by (induction xs) auto

lemma merge_sorted:
  assumes "all \<noteq> []"
  defines "M \<equiv> merge_entries [] (sort_key ekey all)"
  shows "M \<noteq> []" and "sorted_wrt (\<lambda>x y. Sequence x < Sequence y) M" and "set M \<subseteq> set all"
    and "x \<in> set all \<Longrightarrow> \<exists>y \<in> set M. Sequence y = Sequence x"
    and "x \<in> set all \<Longrightarrow> y \<in> set M \<Longrightarrow> Sequence x = Sequence y \<Longrightarrow> e_Term x \<le> e_Term y"
proof -
  have I: "merge_inv M (sort_key ekey all)"
    using merge_entries_inv [of "[]" "[]" "sort_key ekey all"] by (simp add: M_def merge_inv_def)
  show "sorted_wrt (\<lambda>x y. Sequence x < Sequence y) M" "set M \<subseteq> set all" using I by (auto simp: merge_inv_def)
  have "sort_key ekey all \<noteq> []" using assms by (metis length_0_conv length_sort)
  with I show "M \<noteq> []" by (simp add: merge_inv_def)
  show "x \<in> set all \<Longrightarrow> \<exists>y \<in> set M. Sequence y = Sequence x" using I by (auto simp: merge_inv_def)
  assume x: "x \<in> set all" and y: "y \<in> set M" and e: "Sequence x = Sequence y"
  from x I obtain z where z: "z \<in> set M" "Sequence z = Sequence x" "e_Term x \<le> e_Term z" by (auto simp: merge_inv_def)
  have "inj_on Sequence (set M)" using I sorted_wrt_inj by (auto simp: merge_inv_def)
  with y z e have "z = y" by (metis inj_onD)
  with z(3) show "e_Term x \<le> e_Term y" by simp
qed

section \<open>Garbage collection\<close>

lemma gc_candidates_nth:
  "k \<in> set (gc_candidates keys cp) \<longleftrightarrow>
   (\<exists>i. Suc i < length keys \<and> keys ! i = k \<and> wrap64 (parseFirstRev (keys ! Suc i) - 1) \<le> cp)"
proof (induction keys cp rule: gc_candidates.induct)
  case (1 k1 k2 ks cp)
  have "(\<exists>i. Suc i < length (k1 # k2 # ks) \<and> (k1 # k2 # ks) ! i = k \<and>
        wrap64 (parseFirstRev ((k1 # k2 # ks) ! Suc i) - 1) \<le> cp) \<longleftrightarrow>
      (k1 = k \<and> wrap64 (parseFirstRev k2 - 1) \<le> cp) \<or>
      (\<exists>i. Suc i < length (k2 # ks) \<and> (k2 # ks) ! i = k \<and> wrap64 (parseFirstRev ((k2 # ks) ! Suc i) - 1) \<le> cp)"
    by (subst ex_nat_split) simp
  with 1 show ?case by auto
qed auto

text \<open>The segments of a store: every key has the canonical form, every object a readable header, and a segment's
  entries end before the next segment of the same term begins.\<close>

definition seg_entries :: "mem \<Rightarrow> gostring \<Rightarrow> entry list" where
  "seg_entries m k = read_seg (the (mem_abs m k))"

definition wal_keys :: "mem \<Rightarrow> gostring list" where
  "wal_keys m = sort (filter (\<lambda>k. HasPrefix k (str ''wal/'')) (remdups (map fst m)))"

definition wal_store_ok :: "mem \<Rightarrow> bool" where
  "wal_store_ok m \<longleftrightarrow>
     (\<forall>k \<in> set (wal_keys m). (\<exists>t r. wal_key k t r) \<and> (\<exists>b sr. mem_abs m k = Some b \<and> newSegmentReader b = Inr sr)) \<and>
     (\<forall>i. Suc i < length (wal_keys m) \<and> fst (parseWALKey (wal_keys m ! i)) = fst (parseWALKey (wal_keys m ! Suc i)) \<longrightarrow>
        (\<forall>e \<in> set (seg_entries m (wal_keys m ! i)). Sequence e < snd (parseWALKey (wal_keys m ! Suc i))))"

lemma wal_keys_List: "mem_List (str ''wal/'') m = (Inr (wal_keys m), m)"
  by (simp add: mem_List_def wal_keys_def)

lemma wal_keys_sorted: "sorted (wal_keys m)" "distinct (wal_keys m)"
  and set_wal_keys: "set (wal_keys m) = {k \<in> dom (mem_abs m). HasPrefix k (str ''wal/'')}"
  using mem_List_set [OF wal_keys_List [of m]] by auto

definition kept :: "int \<Rightarrow> int \<Rightarrow> entry list \<Rightarrow> entry list" where
  "kept afterSeq co es = filter (\<lambda>e. \<not> Sequence e \<le> afterSeq \<and> \<not> Sequence e \<ge> co) es"

lemma collect_mem:
  assumes "\<forall>k \<in> set ks. \<exists>b sr. mem_abs m k = Some b \<and> newSegmentReader b = Inr sr"
  shows "collect_loop mem_store (walTermCutoffs keys) afterSeq ks m =
    (Inr (concat (map (\<lambda>k. kept afterSeq (cutoff_of keys (fst (parseWALKey k))) (seg_entries m k)) ks)), m)"
  using assms
proof (induction ks)
  case (Cons k ks)
  then obtain b sr where b: "mem_abs m k = Some b" "newSegmentReader b = Inr sr" by auto
  then have "mem_Get k m = (Inr b, m)" by (auto simp: mem_Get_def mem_abs_def)
  with Cons b show ?case
    by (simp add: mem_store_sel NewSegmentReader_def seg_entries_def read_seg_def
        kept_def cutoff_of_def Let_def)
qed simp

lemma concat_map_filter_eq:
  assumes "\<And>k. k \<in> set ks \<Longrightarrow> k \<in> D \<Longrightarrow> f k = []" and "\<And>k. k \<in> set ks \<Longrightarrow> k \<notin> D \<Longrightarrow> f k = g k"
  shows "concat (map g (filter (\<lambda>k. k \<notin> D) ks)) = concat (map f ks)"
  using assms by (induction ks) auto

lemma deleted_next:
  assumes "wal_store_ok m" and "k \<in> set (gc_candidates (wal_keys m) cp)"
  obtains i where "Suc i < length (wal_keys m)" and "wal_keys m ! i = k" and "snd (parseWALKey (wal_keys m ! Suc i)) \<le> cp + 1"
    and "fst (parseWALKey k) \<le> fst (parseWALKey (wal_keys m ! Suc i))"
proof -
  let ?K = "wal_keys m"
  obtain i where i: "Suc i < length ?K" "?K ! i = k" "wrap64 (parseFirstRev (?K ! Suc i) - 1) \<le> cp"
    using assms(2) by (auto simp: gc_candidates_nth)
  have in_K: "?K ! i \<in> set ?K" "?K ! Suc i \<in> set ?K" using i(1) by simp_all
  obtain t r t' r' where w: "wal_key (?K ! i) t r" "wal_key (?K ! Suc i) t' r'"
    using assms(1) in_K unfolding wal_store_ok_def by blast
  have "?K ! i \<le> ?K ! Suc i" using wal_keys_sorted(1) i(1) by (simp add: sorted_iff_nth_Suc)
  moreover have "?K ! i \<noteq> ?K ! Suc i" using wal_keys_sorted(2) i(1) by (simp add: nth_eq_iff_index_eq)
  ultimately have "?K ! i < ?K ! Suc i" by simp
  with w have "t \<le> t'" using ObjectKey_less [of t t' r r'] by (auto simp: wal_key_def)
  with i show ?thesis using wal_keyD [OF w(1)] wal_keyD [OF w(2)] by (intro that [of i]) auto
qed

lemma nth_le_terms:
  assumes "wal_store_ok m" and "i \<le> j" and "j < length (wal_keys m)"
  shows "fst (parseWALKey (wal_keys m ! i)) \<le> fst (parseWALKey (wal_keys m ! j))"
proof -
  let ?K = "wal_keys m"
  have "?K ! i \<in> set ?K" "?K ! j \<in> set ?K" using assms(2,3) by simp_all
  then obtain t r t' r' where w: "wal_key (?K ! i) t r" "wal_key (?K ! j) t' r'"
    using assms(1) unfolding wal_store_ok_def by blast
  have "?K ! i \<le> ?K ! j" using wal_keys_sorted(1) assms(2,3) by (simp add: sorted_nth_mono)
  with w have "t \<le> t'" using ObjectKey_less [of t' t r' r] by (force simp: wal_key_def)
  then show ?thesis using wal_keyD(1) [OF w(1)] wal_keyD(1) [OF w(2)] by simp
qed

text \<open>When a segment is deleted, a segment of the same or a later term that starts no later than the checkpoint stays.\<close>

lemma kept_successor:
  assumes "wal_store_ok m" and "k \<in> set (gc_candidates (wal_keys m) cp)"
  obtains k' where "k' \<in> set (wal_keys m)" "k' \<notin> set (gc_candidates (wal_keys m) cp)"
    "fst (parseWALKey k) \<le> fst (parseWALKey k')" "snd (parseWALKey k') \<le> cp + 1"
proof -
  let ?K = "wal_keys m" and ?D = "set (gc_candidates (wal_keys m) cp)"
  have later: "\<exists>j < length ?K. ?K ! j \<notin> ?D \<and> fst (parseWALKey (?K ! i)) \<le> fst (parseWALKey (?K ! j)) \<and> snd (parseWALKey (?K ! j)) \<le> cp + 1"
    if "?K ! i \<in> ?D" and "i < length ?K" for i
    using that
  proof (induction "length ?K - i" arbitrary: i rule: less_induct)
    case less
    from deleted_next [OF assms(1) less.prems(1)] obtain i' where
      i': "Suc i' < length ?K" "?K ! i' = ?K ! i" "snd (parseWALKey (?K ! Suc i')) \<le> cp + 1" by blast
    have "i' = i" using i'(1,2) less.prems(2) wal_keys_sorted(2) by (simp add: nth_eq_iff_index_eq)
    with i' have Si: "Suc i < length ?K" "snd (parseWALKey (?K ! Suc i)) \<le> cp + 1" by simp_all
    have le: "fst (parseWALKey (?K ! i)) \<le> fst (parseWALKey (?K ! Suc i))" using nth_le_terms [OF assms(1)] Si(1) by simp
    show ?case
    proof (cases "?K ! Suc i \<in> ?D")
      case True
      have "length ?K - Suc i < length ?K - i" using Si(1) by simp
      from less.hyps [OF this True Si(1)] obtain j where j: "j < length ?K" "?K ! j \<notin> ?D"
        "fst (parseWALKey (?K ! Suc i)) \<le> fst (parseWALKey (?K ! j))" "snd (parseWALKey (?K ! j)) \<le> cp + 1" by (elim exE conjE)
      show ?thesis by (intro exI [of _ j] conjI j(1,2,4) order_trans [OF le j(3)])
    next
      case False
      show ?thesis by (intro exI [of _ "Suc i"] conjI Si False le)
    qed
  qed
  obtain i where i: "Suc i < length ?K" "?K ! i = k" by (rule deleted_next [OF assms])
  then have D: "?K ! i \<in> ?D" "i < length ?K" using assms(2) by simp_all
  obtain j where j: "j < length ?K" "?K ! j \<notin> ?D" "fst (parseWALKey (?K ! i)) \<le> fst (parseWALKey (?K ! j))"
    "snd (parseWALKey (?K ! j)) \<le> cp + 1" using later [OF D] by (elim exE conjE)
  show ?thesis by (rule that [OF nth_mem [OF j(1)] j(2) j(3) [unfolded i(2)] j(4)])
qed

lemma cutoff_max:
  assumes "\<forall>k \<in> set keys. \<exists>t r. wal_key k t r" and "k \<in> set keys"
  shows "cutoff_of keys (fst (parseWALKey k)) \<le> max_i64"
proof -
  have "snd (parseWALKey k') \<le> max_i64" if k': "k' \<in> set keys" for k'
  proof -
    obtain t r where "wal_key k' t r" using assms(1) k' by blast
    then show ?thesis using wal_keyD(1) [of k' t r] by (simp add: wal_key_def is_i64_def max_i64_def)
  qed
  with cutoff_cases [OF assms(2) refl] show ?thesis by force
qed

lemma gc_kept_entries:
  assumes ok: "wal_store_ok m" and "cp \<le> afterSeq" and D: "D = set (gc_candidates (wal_keys m) cp)"
    and K': "K' = filter (\<lambda>k. k \<notin> D) (wal_keys m)" and k: "k \<in> set (wal_keys m)"
  shows "k \<in> D \<Longrightarrow> kept afterSeq (cutoff_of (wal_keys m) (fst (parseWALKey k))) (seg_entries m k) = []"
    and "k \<notin> D \<Longrightarrow> kept afterSeq (cutoff_of (wal_keys m) (fst (parseWALKey k))) (seg_entries m k) =
      kept afterSeq (cutoff_of K' (fst (parseWALKey k))) (seg_entries m k)"
proof -
  let ?K = "wal_keys m" and ?t = "fst (parseWALKey k)"
  show "kept afterSeq (cutoff_of ?K ?t) (seg_entries m k) = []" if kD: "k \<in> D"
  proof -
    obtain i where i: "Suc i < length ?K" "?K ! i = k" "snd (parseWALKey (?K ! Suc i)) \<le> cp + 1"
      "?t \<le> fst (parseWALKey (?K ! Suc i))" using deleted_next [OF ok kD [unfolded D]] by blast
    have "Sequence e \<ge> cutoff_of ?K ?t" if e: "e \<in> set (seg_entries m k)" "Sequence e > afterSeq" for e
    proof (cases "?t = fst (parseWALKey (?K ! Suc i))")
      case True
      with ok i e(1) have "Sequence e < snd (parseWALKey (?K ! Suc i))" unfolding wal_store_ok_def by blast
      with i(3) e(2) assms(2) show ?thesis by simp
    next
      case False
      with i have "cutoff_of ?K ?t \<le> snd (parseWALKey (?K ! Suc i))" by (intro cutoff_le [OF k]) auto
      with i(3) e(2) assms(2) show ?thesis by simp
    qed
    then show ?thesis by (force simp: kept_def filter_empty_conv)
  qed
  show "kept afterSeq (cutoff_of ?K ?t) (seg_entries m k) = kept afterSeq (cutoff_of K' ?t) (seg_entries m k)" if "k \<notin> D"
  proof (cases "cutoff_of ?K ?t = cutoff_of K' ?t")
    case False
    have k': "k \<in> set K'" using that k by (simp add: K')
    have wf: "\<forall>k \<in> set ?K. \<exists>t r. wal_key k t r" using ok by (simp add: wal_store_ok_def)
    have mx: "cutoff_of ?K ?t \<le> max_i64" "cutoff_of K' ?t \<le> max_i64"
      using cutoff_max [OF wf k] cutoff_max [of K', OF _ k'] wf by (auto simp: K')
    have le: "cutoff_of ?K ?t \<le> cutoff_of K' ?t"
      using cutoff_cases [OF k' refl]
    proof
      assume "\<exists>x \<in> set K'. ?t < fst (parseWALKey x) \<and> snd (parseWALKey x) = cutoff_of K' ?t"
      then obtain x where x: "x \<in> set K'" "?t < fst (parseWALKey x)" "snd (parseWALKey x) = cutoff_of K' ?t" by blast
      then have "x \<in> set ?K" by (simp add: K')
      from cutoff_le [OF k refl this x(2)] x(3) show ?thesis by simp
    qed (use mx in simp)
    have "cutoff_of K' ?t \<le> cp + 1"
    proof -
      obtain k1 where k1: "k1 \<in> set ?K" "?t < fst (parseWALKey k1)" "snd (parseWALKey k1) = cutoff_of ?K ?t"
        using cutoff_cases [OF k refl] False le mx by force
      have "k1 \<in> D"
      proof (rule ccontr)
        assume "k1 \<notin> D"
        with k1 have "cutoff_of K' ?t \<le> snd (parseWALKey k1)" by (intro cutoff_le [OF k' refl]) (simp_all add: K')
        with k1(3) le False show False by simp
      qed
      then obtain k2 where "k2 \<in> set ?K" "k2 \<notin> D" "fst (parseWALKey k1) \<le> fst (parseWALKey k2)" "snd (parseWALKey k2) \<le> cp + 1"
        using kept_successor [OF ok] unfolding D by blast
      with k1(2) show ?thesis using cutoff_le [OF k' refl, of k2] by (force simp: K')
    qed
    with le assms(2) show ?thesis by (auto simp: kept_def intro!: filter_cong)
  qed simp
qed

definition replay_result :: "(entry list \<Rightarrow> 'db \<Rightarrow> goerr option \<times> 'db) \<Rightarrow> int \<Rightarrow> 'db \<Rightarrow> mem \<Rightarrow> goerr option \<times> 'db" where
  "replay_result recover afterSeq db m =
     (fst (replayRemote mem_store recover afterSeq db m), fst (snd (replayRemote mem_store recover afterSeq db m)))"

lemma replay_result_collect:
  assumes "collect_loop mem_store (walTermCutoffs (wal_keys m)) afterSeq (wal_keys m) m = (Inr all, m)"
    and "collect_loop mem_store (walTermCutoffs (wal_keys m')) afterSeq (wal_keys m') m' = (Inr all, m')"
  shows "replay_result recover afterSeq db m' = replay_result recover afterSeq db m"
  using assms
  by (simp add: replay_result_def replayRemote_def mem_store_sel wal_keys_List Let_def split: prod.split)

lemma replay_after_gc:
  assumes ok: "wal_store_ok m" and "cp \<le> afterSeq" and gc: "GCSegments mem_store cp m = (r, m')"
  shows "replay_result recover afterSeq db m' = replay_result recover afterSeq db m"
proof -
  let ?K = "wal_keys m" and ?D = "set (gc_candidates (wal_keys m) cp)"
  show ?thesis
  proof (cases "m' = m")
    case False
    then have abs: "mem_abs m' = mem_abs m |` (- ?D)"
      using gc by (auto simp: GCSegments_def mem_store_sel wal_keys_List mem_DeleteMany_def mem_abs_simps Let_def split: if_splits)
    have "set (wal_keys m') = set (filter (\<lambda>k. k \<notin> ?D) ?K)"
      by (auto simp: set_wal_keys abs dom_def restrict_map_def split: if_splits)
    then have K': "wal_keys m' = filter (\<lambda>k. k \<notin> ?D) ?K"
      by (intro sorted_distinct_set_unique) (auto simp: wal_keys_sorted intro: sorted_wrt_filter)
    have e: "seg_entries m' k = seg_entries m k" if "k \<notin> ?D" for k using that by (simp add: seg_entries_def abs)
    have rd: "\<forall>k \<in> set ?K. \<exists>b sr. mem_abs m k = Some b \<and> newSegmentReader b = Inr sr"
      using ok by (simp add: wal_store_ok_def)
    then have rd': "\<forall>k \<in> set (wal_keys m'). \<exists>b sr. mem_abs m' k = Some b \<and> newSegmentReader b = Inr sr"
      by (auto simp: K' abs)
    let ?f = "\<lambda>m k. kept afterSeq (cutoff_of (wal_keys m) (fst (parseWALKey k))) (seg_entries m k)"
    have "concat (map (?f m') (filter (\<lambda>k. k \<notin> ?D) ?K)) = concat (map (?f m) ?K)"
      by (rule concat_map_filter_eq)
        (use gc_kept_entries [OF ok assms(2) refl refl] in \<open>auto simp: K' e\<close>)
    then show ?thesis using collect_mem [OF rd] collect_mem [OF rd'] by (intro replay_result_collect) (simp_all add: K')
  qed simp
qed

section \<open>Properties\<close>

text \<open>C13: garbage collection is invisible to recovery. Collecting the segments covered by a checkpoint sequence and then
  replaying from object storage, starting at that checkpoint or later, gives the database the same result as
  replaying before the collection, leader changes (superseded tails of older terms) included.\<close>

theorem gc_preserves_replay:
  assumes "wal_store_ok m" and "cp \<le> afterSeq" and "GCSegments mem_store cp m = (r, m')"
  shows "fst (replayRemote mem_store recover afterSeq db m') = fst (replayRemote mem_store recover afterSeq db m) \<and>
    fst (snd (replayRemote mem_store recover afterSeq db m')) = fst (snd (replayRemote mem_store recover afterSeq db m))"
  using replay_after_gc [OF assms] by (simp add: replay_result_def)

lemma collect_above:
  "collect_loop S co afterSeq keys ob = (Inr all, ob') \<Longrightarrow> \<forall>x \<in> set all. afterSeq < Sequence x"
proof (induction keys arbitrary: ob all)
  case (Cons k keys)
  then show ?case by (fastforce simp: Let_def split: prod.splits sum.splits)
qed simp

lemma contiguous_wrap:
  "check_contiguous s es \<Longrightarrow> is_i64 s \<Longrightarrow> sorted_wrt (\<lambda>x y. Sequence x < Sequence y) es \<Longrightarrow> i < length es \<Longrightarrow>
   Sequence (es ! i) = s + int i"
proof (induction es arbitrary: s i)
  case (Cons e es)
  show ?case
  proof (cases i)
    case (Suc j)
    with Cons.prems obtain e' es' where es: "es = e' # es'" by (cases es) auto
    with Cons.prems have "s < wrap64 (s + 1)" by simp
    then have "wrap64 (s + 1) = s + 1" using Cons.prems(2) by (cases "s + 1 < 2 ^ 63") (auto simp: is_i64_def wrap_simps wrap64_def)
    moreover from this have "is_i64 (s + 1)" using is_i64_wrap64 [of "s + 1"] by simp
    ultimately have "Sequence (es ! j) = (s + 1) + int j" using Cons.prems Suc by (intro Cons.IH) auto
    with Suc show ?thesis by simp
  qed (use Cons.prems in simp)
qed simp

lemma contiguous_sequences:
  assumes "check_contiguous (wrap64 (a + 1)) es" and "is_i64 a" and "sorted_wrt (\<lambda>x y. Sequence x < Sequence y) es"
    and "\<forall>x \<in> set es. a < Sequence x"
  shows "\<forall>i < length es. Sequence (es ! i) = a + 1 + int i"
proof (cases es)
  case (Cons e es')
  with assms(1,4) have "a < wrap64 (a + 1)" by auto
  then have "wrap64 (a + 1) = a + 1" using assms(2) by (cases "a + 1 < 2 ^ 63") (auto simp: is_i64_def wrap_simps wrap64_def)
  with contiguous_wrap [OF assms(1) is_i64_wrap64 assms(3)] show ?thesis by simp
qed simp

definition demo_seg :: "int \<Rightarrow> memObj" where
  "demo_seg r = \<lparr>mo_data = seg_file 1 r [entry0\<lparr>e_Revision := r\<rparr>], mo_etag = []\<rparr>"

definition demo_mem :: mem where
  "demo_mem = [(ObjectKey 1 1, demo_seg 1), (ObjectKey 1 2, demo_seg 2)]"

lemma demo_mem_ok: "wal_keys demo_mem = [ObjectKey 1 1, ObjectKey 1 2]" "wal_store_ok demo_mem"
  and demo_mem_entries: "seg_entries demo_mem (ObjectKey 1 1) = [normal (entry0\<lparr>e_Revision := 1\<rparr>)]"
    "seg_entries demo_mem (ObjectKey 1 2) = [normal (entry0\<lparr>e_Revision := 2\<rparr>)]"
proof -
  have less: "ObjectKey 1 1 < ObjectKey 1 2" using ObjectKey_less [of 1 1 1 2] by (simp add: is_i64_def)
  then have ne: "ObjectKey 1 1 \<noteq> ObjectKey 1 2" "ObjectKey 1 2 \<noteq> ObjectKey 1 1" by auto
  have wk: "wal_key (ObjectKey 1 1) 1 1" "wal_key (ObjectKey 1 2) 1 2" by (simp_all add: wal_key_def is_i64_def)
  show K: "wal_keys demo_mem = [ObjectKey 1 1, ObjectKey 1 2]"
    using less ne wal_key_prefix [OF wk(1)] wal_key_prefix [OF wk(2)] by (simp add: wal_keys_def demo_mem_def)
  have a: "mem_abs demo_mem (ObjectKey 1 1) = Some (mo_data (demo_seg 1))" "mem_abs demo_mem (ObjectKey 1 2) = Some (mo_data (demo_seg 2))"
    using ne by (simp_all add: mem_abs_def demo_mem_def)
  have rd: "\<exists>sr. newSegmentReader (mo_data (demo_seg r)) = Inr sr" if "is_i64 r" for r
    using newSegmentReader_header [of 1 r] that by (simp add: demo_seg_def seg_file_def is_u64_def)
  show en: "seg_entries demo_mem (ObjectKey 1 1) = [normal (entry0\<lparr>e_Revision := 1\<rparr>)]"
    "seg_entries demo_mem (ObjectKey 1 2) = [normal (entry0\<lparr>e_Revision := 2\<rparr>)]"
    unfolding seg_entries_def a option.sel demo_seg_def memObj.select_convs
    by (subst read_seg_file; simp add: entry_ok_def entry0_def is_i64_def is_u64_def)+
  have i: "Suc i < length [x, y] \<longleftrightarrow> i = 0" for i and x y :: gostring by auto
  show "wal_store_ok demo_mem"
    unfolding wal_store_ok_def K i using wk a rd [of 1] rd [of 2] wal_keyD(1) [OF wk(1)] wal_keyD(1) [OF wk(2)] en
    by (auto simp: is_i64_def normal_def Sequence_def entry0_def)
qed

theorem gc_preserves_replay_witness:
  "fst (GCSegments mem_store 1 demo_mem) = Inr 1 \<and>
   fst (snd (replayRemote mem_store (\<lambda>es db. (None, db @ es)) 1 [] (snd (GCSegments mem_store 1 demo_mem)))) =
   fst (snd (replayRemote mem_store (\<lambda>es db. (None, db @ es)) 1 [] demo_mem))"
proof -
  have "fst (GCSegments mem_store 1 demo_mem) = Inr 1"
    using wal_keyD [of "ObjectKey 1 2" 1 2]
    by (simp add: GCSegments_def mem_store_sel wal_keys_List demo_mem_ok mem_DeleteMany_def wal_key_def is_i64_def Let_def)
  moreover have "GCSegments mem_store 1 demo_mem = (fst (GCSegments mem_store 1 demo_mem), snd (GCSegments mem_store 1 demo_mem))" by simp
  ultimately show ?thesis
    using gc_preserves_replay [OF demo_mem_ok(2) order_refl [of 1], of _ _ "\<lambda>es db. (None, db @ es)" "[]"] by blast
qed

text \<open>C25: remote replay never applies a stream with a hole. When it succeeds it has either applied nothing or
  handed the database a non-empty list of collected entries whose sequences are consecutive from the first missing one,
  with one entry per sequence, of the highest term that any collected entry has at that sequence.\<close>

theorem replay_remote_contiguous:
  assumes "replayRemote S recover afterSeq db ob = (None, db', ob')" and "is_i64 afterSeq"
  shows "db' = db \<or> (\<exists>keys ob1 ob2 all es.
    st_List S (str ''wal/'') ob = (Inr keys, ob1) \<and>
    collect_loop S (walTermCutoffs keys) afterSeq keys ob1 = (Inr all, ob2) \<and>
    recover es db = (None, db') \<and> es \<noteq> [] \<and> set es \<subseteq> set all \<and>
    (\<forall>i < length es. Sequence (es ! i) = afterSeq + 1 + int i) \<and>
    (\<forall>x \<in> set all. \<exists>y \<in> set es. Sequence y = Sequence x) \<and>
    (\<forall>x \<in> set all. \<forall>y \<in> set es. Sequence x = Sequence y \<longrightarrow> e_Term x \<le> e_Term y))"
proof -
  obtain keys ob1 where l: "st_List S (str ''wal/'') ob = (Inr keys, ob1)"
    using assms(1) by (auto simp: replayRemote_def split: prod.splits sum.splits)
  obtain all ob2 where c: "collect_loop S (walTermCutoffs keys) afterSeq keys ob1 = (Inr all, ob2)"
    using assms(1) l by (auto simp: replayRemote_def split: prod.splits sum.splits)
  show ?thesis
  proof (cases "all = []")
    case True
    with assms(1) l c show ?thesis by (simp add: replayRemote_def)
  next
    case False
    define es where "es = merge_entries [] (sort_key ekey all)"
    note M = merge_sorted [OF False, folded es_def]
    have "check_contiguous (wrap64 (afterSeq + 1)) es" and r: "recover es db = (None, db')"
      using assms(1) l c False
      by (auto simp: replayRemote_def es_def ekey_def [abs_def] Let_def split: if_splits prod.splits)
    then have "\<forall>i < length es. Sequence (es ! i) = afterSeq + 1 + int i"
      using M(1-3) collect_above [OF c] assms(2) by (intro contiguous_sequences) auto
    with M l c r show ?thesis by blast
  qed
qed

theorem replay_remote_contiguous_witness:
  "\<exists>es. replayRemote mem_store (\<lambda>es db. (None, Some es)) 0 None demo_mem = (None, Some es, demo_mem) \<and>
     (\<forall>i < length es. Sequence (es ! i) = 1 + int i) \<and> length es = 2"
proof -
  let ?e = "\<lambda>r. normal (entry0\<lparr>e_Revision := r\<rparr>)"
  have "wal_key (ObjectKey 1 1) 1 1" "wal_key (ObjectKey 1 2) 1 2" by (simp_all add: wal_key_def is_i64_def)
  note p = this [THEN wal_keyD(1)]
  have c: "collect_loop mem_store (walTermCutoffs (wal_keys demo_mem)) 0 (wal_keys demo_mem) demo_mem = (Inr [?e 1, ?e 2], demo_mem)"
    using demo_mem_entries p demo_mem_ok
    by (subst collect_mem)
      (simp_all add: wal_store_ok_def kept_def cutoff_of_def walTermCutoffs_def min_first_revs_def term_cutoff_def lookup0_def
        max_i64_def normal_def Sequence_def entry0_def)
  have s: "Sequence (?e 1) = 1" "Sequence (?e 2) = 2" "e_Term (?e 1) = 0" "e_Term (?e 2) = 0"
    by (simp_all add: normal_def Sequence_def entry0_def)
  have r: "replayRemote mem_store (\<lambda>es db. (None, Some es)) 0 None demo_mem = (None, Some [?e 1, ?e 2], demo_mem)"
    using c s by (simp add: replayRemote_def mem_store_sel wal_keys_List Let_def wrap64_def)
  obtain es where "Some [?e 1, ?e 2] = Some es" "\<forall>i < length es. Sequence (es ! i) = 0 + 1 + int i"
    using replay_remote_contiguous [OF r] by (auto simp: is_i64_def)
  with r show ?thesis by auto
qed

end
