(* ===== verification/Json.thy ===== *)
theory Json
  imports Go_Strings
begin

text \<open>
  The part of \<open>encoding/json\<close> behind the records that the source stores as JSON (the election lock, the
  checkpoint manifest and index, branch entries): values, the compact printer of
  \<open>Marshal\<close> with its string escaping, and a parser for what \<open>Decode\<close> and \<open>Unmarshal\<close> accept.
  Numbers keep their token, as the decoder converts it only when it meets the field's type.
  Decoding a struct looks its fields up by name, ignoring ASCII case, the last occurrence first.

  Lemmas: a printed value parses back when its strings are ASCII.
\<close>

section \<open>Values and printing\<close>

datatype json = JNull | JBool bool | JNum gostring | JStr gostring | JArr "json list" | JObj "(gostring \<times> json) list"

text \<open>The length of the valid UTF-8 sequence at the front, 0 if there is none (as \<open>utf8.DecodeRune\<close>).\<close>

definition cont_byte :: "byte \<Rightarrow> bool" where
  "cont_byte b \<longleftrightarrow> 0x80 \<le> b \<and> b \<le> 0xbf"

definition utf8_len :: "bytes \<Rightarrow> nat" where
  "utf8_len s = (case s of
     [] \<Rightarrow> 0
   | b0 # r \<Rightarrow>
       if b0 < 0x80 then 1
       else (case r of
         [] \<Rightarrow> 0
       | b1 # r \<Rightarrow>
           if 0xc2 \<le> b0 \<and> b0 \<le> 0xdf \<and> cont_byte b1 then 2
           else (case r of
             [] \<Rightarrow> 0
           | b2 # r \<Rightarrow>
               if 0xe0 \<le> b0 \<and> b0 \<le> 0xef \<and> cont_byte b1 \<and> cont_byte b2 \<and>
                  (b0 = 0xe0 \<longrightarrow> 0xa0 \<le> b1) \<and> (b0 = 0xed \<longrightarrow> b1 \<le> 0x9f) then 3
               else (case r of
                 [] \<Rightarrow> 0
               | b3 # _ \<Rightarrow>
                   if 0xf0 \<le> b0 \<and> b0 \<le> 0xf4 \<and> cont_byte b1 \<and> cont_byte b2 \<and> cont_byte b3 \<and>
                      (b0 = 0xf0 \<longrightarrow> 0x90 \<le> b1) \<and> (b0 = 0xf4 \<longrightarrow> b1 \<le> 0x8f) then 4 else 0))))"

definition hex_lower :: "nat \<Rightarrow> byte" where
  "hex_lower n = (if n < 10 then 48 + of_nat n else 87 + of_nat n)"

definition esc_byte :: "byte \<Rightarrow> bytes" where
  "esc_byte b =
     (if b = 34 \<or> b = 92 then [92, b]
      else if b = 8 then [92, 98] else if b = 12 then [92, 102] else if b = 10 then [92, 110]
      else if b = 13 then [92, 114] else if b = 9 then [92, 116]
      else if b < 32 \<or> b = 60 \<or> b = 62 \<or> b = 38
      then [92, 117, 48, 48, hex_lower (unat b div 16), hex_lower (unat b mod 16)]
      else [b])"

fun json_esc_fuel :: "nat \<Rightarrow> bytes \<Rightarrow> bytes" where
  "json_esc_fuel 0 s = []"
| "json_esc_fuel (Suc n) [] = []"
| "json_esc_fuel (Suc n) (b # r) =
     (if b < 0x80 then esc_byte b @ json_esc_fuel n r
      else let k = utf8_len (b # r) in
        if k = 0 then 92 # str ''ufffd'' @ json_esc_fuel n r
        else if take k (b # r) = [0xe2, 0x80, 0xa8] then 92 # str ''u2028'' @ json_esc_fuel n (drop k (b # r))
        else if take k (b # r) = [0xe2, 0x80, 0xa9] then 92 # str ''u2029'' @ json_esc_fuel n (drop k (b # r))
        else take k (b # r) @ json_esc_fuel n (drop k (b # r)))"

definition json_quote :: "gostring \<Rightarrow> bytes" where
  "json_quote s = 34 # json_esc_fuel (length s) s @ [34]"

fun join_comma :: "bytes list \<Rightarrow> bytes" where
  "join_comma [] = []"
| "join_comma [x] = x"
| "join_comma (x # y # ys) = x @ 44 # join_comma (y # ys)"

fun json_print :: "json \<Rightarrow> bytes" where
  "json_print JNull = str ''null''"
| "json_print (JBool b) = (if b then str ''true'' else str ''false'')"
| "json_print (JNum t) = t"
| "json_print (JStr s) = json_quote s"
| "json_print (JArr vs) = 91 # join_comma (map json_print vs) @ [93]"
| "json_print (JObj fs) = 123 # join_comma (map (\<lambda>f. json_quote (fst f) @ 58 # json_print (snd f)) fs) @ [125]"

definition json_int :: "int \<Rightarrow> json" where
  "json_int x = JNum (fmt_0d 0 x)"

section \<open>Parsing\<close>

definition is_ws :: "byte \<Rightarrow> bool" where
  "is_ws b \<longleftrightarrow> b = 32 \<or> b = 9 \<or> b = 10 \<or> b = 13"

definition skip_ws :: "bytes \<Rightarrow> bytes" where
  "skip_ws s = dropWhile is_ws s"

definition hex_val :: "byte \<Rightarrow> nat option" where
  "hex_val b = (if 48 \<le> b \<and> b \<le> 57 then Some (unat b - 48)
     else if 97 \<le> b \<and> b \<le> 102 then Some (unat b - 87)
     else if 65 \<le> b \<and> b \<le> 70 then Some (unat b - 55) else None)"

fun hex4 :: "bytes \<Rightarrow> (nat \<times> bytes) option" where
  "hex4 (a # b # c # d # r) =
     (case (hex_val a, hex_val b, hex_val c, hex_val d) of
        (Some w, Some x, Some y, Some z) \<Rightarrow> Some (w * 4096 + x * 256 + y * 16 + z, r)
      | _ \<Rightarrow> None)"
| "hex4 _ = None"

text \<open>\<open>utf8.AppendRune\<close>.\<close>

definition utf8_encode :: "nat \<Rightarrow> bytes" where
  "utf8_encode u =
     (if u < 0x80 then [of_nat u]
      else if u < 0x800 then [of_nat (0xc0 + u div 64), of_nat (0x80 + u mod 64)]
      else if u < 0x10000 then [of_nat (0xe0 + u div 4096), of_nat (0x80 + u div 64 mod 64), of_nat (0x80 + u mod 64)]
      else [of_nat (0xf0 + u div 262144), of_nat (0x80 + u div 4096 mod 64), of_nat (0x80 + u div 64 mod 64),
            of_nat (0x80 + u mod 64)])"

text \<open>The code point of a hexadecimal escape: a surrogate pair is combined, a lone surrogate is replaced.\<close>

definition unicode_escape :: "bytes \<Rightarrow> (bytes \<times> bytes) option" where
  "unicode_escape r =
     (case hex4 r of
        None \<Rightarrow> None
      | Some (u, r') \<Rightarrow>
          if u < 0xd800 \<or> 0xdfff < u then Some (utf8_encode u, r')
          else if u \<le> 0xdbff \<and> take 2 r' = [92, 117] then
            (case hex4 (drop 2 r') of
               Some (v, r'') \<Rightarrow>
                 if 0xdc00 \<le> v \<and> v \<le> 0xdfff
                 then Some (utf8_encode (0x10000 + (u - 0xd800) * 1024 + (v - 0xdc00)), r'')
                 else Some (utf8_encode 0xfffd, r')
             | None \<Rightarrow> Some (utf8_encode 0xfffd, r'))
          else Some (utf8_encode 0xfffd, r'))"

definition parse_escape :: "bytes \<Rightarrow> (bytes \<times> bytes) option" where
  "parse_escape r = (case r of
     [] \<Rightarrow> None
   | c # r \<Rightarrow>
       if c = 34 \<or> c = 92 \<or> c = 47 then Some ([c], r)
       else if c = 98 then Some ([8], r) else if c = 102 then Some ([12], r)
       else if c = 110 then Some ([10], r) else if c = 114 then Some ([13], r)
       else if c = 116 then Some ([9], r)
       else if c = 117 then unicode_escape r else None)"

text \<open>A string after its opening quote; the fuel bounds the number of characters.\<close>

fun parse_str :: "nat \<Rightarrow> bytes \<Rightarrow> (gostring \<times> bytes) option" where
  "parse_str 0 s = None"
| "parse_str (Suc n) [] = None"
| "parse_str (Suc n) (b # r) =
     (if b = 34 then Some ([], r)
      else if b < 32 then None
      else if b = 92 then
        (case parse_escape r of
           None \<Rightarrow> None
         | Some (x, r') \<Rightarrow> map_option (\<lambda>(s, r''). (x @ s, r'')) (parse_str n r'))
      else if b < 0x80 then map_option (\<lambda>(s, r'). (b # s, r')) (parse_str n r)
      else let k = utf8_len (b # r) in
        if k = 0 then map_option (\<lambda>(s, r'). (utf8_encode 0xfffd @ s, r')) (parse_str n r)
        else map_option (\<lambda>(s, r'). (take k (b # r) @ s, r')) (parse_str n (drop k (b # r))))"

definition num_char :: "byte \<Rightarrow> bool" where
  "num_char b \<longleftrightarrow> 48 \<le> b \<and> b \<le> 57 \<or> b = 45 \<or> b = 43 \<or> b = 46 \<or> b = 101 \<or> b = 69"

text \<open>Values; the fuel bounds the nesting and the number of elements, for which the input's length suffices.\<close>

fun parse_value :: "nat \<Rightarrow> bytes \<Rightarrow> (json \<times> bytes) option"
and parse_elems :: "nat \<Rightarrow> bytes \<Rightarrow> (json list \<times> bytes) option"
and parse_fields :: "nat \<Rightarrow> bytes \<Rightarrow> ((gostring \<times> json) list \<times> bytes) option" where
  "parse_value 0 s = None"
| "parse_value (Suc n) s =
     (case skip_ws s of
        [] \<Rightarrow> None
      | b # r \<Rightarrow>
          if b = 34 then map_option (\<lambda>(t, r'). (JStr t, r')) (parse_str (length r) r)
          else if b = 123 then
            (if take 1 (skip_ws r) = [125] then Some (JObj [], drop 1 (skip_ws r))
             else map_option (\<lambda>(fs, r'). (JObj fs, r')) (parse_fields n r))
          else if b = 91 then
            (if take 1 (skip_ws r) = [93] then Some (JArr [], drop 1 (skip_ws r))
             else map_option (\<lambda>(vs, r'). (JArr vs, r')) (parse_elems n r))
          else if HasPrefix (b # r) (str ''null'') then Some (JNull, drop 4 (b # r))
          else if HasPrefix (b # r) (str ''true'') then Some (JBool True, drop 4 (b # r))
          else if HasPrefix (b # r) (str ''false'') then Some (JBool False, drop 5 (b # r))
          else if b = 45 \<or> 48 \<le> b \<and> b \<le> 57
          then Some (JNum (takeWhile num_char (b # r)), dropWhile num_char (b # r))
          else None)"
| "parse_elems 0 s = None"
| "parse_elems (Suc n) s =
     (case parse_value n s of
        None \<Rightarrow> None
      | Some (v, r) \<Rightarrow>
          (case skip_ws r of
             [] \<Rightarrow> None
           | c # r' \<Rightarrow>
               if c = 93 then Some ([v], r')
               else if c = 44 then map_option (\<lambda>(vs, r''). (v # vs, r'')) (parse_elems n r')
               else None))"
| "parse_fields 0 s = None"
| "parse_fields (Suc n) s =
     (case skip_ws s of
        [] \<Rightarrow> None
      | q # r0 \<Rightarrow>
          if q \<noteq> 34 then None
          else (case parse_str (length r0) r0 of
             None \<Rightarrow> None
           | Some (k, r1) \<Rightarrow>
               (case skip_ws r1 of
                  [] \<Rightarrow> None
                | c # r2 \<Rightarrow>
                    if c \<noteq> 58 then None
                    else (case parse_value n r2 of
                       None \<Rightarrow> None
                     | Some (v, r3) \<Rightarrow>
                         (case skip_ws r3 of
                            [] \<Rightarrow> None
                          | e # r4 \<Rightarrow>
                              if e = 125 then Some ([(k, v)], r4)
                              else if e = 44 then map_option (\<lambda>(fs, r5). ((k, v) # fs, r5)) (parse_fields n r4)
                              else None)))))"

definition json_decode :: "bytes \<Rightarrow> json option" where
  "json_decode s = map_option fst (parse_value (length s + 1) s)"

section \<open>Struct fields\<close>

definition fold_byte :: "byte \<Rightarrow> byte" where
  "fold_byte b = (if 65 \<le> b \<and> b \<le> 90 then b + 32 else b)"

definition json_field :: "(gostring \<times> json) list \<Rightarrow> gostring \<Rightarrow> json option" where
  "json_field fs name = map_of (rev (map (\<lambda>(k, v). (map fold_byte k, v)) fs)) (map fold_byte name)"

definition err_json :: goerr where "err_json = Err ''json: cannot unmarshal''"

definition field_int :: "(gostring \<times> json) list \<Rightarrow> gostring \<Rightarrow> int res" where
  "field_int fs name = (case json_field fs name of
     None \<Rightarrow> Inr 0 | Some JNull \<Rightarrow> Inr 0
   | Some (JNum t) \<Rightarrow> (case ParseInt t of (x, None) \<Rightarrow> Inr x | (_, Some e) \<Rightarrow> Inl err_json)
   | Some _ \<Rightarrow> Inl err_json)"

definition field_uint :: "(gostring \<times> json) list \<Rightarrow> gostring \<Rightarrow> nat res" where
  "field_uint fs name = (case json_field fs name of
     None \<Rightarrow> Inr 0 | Some JNull \<Rightarrow> Inr 0
   | Some (JNum t) \<Rightarrow> (case ParseUint t of (x, None) \<Rightarrow> Inr x | (_, Some e) \<Rightarrow> Inl err_json)
   | Some _ \<Rightarrow> Inl err_json)"

definition field_str :: "(gostring \<times> json) list \<Rightarrow> gostring \<Rightarrow> gostring res" where
  "field_str fs name = (case json_field fs name of
     None \<Rightarrow> Inr [] | Some JNull \<Rightarrow> Inr [] | Some (JStr s) \<Rightarrow> Inr s | Some _ \<Rightarrow> Inl err_json)"

fun json_strs :: "json list \<Rightarrow> gostring list res" where
  "json_strs [] = Inr []"
| "json_strs (v # vs) =
     (case v of
        JStr s \<Rightarrow> (case json_strs vs of Inl e \<Rightarrow> Inl e | Inr ss \<Rightarrow> Inr (s # ss))
      | JNull \<Rightarrow> (case json_strs vs of Inl e \<Rightarrow> Inl e | Inr ss \<Rightarrow> Inr ([] # ss))
      | _ \<Rightarrow> Inl err_json)"

definition field_strs :: "(gostring \<times> json) list \<Rightarrow> gostring \<Rightarrow> gostring list res" where
  "field_strs fs name = (case json_field fs name of
     None \<Rightarrow> Inr [] | Some JNull \<Rightarrow> Inr [] | Some (JArr vs) \<Rightarrow> json_strs vs | Some _ \<Rightarrow> Inl err_json)"

text \<open>The fields of a document that is an object.\<close>

definition json_object :: "bytes \<Rightarrow> (gostring \<times> json) list res" where
  "json_object b = (case json_decode b of
     Some (JObj fs) \<Rightarrow> Inr fs | Some JNull \<Rightarrow> Inr [] | _ \<Rightarrow> Inl err_json)"

section \<open>Printed values parse back\<close>

definition ascii :: "bytes \<Rightarrow> bool" where
  "ascii s \<longleftrightarrow> (\<forall>b \<in> set s. b < 0x80)"

text \<open>Number tokens that start like a number and hold only number characters.\<close>

definition num_token :: "gostring \<Rightarrow> bool" where
  "num_token t \<longleftrightarrow> t \<noteq> [] \<and> (hd t = 45 \<or> 48 \<le> hd t \<and> hd t \<le> 57) \<and> (\<forall>b \<in> set t. num_char b)"

fun json_ok :: "json \<Rightarrow> bool" where
  "json_ok JNull = True"
| "json_ok (JBool b) = True"
| "json_ok (JNum t) = num_token t"
| "json_ok (JStr s) = ascii s"
| "json_ok (JArr vs) = (\<forall>v \<in> set vs. json_ok v)"
| "json_ok (JObj fs) = (\<forall>f \<in> set fs. ascii (fst f) \<and> json_ok (snd f))"

fun jneed :: "json \<Rightarrow> nat" where
  "jneed (JArr vs) = Suc (sum_list (map (\<lambda>v. Suc (jneed v)) vs))"
| "jneed (JObj fs) = Suc (sum_list (map (\<lambda>f. Suc (jneed (snd f))) fs))"
| "jneed _ = 1"

definition stops :: "bytes \<Rightarrow> bool" where
  "stops r \<longleftrightarrow> r = [] \<or> \<not> num_char (hd r)"

lemma hex_val_lower: "n < 16 \<Longrightarrow> hex_val (hex_lower n) = Some n"
proof -
  assume "n < 16"
  then have "n \<in> set [0..<16]" by simp
  moreover have "list_all (\<lambda>n. hex_val (hex_lower n) = Some n) [0..<16]"
    by (simp add: upt_rec hex_val_def hex_lower_def)
  ultimately show ?thesis by (simp only: list_all_iff)
qed

lemma parse_esc_byte:
  assumes "b < 0x80"
  shows "parse_str (Suc n) (esc_byte b @ t) = map_option (\<lambda>(s, r). (b # s, r)) (parse_str n t)"
proof -
  have u: "unat b < 128" using assms by (simp add: word_less_nat_alt)
  have h: "hex4 (48 # 48 # hex_lower (unat b div 16) # hex_lower (unat b mod 16) # t) = Some (unat b, t)"
    using u hex_val_lower [of "unat b div 16"] hex_val_lower [of "unat b mod 16"] by (simp add: hex_val_def)
  have e: "unicode_escape (48 # 48 # hex_lower (unat b div 16) # hex_lower (unat b mod 16) # t) = Some ([b], t)"
    unfolding unicode_escape_def h using u by (simp add: utf8_encode_def)
  show ?thesis
    using assms e by (auto simp: esc_byte_def parse_escape_def not_less)
qed

lemma parse_str_esc:
  "ascii s \<Longrightarrow> length s < n \<Longrightarrow> parse_str n (json_esc_fuel (length s) s @ 34 # rest) = Some (s, rest)"
proof (induction s arbitrary: n)
  case Nil
  then show ?case by (cases n) auto
next
  case (Cons b s)
  then obtain m where n: "n = Suc m" "length s < m" by (cases n) auto
  with Cons show ?case by (simp add: ascii_def parse_esc_byte del: parse_str.simps)
qed

lemma length_esc: "ascii s \<Longrightarrow> length s \<le> length (json_esc_fuel (length s) s)"
proof (induction s)
  case (Cons b s)
  moreover have "1 \<le> length (esc_byte b)" by (simp add: esc_byte_def)
  ultimately show ?case by (simp add: ascii_def)
qed simp

lemma parse_quote:
  assumes "ascii s"
  shows "parse_str (length (json_esc_fuel (length s) s @ 34 # rest)) (json_esc_fuel (length s) s @ 34 # rest) = Some (s, rest)"
  using length_esc [OF assms] by (intro parse_str_esc assms) simp

lemma skip_ws_simps: "\<not> is_ws b \<Longrightarrow> skip_ws (b # r) = b # r"
  by (simp add: skip_ws_def)

lemma token_stop:
  assumes "num_token t" and "stops r"
  shows "takeWhile num_char (t @ r) = t" and "dropWhile num_char (t @ r) = r"
  using assms by (cases r; simp add: num_token_def stops_def takeWhile_append dropWhile_append)+

lemma print_head:
  assumes "json_ok v"
  shows "\<exists>c r. json_print v = c # r \<and> \<not> is_ws c \<and> c \<noteq> 93 \<and> c \<noteq> 125"
proof (cases v)
  case (JNum t)
  with assms have "t \<noteq> []" "hd t = 45 \<or> 48 \<le> hd t \<and> hd t \<le> 57" by (auto simp: num_token_def)
  with JNum show ?thesis by (cases t) (auto simp: is_ws_def)
qed (auto simp: str_def is_ws_def json_quote_def)

lemma parse_elems_print:
  assumes "\<And>v n rest. v \<in> set vs \<Longrightarrow> jneed v \<le> n \<Longrightarrow> stops rest \<Longrightarrow>
      parse_value n (json_print v @ rest) = Some (v, rest)"
    and "vs \<noteq> []" and "sum_list (map (\<lambda>v. Suc (jneed v)) vs) \<le> n"
  shows "parse_elems n (join_comma (map json_print vs) @ 93 # rest) = Some (vs, rest)"
  using assms
proof (induction vs arbitrary: n rest)
  case (Cons v vs)
  then obtain m where n: "n = Suc m" "jneed v + sum_list (map (\<lambda>v. Suc (jneed v)) vs) \<le> m" by (cases n) auto
  show ?case
  proof (cases vs)
    case Nil
    have "stops (93 # rest)" by (simp add: stops_def num_char_def)
    with Cons.prems(1) [of v m "93 # rest"] n Nil show ?thesis
      by (simp add: skip_ws_simps is_ws_def)
  next
    case (Cons w ws)
    have "stops (44 # join_comma (map json_print vs) @ 93 # rest)" by (simp add: stops_def num_char_def)
    with Cons.prems(1) [of v m] n
    have "parse_value m (json_print v @ 44 # join_comma (map json_print vs) @ 93 # rest) =
        Some (v, 44 # join_comma (map json_print vs) @ 93 # rest)" by simp
    moreover have "parse_elems m (join_comma (map json_print vs) @ 93 # rest) = Some (vs, rest)"
      using Cons.prems n Cons by (intro Cons.IH) auto
    ultimately show ?thesis using Cons n by (simp add: skip_ws_simps is_ws_def)
  qed
qed simp

lemma parse_fields_print:
  assumes "\<And>f n rest. f \<in> set fs \<Longrightarrow> jneed (snd f) \<le> n \<Longrightarrow> stops rest \<Longrightarrow>
      parse_value n (json_print (snd f) @ rest) = Some (snd f, rest)"
    and "\<forall>f \<in> set fs. ascii (fst f)" and "fs \<noteq> []" and "sum_list (map (\<lambda>f. Suc (jneed (snd f))) fs) \<le> n"
  shows "parse_fields n (join_comma (map (\<lambda>f. json_quote (fst f) @ 58 # json_print (snd f)) fs) @ 125 # rest) =
    Some (fs, rest)"
  using assms
proof (induction fs arbitrary: n rest)
  case (Cons f fs)
  obtain k v where f: "f = (k, v)" by (cases f)
  let ?p = "\<lambda>f. json_quote (fst f) @ 58 # json_print (snd f)"
  from Cons.prems obtain m where n: "n = Suc m" "jneed v + sum_list (map (\<lambda>f. Suc (jneed (snd f))) fs) \<le> m"
    by (cases n) (auto simp: f)
  have k: "ascii k" using Cons.prems(2) f by simp
  note q = parse_str_esc [OF k] length_esc [OF k]
  show ?case
  proof (cases fs)
    case Nil
    have "stops (125 # rest)" by (simp add: stops_def num_char_def)
    with Cons.prems(1) [of f m "125 # rest"] n Nil show ?thesis
      using q by (simp add: f skip_ws_simps is_ws_def json_quote_def)
  next
    case (Cons g gs)
    let ?t = "44 # join_comma (map ?p fs) @ 125 # rest"
    have "stops ?t" by (simp add: stops_def num_char_def)
    with Cons.prems(1) [of f m ?t] n have "parse_value m (json_print v @ ?t) = Some (v, ?t)" by (simp add: f)
    moreover have "parse_fields m (join_comma (map ?p fs) @ 125 # rest) = Some (fs, rest)"
      using Cons.prems n Cons by (intro Cons.IH) auto
    ultimately show ?thesis using Cons n q by (simp add: f skip_ws_simps is_ws_def json_quote_def)
  qed
qed simp

lemma parse_print:
  "json_ok v \<Longrightarrow> jneed v \<le> n \<Longrightarrow> stops rest \<Longrightarrow> parse_value n (json_print v @ rest) = Some (v, rest)"
proof (induction v arbitrary: n rest)
  case (JNum t)
  then obtain m where n: "n = Suc m" by (cases n) auto
  from JNum have t: "num_token t" by simp
  then obtain b r where b: "t = b # r" "b = 45 \<or> 48 \<le> b \<and> b \<le> 57" by (cases t) (auto simp: num_token_def)
  then have "b \<noteq> 34 \<and> b \<noteq> 123 \<and> b \<noteq> 91 \<and> b \<noteq> 110 \<and> b \<noteq> 116 \<and> b \<noteq> 102 \<and> \<not> is_ws b" by (auto simp: is_ws_def)
  with b token_stop [OF t JNum(3)] n show ?case
    by (simp add: skip_ws_simps HasPrefix_def str_def)
next
  case (JStr s)
  then obtain m where n: "n = Suc m" by (cases n) auto
  from JStr have s: "ascii s" by simp
  with n show ?case using parse_str_esc [OF s] length_esc [OF s]
    by (simp add: json_quote_def skip_ws_simps is_ws_def)
next
  case (JArr vs)
  then obtain m where n: "n = Suc m" by (cases n) auto
  show ?case
  proof (cases "vs = []")
    case False
    then obtain v ws where vs: "vs = v # ws" by (cases vs) auto
    obtain c r where c: "join_comma (map json_print vs) = c # r" "\<not> is_ws c" "c \<noteq> 93"
      using print_head [of v] JArr.prems(1) by (cases ws) (auto simp: vs)
    have "parse_elems m (join_comma (map json_print vs) @ 93 # rest) = Some (vs, rest)"
      using JArr n False by (intro parse_elems_print) auto
    with c n show ?thesis by (simp add: skip_ws_simps is_ws_def)
  qed (use n in \<open>simp add: skip_ws_simps is_ws_def\<close>)
next
  case (JObj fs)
  then obtain m where n: "n = Suc m" by (cases n) auto
  show ?case
  proof (cases "fs = []")
    case False
    let ?p = "\<lambda>f. json_quote (fst f) @ 58 # json_print (snd f)"
    obtain c r where c: "join_comma (map ?p fs) = c # r" "\<not> is_ws c" "c \<noteq> 125"
    proof -
      obtain f gs where "fs = f # gs" using False by (cases fs) auto
      then show thesis using that by (cases gs) (auto simp: json_quote_def is_ws_def)
    qed
    have "parse_fields m (join_comma (map ?p fs) @ 125 # rest) = Some (fs, rest)"
      using JObj n False by (intro parse_fields_print) (auto simp: snds.simps)
    with c n show ?thesis by (simp add: skip_ws_simps is_ws_def)
  qed (use n in \<open>simp add: skip_ws_simps is_ws_def\<close>)
qed (auto simp: Suc_le_eq gr0_conv_Suc skip_ws_simps is_ws_def HasPrefix_def str_def)

lemma length_join: "xs \<noteq> [] \<Longrightarrow> Suc (length (join_comma xs)) = sum_list (map (\<lambda>x. Suc (length x)) xs)"
  by (induction xs rule: join_comma.induct) auto

lemma jneed_length: "json_ok v \<Longrightarrow> jneed v \<le> length (json_print v)"
proof (induction v)
  case (JNum t)
  then show ?case by (cases t) (auto simp: num_token_def)
next
  case (JArr vs)
  have "sum_list (map (\<lambda>v. Suc (jneed v)) vs) \<le> sum_list (map (\<lambda>x. Suc (length x)) (map json_print vs))"
    unfolding map_map using JArr by (intro sum_list_mono) auto
  then show ?case using length_join [of "map json_print vs"] by (cases vs) auto
next
  case (JObj fs)
  let ?p = "\<lambda>f. json_quote (fst f) @ 58 # json_print (snd f)"
  have "sum_list (map (\<lambda>f. Suc (jneed (snd f))) fs) \<le> sum_list (map (\<lambda>x. Suc (length x)) (map ?p fs))"
    unfolding map_map using JObj by (intro sum_list_mono) (fastforce simp: snds.simps)
  then show ?case using length_join [of "map ?p fs"] by (cases fs) auto
qed (auto simp: str_def json_quote_def)

lemma json_decode_print: "json_ok v \<Longrightarrow> json_decode (json_print v) = Some v"
  using parse_print [of v "length (json_print v) + 1" "[]"] jneed_length [of v]
  by (simp add: json_decode_def stops_def)

lemma json_ok_int [simp]: "json_ok (json_int x)"
proof -
  let ?t = "fmt_0d 0 x"
  have c: "num_char b" if "b \<in> set ?t" for b
    using fmt_0d_chars [OF that] by (auto simp: num_char_def)
  have "hd ?t = 45 \<or> 48 \<le> hd ?t \<and> hd ?t \<le> 57" using fmt_0d_chars [OF hd_in_set] by auto
  with c show ?thesis by (simp add: json_int_def num_token_def)
qed

section \<open>Looking fields up by literal names\<close>

named_theorems json_simps \<open>decoding a struct whose field names are lower-case literals\<close>

definition lower_name :: "string \<Rightarrow> bool" where
  "lower_name s \<longleftrightarrow> (\<forall>c \<in> set s. (of_char c :: nat) < 65 \<or> 90 < (of_char c :: nat))"

lemma fold_lower: "lower_name s \<Longrightarrow> map fold_byte (str s) = str s"
proof (induction s)
  case (Cons c s)
  then have "fold_byte (of_char c) = of_char c"
    by (auto simp: fold_byte_def lower_name_def word_le_nat_alt unat_of_char)
  with Cons show ?case by (simp add: str_def lower_name_def)
qed (simp add: str_def)

lemma json_field_Nil [json_simps]: "json_field [] name = None"
  by (simp add: json_field_def)

lemma json_field_Cons [json_simps]:
  "lower_name n \<Longrightarrow> lower_name k \<Longrightarrow> json_field ((str k, v) # fs) (str n) =
     (case json_field fs (str n) of Some w \<Rightarrow> Some w | None \<Rightarrow> if k = n then Some v else None)"
  by (simp add: json_field_def map_add_def fold_lower str_inject split: option.split)

lemma json_field_append [json_simps]:
  "json_field (fs @ gs) name = (case json_field gs name of Some w \<Rightarrow> Some w | None \<Rightarrow> json_field fs name)"
  by (simp add: json_field_def map_add_def split: option.split)

lemma json_field_omit [json_simps]:
  "lower_name n \<Longrightarrow> lower_name k \<Longrightarrow>
   json_field (if c then [] else [(str k, v)]) (str n) = (if k = n \<and> \<not> c then Some v else None)"
  by (simp add: json_field_Cons json_field_Nil)

lemmas field_defs [json_simps] = field_str_def field_uint_def field_int_def field_strs_def json_int_def lower_name_def

end
