(* ===== verification/Election.thy ===== *)
theory Election
  imports Object_Store Json
begin

text \<open>
  Leader election through one object, \<open>src/internal/election/election.go\<close>, and the leader's periodic check
  of its lock, \<open>fencedCheck\<close> in \<open>src/leader.go\<close>.

  Operations take the store, the node's \<open>Lock\<close>, the clock reading and the store's state. An acquisition
  reads the lock and then writes it conditionally; the part behind the read is a definition of its own
  (\<open>tryAcquire_write\<close>, \<open>takeOver_write\<close>), so that the step relation \<open>lock_run\<close> can interleave reads and
  writes of any number of nodes. Without conditional writes the source waits before it reads back; what the
  other nodes do meanwhile is the argument \<open>other\<close>.

  Lemmas: the stored record decodes to itself; winners' terms only grow, so no term has two leaders.
\<close>

section \<open>The lock record\<close>

definition LockKey :: gostring where "LockKey = str ''leader-lock''"

record LockRecord =
  lr_NodeID :: gostring
  lr_Term :: nat
  lr_LeaderAddr :: gostring
  lr_LastSeenNano :: int
  lr_CommittedRev :: int

definition marshalLock :: "LockRecord \<Rightarrow> bytes" where
  "marshalLock r = json_print (JObj
     [(str ''node_id'', JStr (lr_NodeID r)), (str ''term'', JNum (fmt_0u 0 (lr_Term r))),
      (str ''leader_addr'', JStr (lr_LeaderAddr r)), (str ''last_seen_nano'', json_int (lr_LastSeenNano r)),
      (str ''committed_rev'', json_int (lr_CommittedRev r))])"

definition decodeLock :: "bytes \<Rightarrow> LockRecord res" where
  "decodeLock b =
     (case json_object b of
        Inl e \<Rightarrow> Inl e
      | Inr fs \<Rightarrow>
          (case (field_str fs (str ''node_id''), field_uint fs (str ''term''), field_str fs (str ''leader_addr''),
                 field_int fs (str ''last_seen_nano''), field_int fs (str ''committed_rev'')) of
             (Inr n, Inr t, Inr a, Inr l, Inr c) \<Rightarrow>
               Inr \<lparr>lr_NodeID = n, lr_Term = t, lr_LeaderAddr = a, lr_LastSeenNano = l, lr_CommittedRev = c\<rparr>
           | _ \<Rightarrow> Inl err_json))"

record lockWithETag =
  lw_rec :: "LockRecord option"
  lw_etag :: gostring

record lock =
  lk_nodeID :: gostring
  lk_advertiseAddr :: gostring
  lk_conditional :: bool

section \<open>Operations\<close>

definition readWithETag :: "('o, 'm) cstore_scheme \<Rightarrow> lock \<Rightarrow> 'o \<Rightarrow> lockWithETag res \<times> 'o" where
  "readWithETag S l ob =
     (if lk_conditional l then
        (case st_GetETag S LockKey ob of
           (Inl e, ob) \<Rightarrow> (if e = ErrNotFound then Inr \<lparr>lw_rec = None, lw_etag = []\<rparr> else Inl e, ob)
         | (Inr (body, etag), ob) \<Rightarrow>
             (case decodeLock body of
                Inl e \<Rightarrow> (Inl e, ob)
              | Inr rec \<Rightarrow> (Inr \<lparr>lw_rec = Some rec, lw_etag = etag\<rparr>, ob)))
      else
        (case st_Get S LockKey ob of
           (Inl e, ob) \<Rightarrow> (if e = ErrNotFound then Inr \<lparr>lw_rec = None, lw_etag = []\<rparr> else Inl e, ob)
         | (Inr body, ob) \<Rightarrow>
             (case decodeLock body of
                Inl e \<Rightarrow> (Inl e, ob)
              | Inr rec \<Rightarrow> (Inr \<lparr>lw_rec = Some rec, lw_etag = []\<rparr>, ob))))"

definition lock_Read :: "('o, 'm) cstore_scheme \<Rightarrow> lock \<Rightarrow> 'o \<Rightarrow> LockRecord option res \<times> 'o" where
  "lock_Read S l ob = (case readWithETag S l ob of (Inl e, ob) \<Rightarrow> (Inl e, ob) | (Inr cur, ob) \<Rightarrow> (Inr (lw_rec cur), ob))"

definition ReadETag :: "('o, 'm) cstore_scheme \<Rightarrow> lock \<Rightarrow> 'o \<Rightarrow> (LockRecord option \<times> gostring) res \<times> 'o" where
  "ReadETag S l ob =
     (case readWithETag S l ob of (Inl e, ob) \<Rightarrow> (Inl e, ob) | (Inr cur, ob) \<Rightarrow> (Inr (lw_rec cur, lw_etag cur), ob))"

definition new_record :: "lock \<Rightarrow> int \<Rightarrow> nat \<Rightarrow> gostring \<Rightarrow> int \<Rightarrow> LockRecord" where
  "new_record l now term addr committedRev =
     \<lparr>lr_NodeID = lk_nodeID l, lr_Term = term, lr_LeaderAddr = addr, lr_LastSeenNano = now, lr_CommittedRev = committedRev\<rparr>"

definition writeAtomic :: "('o, 'm) cstore_scheme \<Rightarrow> ('o \<Rightarrow> 'o) \<Rightarrow> lock \<Rightarrow> int \<Rightarrow> nat \<Rightarrow> int \<Rightarrow> lockWithETag \<Rightarrow>
    'o \<Rightarrow> (LockRecord option \<times> bool) res \<times> 'o" where
  "writeAtomic S other l now newTerm committedRev observed ob =
     (let rec = new_record l now newTerm (lk_advertiseAddr l) committedRev;
          b = marshalLock rec
      in if lk_conditional l then
           (case (if lw_rec observed = None then st_PutIfAbsent S LockKey b ob
                  else st_PutIfMatch S LockKey b (lw_etag observed) ob) of
              (None, ob) \<Rightarrow> (Inr (Some rec, True), ob)
            | (Some putErr, ob) \<Rightarrow>
                if putErr = ErrPreconditionFailed then
                  (case lock_Read S l ob of
                     (Inl e, ob) \<Rightarrow> (Inl e, ob)
                   | (Inr winner, ob) \<Rightarrow> (Inr (winner, False), ob))
                else (Inl putErr, ob))
         else
           (case st_Put S LockKey b ob of
              (Some e, ob) \<Rightarrow> (Inl e, ob)
            | (None, ob) \<Rightarrow>
                (case lock_Read S l (other ob) of
                   (Inl e, ob) \<Rightarrow> (Inl e, ob)
                 | (Inr None, ob) \<Rightarrow> (Inr (None, False), ob)
                 | (Inr (Some v), ob) \<Rightarrow>
                     if lr_NodeID v \<noteq> lk_nodeID l \<or> lr_Term v \<noteq> newTerm then (Inr (Some v, False), ob)
                     else (Inr (Some rec, True), ob))))"

definition next_term :: "nat \<Rightarrow> lockWithETag \<Rightarrow> nat" where
  "next_term floorTerm cur =
     (let newTerm = (floorTerm + 1) mod 2 ^ 64 in
      case lw_rec cur of
        None \<Rightarrow> newTerm
      | Some r \<Rightarrow> if lr_Term r \<ge> newTerm then (lr_Term r + 1) mod 2 ^ 64 else newTerm)"

text \<open>\<open>TryAcquire\<close> after its read, and the whole of it.\<close>

definition tryAcquire_write :: "('o, 'm) cstore_scheme \<Rightarrow> ('o \<Rightarrow> 'o) \<Rightarrow> lock \<Rightarrow> int \<Rightarrow> nat \<Rightarrow> int \<Rightarrow> lockWithETag \<Rightarrow>
    'o \<Rightarrow> (LockRecord option \<times> bool) res \<times> 'o" where
  "tryAcquire_write S other l now floorTerm committedRev cur ob =
     (if (case lw_rec cur of None \<Rightarrow> False | Some r \<Rightarrow> lr_NodeID r \<noteq> lk_nodeID l)
      then (Inr (lw_rec cur, False), ob)
      else writeAtomic S other l now (next_term floorTerm cur) committedRev cur ob)"

definition TryAcquire :: "('o, 'm) cstore_scheme \<Rightarrow> ('o \<Rightarrow> 'o) \<Rightarrow> lock \<Rightarrow> int \<Rightarrow> nat \<Rightarrow> int \<Rightarrow>
    'o \<Rightarrow> (LockRecord option \<times> bool) res \<times> 'o" where
  "TryAcquire S other l now floorTerm committedRev ob =
     (case readWithETag S l ob of
        (Inl e, ob) \<Rightarrow> (Inl e, ob)
      | (Inr cur, ob) \<Rightarrow> tryAcquire_write S other l now floorTerm committedRev cur ob)"

text \<open>\<open>TakeOver\<close> after its read, and the whole of it.\<close>

definition takeOver_write :: "('o, 'm) cstore_scheme \<Rightarrow> ('o \<Rightarrow> 'o) \<Rightarrow> lock \<Rightarrow> int \<Rightarrow> nat \<Rightarrow> int \<Rightarrow> lockWithETag \<Rightarrow>
    'o \<Rightarrow> (LockRecord option \<times> bool) res \<times> 'o" where
  "takeOver_write S other l now floorTerm committedRev cur ob =
     (if (case lw_rec cur of None \<Rightarrow> False
          | Some r \<Rightarrow> lr_NodeID r \<noteq> lk_nodeID l \<and> (lr_Term r > floorTerm \<or> lr_CommittedRev r > committedRev))
      then (Inr (lw_rec cur, False), ob)
      else writeAtomic S other l now (next_term floorTerm cur) committedRev cur ob)"

definition TakeOver :: "('o, 'm) cstore_scheme \<Rightarrow> ('o \<Rightarrow> 'o) \<Rightarrow> lock \<Rightarrow> int \<Rightarrow> nat \<Rightarrow> int \<Rightarrow>
    'o \<Rightarrow> (LockRecord option \<times> bool) res \<times> 'o" where
  "TakeOver S other l now floorTerm committedRev ob =
     (case readWithETag S l ob of
        (Inl e, ob) \<Rightarrow> (Inl e, ob)
      | (Inr cur, ob) \<Rightarrow> takeOver_write S other l now floorTerm committedRev cur ob)"

definition lock_write :: "('o, 'm) cstore_scheme \<Rightarrow> LockRecord \<Rightarrow> 'o \<Rightarrow> goerr option \<times> 'o" where
  "lock_write S rec ob = st_Put S LockKey (marshalLock rec) ob"

definition Touch :: "('o, 'm) cstore_scheme \<Rightarrow> lock \<Rightarrow> int \<Rightarrow> nat \<Rightarrow> gostring \<Rightarrow> int \<Rightarrow> 'o \<Rightarrow> goerr option \<times> 'o" where
  "Touch S l now term addr committedRev ob = lock_write S (new_record l now term addr committedRev) ob"

definition TouchIfMatch :: "('o, 'm) cstore_scheme \<Rightarrow> lock \<Rightarrow> int \<Rightarrow> nat \<Rightarrow> gostring \<Rightarrow> gostring \<Rightarrow> int \<Rightarrow> 'o \<Rightarrow>
    goerr option \<times> 'o" where
  "TouchIfMatch S l now term addr etag committedRev ob =
     (if \<not> lk_conditional l \<or> etag = [] then Touch S l now term addr committedRev ob
      else st_PutIfMatch S LockKey (marshalLock (new_record l now term addr committedRev)) etag ob)"

text \<open>The leader's check: keep leading or step down. \<open>touch\<close> already includes that the peer server runs.\<close>

definition fencedCheck :: "('o, 'm) cstore_scheme \<Rightarrow> lock \<Rightarrow> int \<Rightarrow> bool \<Rightarrow> bool \<Rightarrow> nat \<Rightarrow> int \<Rightarrow> 'o \<Rightarrow> bool \<times> 'o" where
  "fencedCheck S l now closed touch term committedRev ob =
     (if closed then (False, ob)
      else case ReadETag S l ob of
          (Inl e, ob) \<Rightarrow> (True, ob)
        | (Inr (None, etag), ob) \<Rightarrow> (False, ob)
        | (Inr (Some rec, etag), ob) \<Rightarrow>
            if lr_Term rec \<noteq> term \<or> lr_NodeID rec \<noteq> lk_nodeID l then (False, ob)
            else if touch then
              (case TouchIfMatch S l now term (lk_advertiseAddr l) etag committedRev ob of
                 (r, ob) \<Rightarrow> (r \<noteq> Some ErrPreconditionFailed, ob))
            else (True, ob))"

section \<open>Interleaved elections\<close>

text \<open>
  The store, what each node has read, and the elections won so far. A node reads the lock, and later tries to
  acquire it or, when it read its own record, refreshes it; the writes are conditional. Two lock contents that
  meet in the run have different tags (the guards on writes), and terms stay below the 64-bit bound.
\<close>

record 'o lock_state =
  ls_ob :: 'o
  ls_obs :: "gostring \<Rightarrow> lockWithETag option"
  ls_wins :: "(gostring \<times> nat) list"

definition current_lock :: "('o \<Rightarrow> gostring \<rightharpoonup> bytes) \<Rightarrow> 'o \<Rightarrow> LockRecord option" where
  "current_lock objs ob =
     (case objs ob LockKey of None \<Rightarrow> None | Some b \<Rightarrow> (case decodeLock b of Inl _ \<Rightarrow> None | Inr r \<Rightarrow> Some r))"

definition tag_faithful :: "('o \<Rightarrow> gostring \<rightharpoonup> bytes) \<Rightarrow> ('o \<Rightarrow> gostring \<Rightarrow> gostring) \<Rightarrow> 'o \<Rightarrow> lockWithETag \<Rightarrow> bool" where
  "tag_faithful objs etag ob cur \<longleftrightarrow>
     (lw_rec cur \<noteq> None \<longrightarrow> etag ob LockKey = lw_etag cur \<longrightarrow> current_lock objs ob = lw_rec cur)"

definition lock_ok :: "lock \<Rightarrow> int \<Rightarrow> int \<Rightarrow> bool" where
  "lock_ok l now crev \<longleftrightarrow> lk_conditional l \<and> ascii (lk_nodeID l) \<and> ascii (lk_advertiseAddr l) \<and> is_i64 now \<and> is_i64 crev"

inductive lock_run :: "('o, 'm) cstore_scheme \<Rightarrow> ('o \<Rightarrow> gostring \<rightharpoonup> bytes) \<Rightarrow> ('o \<Rightarrow> gostring \<Rightarrow> gostring) \<Rightarrow>
    'o lock_state \<Rightarrow> 'o lock_state \<Rightarrow> bool" for S objs etag where
  start: "lock_run S objs etag s s"
| read: "lock_run S objs etag s0 s \<Longrightarrow> lk_conditional l \<Longrightarrow>
    readWithETag S l (ls_ob s) = (Inr cur, ob') \<Longrightarrow>
    lock_run S objs etag s0 (s\<lparr>ls_ob := ob', ls_obs := (ls_obs s)(lk_nodeID l \<mapsto> cur)\<rparr>)"
| acquire: "lock_run S objs etag s0 s \<Longrightarrow> lock_ok l now crev \<Longrightarrow>
    ls_obs s (lk_nodeID l) = Some cur \<Longrightarrow> tag_faithful objs etag (ls_ob s) cur \<Longrightarrow>
    next_term floorTerm cur < 2 ^ 64 - 1 \<Longrightarrow> floorTerm < 2 ^ 64 - 1 \<Longrightarrow> \<forall>r. lw_rec cur = Some r \<longrightarrow> lr_Term r < 2 ^ 64 - 1 \<Longrightarrow>
    tryAcquire_write S other l now floorTerm crev cur (ls_ob s) = (Inr (Some rec, won), ob') \<or>
    takeOver_write S other l now floorTerm crev cur (ls_ob s) = (Inr (Some rec, won), ob') \<Longrightarrow>
    lock_run S objs etag s0 (s\<lparr>ls_ob := ob', ls_wins := ls_wins s @ (if won then [(lk_nodeID l, lr_Term rec)] else [])\<rparr>)"
| touch: "lock_run S objs etag s0 s \<Longrightarrow> lock_ok l now crev \<Longrightarrow>
    ls_obs s (lk_nodeID l) = Some cur \<Longrightarrow> lw_rec cur = Some r \<Longrightarrow> lr_NodeID r = lk_nodeID l \<Longrightarrow> lw_etag cur \<noteq> [] \<Longrightarrow>
    tag_faithful objs etag (ls_ob s) cur \<Longrightarrow> lr_Term r < 2 ^ 64 \<Longrightarrow>
    TouchIfMatch S l now (lr_Term r) (lk_advertiseAddr l) (lw_etag cur) crev (ls_ob s) = (e, ob') \<Longrightarrow>
    e = None \<or> e = Some ErrPreconditionFailed \<Longrightarrow>
    lock_run S objs etag s0 (s\<lparr>ls_ob := ob'\<rparr>)"

section \<open>The record round-trips\<close>

definition rec_ok :: "LockRecord \<Rightarrow> bool" where
  "rec_ok r \<longleftrightarrow> ascii (lr_NodeID r) \<and> ascii (lr_LeaderAddr r) \<and> lr_Term r < 2 ^ 64 \<and>
     is_i64 (lr_LastSeenNano r) \<and> is_i64 (lr_CommittedRev r)"

lemma num_token_0u: "num_token (fmt_0u 0 n)"
  using json_ok_int [of "int n"] by (simp add: json_int_def fmt_0d_def)

lemma ascii_str [simp]: "ascii (str ''node_id'')" "ascii (str ''term'')" "ascii (str ''leader_addr'')"
  "ascii (str ''last_seen_nano'')" "ascii (str ''committed_rev'')"
  by (simp_all add: ascii_def str_def)

lemma decode_marshal_lock: "rec_ok r \<Longrightarrow> decodeLock (marshalLock r) = Inr r"
proof -
  assume r: "rec_ok r"
  let ?fs = "[(str ''node_id'', JStr (lr_NodeID r)), (str ''term'', JNum (fmt_0u 0 (lr_Term r))),
      (str ''leader_addr'', JStr (lr_LeaderAddr r)), (str ''last_seen_nano'', json_int (lr_LastSeenNano r)),
      (str ''committed_rev'', json_int (lr_CommittedRev r))]"
  have "json_ok (JObj ?fs)" using r num_token_0u json_ok_int by (simp add: rec_ok_def)
  from json_decode_print [OF this] have o: "json_object (marshalLock r) = Inr ?fs"
    by (simp add: json_object_def marshalLock_def)
  have f: "field_str ?fs (str ''node_id'') = Inr (lr_NodeID r)" "field_uint ?fs (str ''term'') = Inr (lr_Term r)"
    "field_str ?fs (str ''leader_addr'') = Inr (lr_LeaderAddr r)"
    "field_int ?fs (str ''last_seen_nano'') = Inr (lr_LastSeenNano r)"
    "field_int ?fs (str ''committed_rev'') = Inr (lr_CommittedRev r)"
    using r by (simp_all add: json_simps rec_ok_def)
  show ?thesis by (simp add: decodeLock_def o f)
qed

section \<open>Winning\<close>

lemma next_term_less:
  assumes "floorTerm < 2 ^ 64 - 1" and "\<forall>r. lw_rec cur = Some r \<longrightarrow> lr_Term r < 2 ^ 64 - 1"
  shows "floorTerm < next_term floorTerm cur \<and> (\<forall>r. lw_rec cur = Some r \<longrightarrow> lr_Term r < next_term floorTerm cur) \<and>
    next_term floorTerm cur < 2 ^ 64"
  using assms by (auto simp: next_term_def Let_def split: option.split)

lemma sorted_wrt_last: "sorted_wrt (<) xs \<Longrightarrow> x \<in> set xs \<Longrightarrow> x \<le> last (xs :: nat list)"
  by (cases xs rule: rev_cases) (auto simp: sorted_wrt_append)

context conditional_store
begin

lemma readWithETag_ok:
  assumes "readWithETag S l ob = (Inr cur, ob')" and "lk_conditional l"
  shows "abs ob' = abs ob" and "etag ob' = etag ob" and "lw_rec cur = current_lock abs ob"
    and "lw_rec cur \<noteq> None \<Longrightarrow> lw_etag cur = etag ob LockKey"
proof -
  obtain r ob1 where g: "st_GetETag S LockKey ob = (r, ob1)" by (cases "st_GetETag S LockKey ob")
  have fr: "abs ob1 = abs ob" "etag ob1 = etag ob" using GetETag_frame [OF g] by auto
  show "abs ob' = abs ob" "etag ob' = etag ob"
    using assms g fr by (auto simp: readWithETag_def split: sum.splits prod.splits if_splits)
  show "lw_rec cur = current_lock abs ob"
    using assms g GetETag_ok [of LockKey ob] GetETag_missing [of LockKey ob]
    by (fastforce simp: readWithETag_def current_lock_def split: sum.splits prod.splits if_splits)
  show "lw_etag cur = etag ob LockKey" if "lw_rec cur \<noteq> None"
    using assms g GetETag_ok [of LockKey ob] that
    by (fastforce simp: readWithETag_def split: sum.splits prod.splits if_splits)
qed

lemma writeAtomic_won:
  assumes "writeAtomic S other l now t crev cur ob = (Inr (Some rec, True), ob')" and "lock_ok l now crev" and "t < 2 ^ 64"
    and "tag_faithful abs etag ob cur"
  shows "lr_Term rec = t \<and> lr_NodeID rec = lk_nodeID l \<and> current_lock abs ob' = Some rec \<and>
    (case lw_rec cur of None \<Rightarrow> abs ob LockKey = None | Some r \<Rightarrow> current_lock abs ob = Some r)"
proof -
  let ?rec = "new_record l now t (lk_advertiseAddr l) crev"
  let ?b = "marshalLock ?rec"
  let ?put = "if lw_rec cur = None then st_PutIfAbsent S LockKey ?b ob else st_PutIfMatch S LockKey ?b (lw_etag cur) ob"
  have c: "lk_conditional l" using assms(2) by (simp add: lock_ok_def)
  have "rec_ok ?rec" using assms(2,3) by (simp add: rec_ok_def new_record_def lock_ok_def)
  note d = decode_marshal_lock [OF this]
  obtain e ob1 where p: "?put = (e, ob1)" by (cases ?put)
  have w: "e = None" "rec = ?rec" "ob' = ob1"
    using assms(1) c p by (auto simp: writeAtomic_def Let_def split: option.splits if_splits sum.splits prod.splits)
  show ?thesis
  proof (cases "lw_rec cur")
    case None
    with p w have "st_PutIfAbsent S LockKey ?b ob = (None, ob')" by simp
    from PutIfAbsent_ok [OF this] None d w show ?thesis by (simp add: current_lock_def new_record_def)
  next
    case (Some r)
    with p w have "st_PutIfMatch S LockKey ?b (lw_etag cur) ob = (None, ob')" by simp
    from PutIfMatch_ok [OF this] Some d w assms(4) show ?thesis
      by (simp add: current_lock_def new_record_def tag_faithful_def)
  qed
qed

lemma writeAtomic_lost:
  assumes "writeAtomic S other l now t crev cur ob = (Inr (w, False), ob')" and "lk_conditional l"
  shows "abs ob' = abs ob"
proof -
  let ?b = "marshalLock (new_record l now t (lk_advertiseAddr l) crev)"
  let ?put = "if lw_rec cur = None then st_PutIfAbsent S LockKey ?b ob else st_PutIfMatch S LockKey ?b (lw_etag cur) ob"
  obtain e ob1 where p: "?put = (e, ob1)" by (cases ?put)
  have e: "e = Some ErrPreconditionFailed" and r: "lock_Read S l ob1 = (Inr w, ob')"
    using assms p by (auto simp: writeAtomic_def Let_def split: option.splits if_splits sum.splits prod.splits)
  have "abs ob1 = abs ob"
    using p e PutIfAbsent_failed [of LockKey ?b ob ob1] PutIfMatch_failed [of LockKey ?b _ ob ob1]
    by (auto split: if_splits)
  moreover from r obtain cur' where "readWithETag S l ob1 = (Inr cur', ob')"
    by (auto simp: lock_Read_def split: sum.splits prod.splits)
  ultimately show ?thesis using readWithETag_ok [OF _ assms(2)] by simp
qed

text \<open>Once a lock exists it always decodes and its term never falls below the last winner's; winners' terms increase.\<close>

definition run_inv :: "'o lock_state \<Rightarrow> bool" where
  "run_inv s \<longleftrightarrow> sorted_wrt (<) (map snd (ls_wins s)) \<and>
     (ls_wins s \<noteq> [] \<longrightarrow> (\<exists>r. current_lock abs (ls_ob s) = Some r \<and> snd (last (ls_wins s)) \<le> lr_Term r))"

lemma run_inv_frame:
  "run_inv s \<Longrightarrow> abs ob' = abs (ls_ob s) \<Longrightarrow> run_inv (s\<lparr>ls_ob := ob'\<rparr>)"
  by (simp add: run_inv_def current_lock_def)

lemma run_inv_win:
  assumes "run_inv s" and "current_lock abs ob' = Some rec" and "\<forall>r. current_lock abs (ls_ob s) = Some r \<longrightarrow> lr_Term r < lr_Term rec"
  shows "run_inv (s\<lparr>ls_ob := ob', ls_wins := ls_wins s @ [(n, lr_Term rec)]\<rparr>)"
proof -
  have "\<forall>t \<in> set (map snd (ls_wins s)). t < lr_Term rec"
  proof (cases "ls_wins s = []")
    case False
    with assms(1) obtain r where r: "current_lock abs (ls_ob s) = Some r" "snd (last (ls_wins s)) \<le> lr_Term r"
      and s: "sorted_wrt (<) (map snd (ls_wins s))" by (auto simp: run_inv_def)
    have "t \<le> snd (last (ls_wins s))" if "t \<in> set (map snd (ls_wins s))" for t
      using sorted_wrt_last [OF s that] False by (simp add: last_map)
    with r assms(3) show ?thesis by fastforce
  qed simp
  with assms show ?thesis by (auto simp: run_inv_def sorted_wrt_append)
qed

lemma acquire_inv:
  assumes "run_inv s" and "lock_ok l now crev" and "tag_faithful abs etag (ls_ob s) cur"
    and "floorTerm < 2 ^ 64 - 1" "\<forall>r. lw_rec cur = Some r \<longrightarrow> lr_Term r < 2 ^ 64 - 1"
    and "writeAtomic S other l now (next_term floorTerm cur) crev cur (ls_ob s) = (Inr (Some rec, won), ob')"
  shows "run_inv (s\<lparr>ls_ob := ob', ls_wins := ls_wins s @ (if won then [(lk_nodeID l, lr_Term rec)] else [])\<rparr>)"
proof (cases won)
  case True
  note N = next_term_less [OF assms(4,5)]
  then have "next_term floorTerm cur < 2 ^ 64" by simp
  moreover have "writeAtomic S other l now (next_term floorTerm cur) crev cur (ls_ob s) = (Inr (Some rec, True), ob')"
    using assms(6) True by simp
  ultimately have W: "lr_Term rec = next_term floorTerm cur \<and> lr_NodeID rec = lk_nodeID l \<and> current_lock abs ob' = Some rec \<and>
    (case lw_rec cur of None \<Rightarrow> abs (ls_ob s) LockKey = None | Some r \<Rightarrow> current_lock abs (ls_ob s) = Some r)"
    using assms(2,3) by (intro writeAtomic_won)
  have "\<forall>r. current_lock abs (ls_ob s) = Some r \<longrightarrow> lr_Term r < lr_Term rec"
    using W N by (auto simp: current_lock_def split: option.splits)
  from run_inv_win [OF assms(1) _ this] W True show ?thesis by simp
next
  case False
  then have "abs ob' = abs (ls_ob s)"
    using writeAtomic_lost [of other l now "next_term floorTerm cur" crev cur "ls_ob s" "Some rec" ob'] assms(2,6)
    by (simp add: lock_ok_def)
  with False assms(1) run_inv_frame show ?thesis by simp
qed

lemma lock_run_inv:
  assumes "lock_run S abs etag s0 s" and "ls_wins s0 = []"
  shows "run_inv s"
  using assms
proof (induction rule: lock_run.induct)
  case (start s)
  then show ?case by (simp add: run_inv_def)
next
  case (read s0 s l cur ob')
  then show ?case using readWithETag_ok(1) [of l "ls_ob s" cur ob'] by (simp add: run_inv_def current_lock_def)
next
  case (acquire s0 s l now crev cur floorTerm other rec won ob')
  show ?case
  proof (cases "ob' = ls_ob s \<and> \<not> won")
    case True
    with acquire show ?thesis using run_inv_frame by simp
  next
    case False
    with acquire.hyps have "writeAtomic S other l now (next_term floorTerm cur) crev cur (ls_ob s) = (Inr (Some rec, won), ob')"
      by (auto simp: tryAcquire_write_def takeOver_write_def split: if_splits)
    with acquire show ?thesis by (intro acquire_inv) auto
  qed
next
  case (touch s0 s l now crev cur r e ob')
  let ?rec = "new_record l now (lr_Term r) (lk_advertiseAddr l) crev"
  have p: "st_PutIfMatch S LockKey (marshalLock ?rec) (lw_etag cur) (ls_ob s) = (e, ob')"
    using touch.hyps by (simp add: TouchIfMatch_def lock_ok_def)
  have "rec_ok ?rec" using touch.hyps by (simp add: rec_ok_def new_record_def lock_ok_def)
  note d = decode_marshal_lock [OF this]
  show ?case
  proof (cases e)
    case None
    note P = PutIfMatch_ok [OF p [unfolded None]]
    with touch.hyps have c: "current_lock abs (ls_ob s) = Some r" by (simp add: tag_faithful_def)
    have "current_lock abs ob' = Some ?rec" using P d by (simp add: current_lock_def)
    with touch c show ?thesis by (auto simp: run_inv_def new_record_def)
  next
    case (Some x)
    with touch.hyps PutIfMatch_failed p have "abs ob' = abs (ls_ob s)" by blast
    with touch run_inv_frame show ?thesis by blast
  qed
qed

lemma lock_run_wins: "lock_run S abs etag s0 s \<Longrightarrow> ls_wins s0 = [] \<Longrightarrow> sorted_wrt (<) (map snd (ls_wins s))"
  using lock_run_inv run_inv_def by blast

end


section \<open>Properties\<close>

text \<open>C9: at most one leader per term. In every interleaving of lock reads, acquisitions (at startup or by
  take-over) and liveness refreshes by any number of nodes, on any store that keeps the conditional-write contract,
  the terms of successive winners strictly increase.\<close>

theorem election_terms_increase:
  assumes "conditional_store S objs etag" and "lock_run S objs etag s0 s" and "ls_wins s0 = []"
  shows "sorted_wrt (<) (map snd (ls_wins s)) \<and> distinct (map snd (ls_wins s))"
  using conditional_store.lock_run_wins [OF assms] strict_sorted_iff by blast

definition demo_lock :: "gostring \<Rightarrow> lock" where
  "demo_lock n = \<lparr>lk_nodeID = n, lk_advertiseAddr = n, lk_conditional = True\<rparr>"

lemma demo_lock_sel [simp]: "lk_nodeID (demo_lock n) = n" "lk_advertiseAddr (demo_lock n) = n" "lk_conditional (demo_lock n)"
  by (simp_all add: demo_lock_def)

theorem election_terms_increase_witness:
  "\<exists>s. lock_run mem_store mem_abs mem_etag \<lparr>ls_ob = NewMem, ls_obs = Map.empty, ls_wins = []\<rparr> s \<and>
     map snd (ls_wins s) = [1, 6] \<and> sorted_wrt (<) (map snd (ls_wins s)) \<and> distinct (map snd (ls_wins s))"
proof -
  let ?s0 = "\<lparr>ls_ob = NewMem, ls_obs = Map.empty, ls_wins = []\<rparr>"
  let ?a = "demo_lock [97]" and ?b = "demo_lock [98]"
  define ra where "ra = new_record ?a 5 1 [97] 0"
  define rb where "rb = new_record ?b 6 6 [98] 0"
  define m1 where "m1 = AList.update LockKey \<lparr>mo_data = marshalLock ra, mo_etag = memETag (marshalLock ra)\<rparr> NewMem"
  define m2 where "m2 = AList.update LockKey \<lparr>mo_data = marshalLock rb, mo_etag = memETag (marshalLock rb)\<rparr> m1"
  let ?c0 = "\<lparr>lw_rec = None, lw_etag = []\<rparr>" and ?c1 = "\<lparr>lw_rec = Some ra, lw_etag = memETag (marshalLock ra)\<rparr>"
  let ?s1 = "?s0\<lparr>ls_ob := NewMem, ls_obs := (ls_obs ?s0)(lk_nodeID ?a \<mapsto> ?c0)\<rparr>"
  let ?s2 = "?s1\<lparr>ls_ob := m1, ls_wins := ls_wins ?s1 @ (if True then [(lk_nodeID ?a, lr_Term ra)] else [])\<rparr>"
  let ?s3 = "?s2\<lparr>ls_ob := m1, ls_obs := (ls_obs ?s2)(lk_nodeID ?b \<mapsto> ?c1)\<rparr>"
  let ?s4 = "?s3\<lparr>ls_ob := m2, ls_wins := ls_wins ?s3 @ (if True then [(lk_nodeID ?b, lr_Term rb)] else [])\<rparr>"
  have ok: "lock_ok ?a 5 0" "lock_ok ?b 6 0" by (simp_all add: lock_ok_def demo_lock_def ascii_def is_i64_def)
  have da: "decodeLock (marshalLock ra) = Inr ra"
    by (rule decode_marshal_lock) (simp add: rec_ok_def ra_def new_record_def demo_lock_def ascii_def is_i64_def)
  note mem = mem_store_def mem_GetETag_def mem_PutIfAbsent_def mem_PutIfMatch_def next_term_def Let_def
  have 1: "lock_run mem_store mem_abs mem_etag ?s0 ?s1"
    by (rule lock_run.read [OF lock_run.start]) (simp_all add: readWithETag_def mem NewMem_def)
  have 2: "lock_run mem_store mem_abs mem_etag ?s0 ?s2"
    by (rule lock_run.acquire [OF 1 ok(1), where floorTerm = 0 and other = id and cur = ?c0])
      (simp_all add: tag_faithful_def tryAcquire_write_def writeAtomic_def mem NewMem_def m1_def ra_def new_record_def)
  have g: "map_of m1 LockKey = Some \<lparr>mo_data = marshalLock ra, mo_etag = memETag (marshalLock ra)\<rparr>"
    by (simp add: m1_def update_conv')
  have 3: "lock_run mem_store mem_abs mem_etag ?s0 ?s3"
    by (rule lock_run.read [OF 2]) (simp_all add: readWithETag_def mem g da)
  have t: "lr_Term ra = 1" "lr_NodeID ra = [97]" "lr_CommittedRev ra = 0" by (simp_all add: ra_def new_record_def)
  have 4: "lock_run mem_store mem_abs mem_etag ?s0 ?s4"
    by (rule lock_run.acquire [OF 3 ok(2), where floorTerm = 5 and other = id and cur = ?c1])
      (simp_all add: tag_faithful_def takeOver_write_def writeAtomic_def current_lock_def mem_abs_def mem g da t m2_def rb_def
        new_record_def)
  from election_terms_increase [OF mem.conditional_store_axioms 4] 4 show ?thesis
    by (intro exI [of _ ?s4]) (simp add: ra_def rb_def new_record_def)
qed





end
