(* ===== verification/Checkpoint.thy ===== *)
theory Checkpoint
  imports Wal_Remote Election
begin

text \<open>
  Checkpoints in object storage, \<open>src/internal/checkpoint/checkpoint.go\<close>, the registry of branches,
  \<open>src/internal/checkpoint/branch.go\<close>, \<open>src/fork.go\<close>, and the upload of SST files as they appear,
  \<open>src/internal/store/sstuploader.go\<close>.

  The directory that Pebble's \<open>DB.Checkpoint\<close> fills is made by the parameter \<open>ckpt\<close>; it is flat, so
  \<open>filepath.Walk\<close> visits the names of \<open>os_ReadDir\<close> in order. The name that \<open>os.MkdirTemp\<close> picks is an argument.
  Of an ancestor's store only the outcome of the operation that the source calls on it is an argument.
  Go maps are association lists; where the source ranges over one, the order is that of the list.

  Lemmas: manifest, index and branch records decode to themselves.
\<close>

section \<open>SHA-256\<close>

text \<open>\<open>crypto/sha256\<close>.\<close>

definition cube_root :: "nat \<Rightarrow> nat \<Rightarrow> nat" where
  "cube_root bits n = foldl (\<lambda>r i. if (r + 2 ^ i) ^ 3 \<le> n then r + 2 ^ i else r) 0 (rev [0..<bits])"

text \<open>The round constants: the first 32 bits of the fractional parts of the cube roots of the first 64 primes.\<close>

definition sha256_K :: "32 word list" where
  "sha256_K = map (\<lambda>p. of_nat (cube_root 36 (p * 2 ^ 96)))
     (filter (\<lambda>p. 1 < p \<and> list_all (\<lambda>q. p mod q \<noteq> 0) [2..<p]) [0..<312])"

text \<open>The message schedule, newest word first.\<close>

definition sha256_extend :: "32 word list \<Rightarrow> nat \<Rightarrow> 32 word list" where
  "sha256_extend W i =
     (let w15 = W ! 14; w2 = W ! 1;
          s0 = word_rotr 7 w15 XOR word_rotr 18 w15 XOR drop_bit 3 w15;
          s1 = word_rotr 17 w2 XOR word_rotr 19 w2 XOR drop_bit 10 w2
      in (W ! 15 + s0 + W ! 6 + s1) # W)"

definition sha256_round :: "32 word list \<Rightarrow> 32 word \<times> 32 word \<Rightarrow> 32 word list" where
  "sha256_round st kw = (case st of
     [a, b, c, d, e, f, g, h] \<Rightarrow>
       let S1 = word_rotr 6 e XOR word_rotr 11 e XOR word_rotr 25 e;
           ch = (e AND f) XOR (NOT e AND g);
           t1 = h + S1 + ch + fst kw + snd kw;
           S0 = word_rotr 2 a XOR word_rotr 13 a XOR word_rotr 22 a;
           maj = (a AND b) XOR (a AND c) XOR (b AND c)
       in [t1 + S0 + maj, a, b, c, d + t1, e, f, g]
   | _ \<Rightarrow> st)"

definition sha256_block :: "32 word list \<Rightarrow> bytes \<Rightarrow> 32 word list" where
  "sha256_block st b =
     (let M = map (\<lambda>j. of_nat (get_be (gslice b (4 * j) (4 * j + 4)))) [0..<16];
          W = rev (foldl sha256_extend (rev M) [16..<64])
      in map2 (+) st (foldl sha256_round st (zip sha256_K W)))"

definition sha256_sum :: "bytes \<Rightarrow> bytes" where
  "sha256_sum data =
     (let n = length data;
          padded = data @ [0x80] @ replicate ((119 - n mod 64) mod 64) 0 @ put_be 8 (8 * n mod 2 ^ 64);
          blocks = map (\<lambda>i. gslice padded (64 * i) (64 * i + 64)) [0..<length padded div 64]
      in concat (map (\<lambda>w. put_be 4 (unat w)) (foldl sha256_block
           [0x6a09e667, 0xbb67ae85, 0x3c6ef372, 0xa54ff53a, 0x510e527f, 0x9b05688c, 0x1f83d9ab, 0x5be0cd19] blocks)))"

section \<open>Directories\<close>

definition under :: "gostring \<Rightarrow> gostring \<Rightarrow> bool" where
  "under dir p \<longleftrightarrow> p = dir \<or> HasPrefix p (path_join dir [])"

definition os_MkdirTemp :: "gostring \<Rightarrow> disk \<Rightarrow> goerr option \<times> disk" where
  "os_MkdirTemp dir d = (case next_fault d of
      (Some _, d) \<Rightarrow> (Some (ErrIO 12), d)
    | (None, d) \<Rightarrow> (None, d\<lparr>d_dirs := List.insert dir (d_dirs d)\<rparr>))"

text \<open>\<open>os.RemoveAll\<close>: when it fails, a number of the files is gone.\<close>

definition os_RemoveAll :: "gostring \<Rightarrow> disk \<Rightarrow> goerr option \<times> disk" where
  "os_RemoveAll dir d = (case next_fault d of
      (Some k, d) \<Rightarrow> (Some (ErrIO 13), let gone = take k (filter (under dir) (map fst (d_files d))) in
         d\<lparr>d_files := filter (\<lambda>f. fst f \<notin> set gone) (d_files d)\<rparr>)
    | (None, d) \<Rightarrow> (None, d\<lparr>d_files := filter (\<lambda>f. \<not> under dir (fst f)) (d_files d),
                           d_dirs := filter (\<lambda>p. \<not> under dir p) (d_dirs d)\<rparr>))"

text \<open>\<open>os.Rename\<close> of a directory to a name that does not exist.\<close>

definition rename_path :: "gostring \<Rightarrow> gostring \<Rightarrow> gostring \<Rightarrow> gostring" where
  "rename_path old new p = (if under old p then new @ drop (length old) p else p)"

definition os_Rename :: "gostring \<Rightarrow> gostring \<Rightarrow> disk \<Rightarrow> goerr option \<times> disk" where
  "os_Rename old new d = (case next_fault d of
      (Some _, d) \<Rightarrow> (Some (ErrIO 14), d)
    | (None, d) \<Rightarrow>
        if old \<notin> set (d_dirs d) then (Some ErrNotExist, d)
        else if new \<in> set (d_dirs d) then (Some (ErrIO 15), d)
        else (None, d\<lparr>d_files := map (\<lambda>f. (rename_path old new (fst f), snd f)) (d_files d),
                      d_dirs := map (rename_path old new) (d_dirs d)\<rparr>))"

section \<open>Manifest, index and branch records\<close>

definition CheckpointFormatVersion :: nat where "CheckpointFormatVersion = 1"

record Manifest =
  mf_FormatVersion :: nat
  mf_CheckpointKey :: gostring
  mf_Revision :: int
  mf_LastSequence :: int
  mf_Term :: nat
  mf_LastWALKey :: gostring

definition ManifestKey :: gostring where "ManifestKey = str ''manifest/latest''"

record CheckpointIndex =
  ci_FormatVersion :: nat
  ci_Term :: nat
  ci_Revision :: int
  ci_LastSequence :: int
  ci_SSTFiles :: "gostring list"
  ci_AncestorSSTFiles :: "gostring list"
  ci_PebbleMeta :: "gostring list"

definition CheckpointKey :: "nat \<Rightarrow> int \<Rightarrow> gostring" where
  "CheckpointKey term revision = str ''checkpoint/'' @ fmt_0u 10 term @ str ''/'' @ fmt_0d 20 revision"

definition CheckpointIndexKey :: "nat \<Rightarrow> int \<Rightarrow> gostring" where
  "CheckpointIndexKey term revision = CheckpointKey term revision @ str ''/manifest.json''"

text \<open>Fields with \<open>omitempty\<close> are left out when they are zero; a slice nothing was appended to is \<open>null\<close>.\<close>

definition omit_uint :: "gostring \<Rightarrow> nat \<Rightarrow> (gostring \<times> json) list" where
  "omit_uint name x = (if x = 0 then [] else [(name, JNum (fmt_0u 0 x))])"

definition omit_int :: "gostring \<Rightarrow> int \<Rightarrow> (gostring \<times> json) list" where
  "omit_int name x = (if x = 0 then [] else [(name, json_int x)])"

definition json_slice :: "gostring list \<Rightarrow> json" where
  "json_slice xs = (if xs = [] then JNull else JArr (map JStr xs))"

definition marshalManifest :: "Manifest \<Rightarrow> bytes" where
  "marshalManifest m = json_print (JObj
     (omit_uint (str ''format_version'') (mf_FormatVersion m) @
      [(str ''checkpoint_key'', JStr (mf_CheckpointKey m)), (str ''revision'', json_int (mf_Revision m))] @
      omit_int (str ''last_sequence'') (mf_LastSequence m) @
      [(str ''term'', JNum (fmt_0u 0 (mf_Term m)))] @
      (if mf_LastWALKey m = [] then [] else [(str ''last_wal_key'', JStr (mf_LastWALKey m))])))"

definition field_uint32 :: "(gostring \<times> json) list \<Rightarrow> gostring \<Rightarrow> nat res" where
  "field_uint32 fs name = (case field_uint fs name of
     Inl e \<Rightarrow> Inl e | Inr x \<Rightarrow> if x < 2 ^ 32 then Inr x else Inl err_json)"

definition decodeManifest :: "bytes \<Rightarrow> Manifest res" where
  "decodeManifest b =
     (case json_object b of
        Inl e \<Rightarrow> Inl e
      | Inr fs \<Rightarrow>
          (case (field_uint32 fs (str ''format_version''), field_str fs (str ''checkpoint_key''),
                 field_int fs (str ''revision''), field_int fs (str ''last_sequence''),
                 field_uint fs (str ''term''), field_str fs (str ''last_wal_key'')) of
             (Inr v, Inr k, Inr r, Inr s, Inr t, Inr w) \<Rightarrow>
               Inr \<lparr>mf_FormatVersion = v, mf_CheckpointKey = k, mf_Revision = r, mf_LastSequence = s,
                    mf_Term = t, mf_LastWALKey = w\<rparr>
           | _ \<Rightarrow> Inl err_json))"

definition marshalIndex :: "CheckpointIndex \<Rightarrow> bytes" where
  "marshalIndex i = json_print (JObj
     (omit_uint (str ''format_version'') (ci_FormatVersion i) @
      [(str ''term'', JNum (fmt_0u 0 (ci_Term i))), (str ''revision'', json_int (ci_Revision i))] @
      omit_int (str ''last_sequence'') (ci_LastSequence i) @
      [(str ''sst_files'', json_slice (ci_SSTFiles i))] @
      (if ci_AncestorSSTFiles i = [] then [] else [(str ''ancestor_sst_files'', json_slice (ci_AncestorSSTFiles i))]) @
      [(str ''pebble_meta'', json_slice (ci_PebbleMeta i))]))"

definition decodeIndex :: "bytes \<Rightarrow> CheckpointIndex res" where
  "decodeIndex b =
     (case json_object b of
        Inl e \<Rightarrow> Inl e
      | Inr fs \<Rightarrow>
          (case (field_uint32 fs (str ''format_version''), field_uint fs (str ''term''),
                 field_int fs (str ''revision''), field_int fs (str ''last_sequence''),
                 field_strs fs (str ''sst_files''), field_strs fs (str ''ancestor_sst_files''),
                 field_strs fs (str ''pebble_meta'')) of
             (Inr v, Inr t, Inr r, Inr s, Inr ssts, Inr ancs, Inr metas) \<Rightarrow>
               Inr \<lparr>ci_FormatVersion = v, ci_Term = t, ci_Revision = r, ci_LastSequence = s,
                    ci_SSTFiles = ssts, ci_AncestorSSTFiles = ancs, ci_PebbleMeta = metas\<rparr>
           | _ \<Rightarrow> Inl err_json))"

definition err_format :: goerr where "err_format = Err ''format_version is newer than supported''"

definition ReadManifest :: "('o, 'm) store_scheme \<Rightarrow> 'o \<Rightarrow> Manifest option res \<times> 'o" where
  "ReadManifest S ob =
     (case st_Get S ManifestKey ob of
        (Inl e, ob) \<Rightarrow> (if e = ErrNotFound then Inr None else Inl e, ob)
      | (Inr b, ob) \<Rightarrow>
          (case decodeManifest b of
             Inl e \<Rightarrow> (Inl e, ob)
           | Inr m \<Rightarrow>
               if mf_FormatVersion m > CheckpointFormatVersion then (Inl err_format, ob)
               else (Inr (Some (if mf_LastSequence m = 0 then m\<lparr>mf_LastSequence := mf_Revision m\<rparr> else m)), ob)))"

definition WriteManifest :: "('o, 'm) store_scheme \<Rightarrow> Manifest \<Rightarrow> 'o \<Rightarrow> goerr option \<times> 'o" where
  "WriteManifest S m ob = st_Put S ManifestKey (marshalManifest m) ob"

definition ReadCheckpointIndex :: "('o, 'm) store_scheme \<Rightarrow> gostring \<Rightarrow> 'o \<Rightarrow> CheckpointIndex res \<times> 'o" where
  "ReadCheckpointIndex S key ob =
     (case st_Get S key ob of
        (Inl e, ob) \<Rightarrow> (Inl e, ob)
      | (Inr b, ob) \<Rightarrow>
          (case decodeIndex b of
             Inl e \<Rightarrow> (Inl e, ob)
           | Inr i \<Rightarrow>
               if ci_FormatVersion i > CheckpointFormatVersion then (Inl err_format, ob)
               else (Inr (if ci_LastSequence i = 0 then i\<lparr>ci_LastSequence := ci_Revision i\<rparr> else i), ob)))"

section \<open>Writing\<close>

definition sst_key :: "bytes \<Rightarrow> gostring \<Rightarrow> gostring" where
  "sst_key b name = str ''sst/'' @ hex_string (take 8 (sha256_sum b)) @ str ''/'' @ name"

definition contentSSTKey :: "gostring \<Rightarrow> gostring \<Rightarrow> disk \<Rightarrow> gostring res \<times> disk" where
  "contentSSTKey path name d =
     (case os_ReadFile path d of (Inl e, d) \<Rightarrow> (Inl e, d) | (Inr b, d) \<Rightarrow> (Inr (sst_key b name), d))"

definition writeIndex :: "('o, 'm) store_scheme \<Rightarrow> nat \<Rightarrow> int \<Rightarrow> int \<Rightarrow> gostring \<Rightarrow> gostring list \<Rightarrow> gostring list \<Rightarrow>
    gostring list \<Rightarrow> 'o \<Rightarrow> goerr option \<times> 'o" where
  "writeIndex S term revision sequence lastWALKey sstFiles ancestorSSTFiles metaFiles ob =
     (let indexKey = CheckpointIndexKey term revision;
          idx = \<lparr>ci_FormatVersion = CheckpointFormatVersion, ci_Term = term, ci_Revision = revision,
                 ci_LastSequence = sequence, ci_SSTFiles = sstFiles, ci_AncestorSSTFiles = ancestorSSTFiles,
                 ci_PebbleMeta = metaFiles\<rparr>
      in case st_Put S indexKey (marshalIndex idx) ob of
           (Some e, ob) \<Rightarrow> (Some e, ob)
         | (None, ob) \<Rightarrow>
             WriteManifest S \<lparr>mf_FormatVersion = CheckpointFormatVersion, mf_CheckpointKey = indexKey,
               mf_Revision = revision, mf_LastSequence = sequence, mf_Term = term, mf_LastWALKey = lastWALKey\<rparr> ob)"

definition listSSTSet :: "('o, 'm) store_scheme \<Rightarrow> 'o \<Rightarrow> gostring list res \<times> 'o" where
  "listSSTSet S ob = st_List S (str ''sst/'') ob"

text \<open>\<open>ancestor\<close> is what \<open>listSSTSet\<close> of the ancestor's store returns, None without such a store.\<close>

definition knownSSTSets :: "('o, 'm) store_scheme \<Rightarrow> gostring list res option \<Rightarrow> 'o \<Rightarrow>
    (gostring list \<times> gostring list) res \<times> 'o" where
  "knownSSTSets S ancestor ob =
     (case (case ReadManifest S ob of
              (Inr (Some m), ob) \<Rightarrow>
                (case ReadCheckpointIndex S (mf_CheckpointKey m) ob of
                   (Inl e, ob) \<Rightarrow> (([], []), ob)
                 | (Inr i, ob) \<Rightarrow> ((ci_SSTFiles i, ci_AncestorSSTFiles i), ob))
            | (_, ob) \<Rightarrow> (([], []), ob)) of
        ((local, anc), ob) \<Rightarrow>
          (case ancestor of
             None \<Rightarrow> (Inr (local, anc), ob)
           | Some listing \<Rightarrow>
               if anc \<noteq> [] then (Inr (local, anc), ob)
               else (case listing of Inl e \<Rightarrow> (Inl e, ob) | Inr ks \<Rightarrow> (Inr (local, ks), ob))))"

text \<open>How a file of the checkpoint directory was recorded.\<close>

datatype upfile = SstFile gostring | AncFile gostring | MetaFile gostring

fun sst_files :: "upfile list \<Rightarrow> gostring list" where
  "sst_files [] = []"
| "sst_files (SstFile k # fs) = k # sst_files fs"
| "sst_files (_ # fs) = sst_files fs"

fun anc_files :: "upfile list \<Rightarrow> gostring list" where
  "anc_files [] = []"
| "anc_files (AncFile k # fs) = k # anc_files fs"
| "anc_files (_ # fs) = anc_files fs"

fun meta_files :: "upfile list \<Rightarrow> gostring list" where
  "meta_files [] = []"
| "meta_files (MetaFile n # fs) = n # meta_files fs"
| "meta_files (_ # fs) = meta_files fs"

definition put_file :: "('o, 'm) store_scheme \<Rightarrow> gostring \<Rightarrow> gostring \<Rightarrow> upfile \<Rightarrow> disk \<Rightarrow> 'o \<Rightarrow> upfile res \<times> disk \<times> 'o" where
  "put_file S key path f d ob =
     (case os_ReadFile path d of
        (Inl e, d) \<Rightarrow> (Inl e, d, ob)
      | (Inr b, d) \<Rightarrow>
          (case st_Put S key b ob of (Some e, ob) \<Rightarrow> (Inl e, d, ob) | (None, ob) \<Rightarrow> (Inr f, d, ob)))"

definition meta_object :: "nat \<Rightarrow> int \<Rightarrow> gostring \<Rightarrow> gostring" where
  "meta_object term revision name = CheckpointKey term revision @ str ''/'' @ name"

text \<open>The visits of \<open>WriteAtSequence\<close> and of \<open>WriteWithRegistryAtSequence\<close> to one file.\<close>

definition write_file :: "('o, 'm) store_scheme \<Rightarrow> gostring list \<Rightarrow> gostring list \<Rightarrow> nat \<Rightarrow> int \<Rightarrow> gostring \<Rightarrow>
    gostring \<Rightarrow> disk \<Rightarrow> 'o \<Rightarrow> upfile res \<times> disk \<times> 'o" where
  "write_file S localSSTs ancestorSSTs term revision cpDir name d ob =
     (let path = path_join cpDir name in
      if HasSuffix name (str ''.sst'') then
        (case contentSSTKey path name d of
           (Inl e, d) \<Rightarrow> (Inl e, d, ob)
         | (Inr sstKey, d) \<Rightarrow>
             if sstKey \<in> set localSSTs then (Inr (SstFile sstKey), d, ob)
             else if sstKey \<in> set ancestorSSTs then (Inr (AncFile sstKey), d, ob)
             else put_file S sstKey path (SstFile sstKey) d ob)
      else put_file S (meta_object term revision name) path (MetaFile name) d ob)"

definition write_file_registry :: "('o, 'm) store_scheme \<Rightarrow> (gostring \<times> gostring) list \<Rightarrow> (gostring \<times> gostring) list \<Rightarrow>
    nat \<Rightarrow> int \<Rightarrow> gostring \<Rightarrow> gostring \<Rightarrow> disk \<Rightarrow> 'o \<Rightarrow> upfile res \<times> disk \<times> 'o" where
  "write_file_registry S localRegistry inheritedRegistry term revision cpDir name d ob =
     (let path = path_join cpDir name in
      if HasSuffix name (str ''.sst'') then
        (case map_of inheritedRegistry name of
           Some key \<Rightarrow> (Inr (AncFile key), d, ob)
         | None \<Rightarrow>
             (case map_of localRegistry name of
                Some key \<Rightarrow> (Inr (SstFile key), d, ob)
              | None \<Rightarrow>
                  (case contentSSTKey path name d of
                     (Inl e, d) \<Rightarrow> (Inl e, d, ob)
                   | (Inr key, d) \<Rightarrow> put_file S key path (SstFile key) d ob)))
      else put_file S (meta_object term revision name) path (MetaFile name) d ob)"

fun walk_files :: "(gostring \<Rightarrow> disk \<Rightarrow> 'o \<Rightarrow> upfile res \<times> disk \<times> 'o) \<Rightarrow> gostring list \<Rightarrow> disk \<Rightarrow> 'o \<Rightarrow>
    upfile list res \<times> disk \<times> 'o" where
  "walk_files visit [] d ob = (Inr [], d, ob)"
| "walk_files visit (name # names) d ob =
     (case visit name d ob of
        (Inl e, d, ob) \<Rightarrow> (Inl e, d, ob)
      | (Inr f, d, ob) \<Rightarrow>
          (case walk_files visit names d ob of
             (Inl e, d, ob) \<Rightarrow> (Inl e, d, ob)
           | (Inr fs, d, ob) \<Rightarrow> (Inr (f # fs), d, ob)))"

definition filepath_Walk :: "gostring \<Rightarrow> (gostring \<Rightarrow> disk \<Rightarrow> 'o \<Rightarrow> upfile res \<times> disk \<times> 'o) \<Rightarrow> disk \<Rightarrow> 'o \<Rightarrow>
    upfile list res \<times> disk \<times> 'o" where
  "filepath_Walk dir visit d ob =
     (case os_ReadDir dir d of (Inl e, d) \<Rightarrow> (Inl e, d, ob) | (Inr names, d) \<Rightarrow> walk_files visit names d ob)"

definition write_index_of :: "('o, 'm) store_scheme \<Rightarrow> nat \<Rightarrow> int \<Rightarrow> int \<Rightarrow> gostring \<Rightarrow>
    upfile list res \<times> disk \<times> 'o \<Rightarrow> goerr option \<times> disk \<times> 'o" where
  "write_index_of S term revision sequence lastWALKey walked =
     (case walked of
        (Inl e, d, ob) \<Rightarrow> (Some e, d, ob)
      | (Inr fs, d, ob) \<Rightarrow>
          (case writeIndex S term revision sequence lastWALKey (sst_files fs) (anc_files fs) (meta_files fs) ob of
             (e, ob) \<Rightarrow> (e, d, ob)))"

text \<open>The part that both writers share: a temporary directory around a Pebble checkpoint.\<close>

definition with_checkpoint :: "(gostring \<Rightarrow> disk \<Rightarrow> goerr option \<times> disk) \<Rightarrow> gostring \<Rightarrow>
    (gostring \<Rightarrow> disk \<Rightarrow> 'o \<Rightarrow> goerr option \<times> disk \<times> 'o) \<Rightarrow> disk \<Rightarrow> 'o \<Rightarrow> goerr option \<times> disk \<times> 'o" where
  "with_checkpoint ckpt tmpDir body d ob =
     (case os_MkdirTemp tmpDir d of
        (Some e, d) \<Rightarrow> (Some e, d, ob)
      | (None, d) \<Rightarrow>
          let cpDir = path_join tmpDir (str ''cp'') in
          (case (case ckpt cpDir d of (Some e, d) \<Rightarrow> (Some e, d, ob) | (None, d) \<Rightarrow> body cpDir d ob) of
             (e, d, ob) \<Rightarrow> (e, snd (os_RemoveAll tmpDir d), ob)))"

definition WriteAtSequence :: "('o, 'm) store_scheme \<Rightarrow> (gostring \<Rightarrow> disk \<Rightarrow> goerr option \<times> disk) \<Rightarrow> gostring \<Rightarrow>
    gostring list res option \<Rightarrow> nat \<Rightarrow> int \<Rightarrow> int \<Rightarrow> gostring \<Rightarrow> disk \<Rightarrow> 'o \<Rightarrow> goerr option \<times> disk \<times> 'o" where
  "WriteAtSequence S ckpt tmpDir ancestor term revision sequence lastWALKey =
     with_checkpoint ckpt tmpDir (\<lambda>cpDir d ob.
       case knownSSTSets S ancestor ob of
         (Inl e, ob) \<Rightarrow> (Some e, d, ob)
       | (Inr (localSSTs, ancestorSSTs), ob) \<Rightarrow>
           write_index_of S term revision sequence lastWALKey
             (filepath_Walk cpDir (write_file S localSSTs ancestorSSTs term revision cpDir) d ob))"

definition WriteWithRegistryAtSequence :: "('o, 'm) store_scheme \<Rightarrow> (gostring \<Rightarrow> disk \<Rightarrow> goerr option \<times> disk) \<Rightarrow>
    gostring \<Rightarrow> nat \<Rightarrow> int \<Rightarrow> int \<Rightarrow> gostring \<Rightarrow> (gostring \<times> gostring) list \<Rightarrow> (gostring \<times> gostring) list \<Rightarrow>
    disk \<Rightarrow> 'o \<Rightarrow> goerr option \<times> disk \<times> 'o" where
  "WriteWithRegistryAtSequence S ckpt tmpDir term revision sequence lastWALKey localRegistry inheritedRegistry =
     with_checkpoint ckpt tmpDir (\<lambda>cpDir d ob.
       write_index_of S term revision sequence lastWALKey
         (filepath_Walk cpDir (write_file_registry S localRegistry inheritedRegistry term revision cpDir) d ob))"

definition checkpoint_Write :: "('o, 'm) store_scheme \<Rightarrow> (gostring \<Rightarrow> disk \<Rightarrow> goerr option \<times> disk) \<Rightarrow> gostring \<Rightarrow>
    gostring list res option \<Rightarrow> nat \<Rightarrow> int \<Rightarrow> gostring \<Rightarrow> disk \<Rightarrow> 'o \<Rightarrow> goerr option \<times> disk \<times> 'o" where
  "checkpoint_Write S ckpt tmpDir ancestor term revision lastWALKey =
     WriteAtSequence S ckpt tmpDir ancestor term revision revision lastWALKey"

definition WriteWithRegistry :: "('o, 'm) store_scheme \<Rightarrow> (gostring \<Rightarrow> disk \<Rightarrow> goerr option \<times> disk) \<Rightarrow>
    gostring \<Rightarrow> nat \<Rightarrow> int \<Rightarrow> gostring \<Rightarrow> (gostring \<times> gostring) list \<Rightarrow> (gostring \<times> gostring) list \<Rightarrow>
    disk \<Rightarrow> 'o \<Rightarrow> goerr option \<times> disk \<times> 'o" where
  "WriteWithRegistry S ckpt tmpDir term revision lastWALKey localRegistry inheritedRegistry =
     WriteWithRegistryAtSequence S ckpt tmpDir term revision revision lastWALKey localRegistry inheritedRegistry"

section \<open>Restoring\<close>

definition streamToFile :: "bytes \<Rightarrow> gostring \<Rightarrow> disk \<Rightarrow> goerr option \<times> disk" where
  "streamToFile b dest d =
     (case os_Create dest d of
        (Inl e, d) \<Rightarrow> (Some e, d)
      | (Inr f, d) \<Rightarrow>
          (case f_Write f b d of (e, f, d) \<Rightarrow> (case f_Close f d of (_, _, d) \<Rightarrow> (e, d))))"

definition downloadFile :: "('o, 'm) store_scheme \<Rightarrow> gostring \<Rightarrow> gostring \<Rightarrow> disk \<Rightarrow> 'o \<Rightarrow> goerr option \<times> disk \<times> 'o" where
  "downloadFile S key dest d ob =
     (case st_Get S key ob of
        (Inl e, ob) \<Rightarrow> (Some e, d, ob)
      | (Inr b, ob) \<Rightarrow> (case streamToFile b dest d of (e, d) \<Rightarrow> (e, d, ob)))"

text \<open>The loops over the files of an index: each item is an object key with the name of its file.\<close>

fun download_all :: "(gostring \<Rightarrow> gostring \<Rightarrow> disk \<Rightarrow> 'o \<Rightarrow> goerr option \<times> disk \<times> 'o) \<Rightarrow> gostring \<Rightarrow>
    (gostring \<times> gostring) list \<Rightarrow> disk \<Rightarrow> 'o \<Rightarrow> goerr option \<times> disk \<times> 'o" where
  "download_all get targetDir [] d ob = (None, d, ob)"
| "download_all get targetDir ((key, name) # items) d ob =
     (case get key (path_join targetDir name) d ob of
        (Some e, d, ob) \<Rightarrow> (Some e, d, ob)
      | (None, d, ob) \<Rightarrow> download_all get targetDir items d ob)"

definition base_items :: "gostring list \<Rightarrow> (gostring \<times> gostring) list" where
  "base_items keys = map (\<lambda>k. (k, path_base k)) keys"

definition err_index_key :: goerr where "err_index_key = Err ''checkpoint: index key must end with manifest.json''"

text \<open>\<open>ancestor\<close> is \<open>Get\<close> of the ancestor's store, None when \<open>store\<close> is used for all.\<close>

definition restoreFromIndex :: "('o, 'm) store_scheme \<Rightarrow> (gostring \<Rightarrow> bytes res) option \<Rightarrow> gostring \<Rightarrow> gostring \<Rightarrow>
    disk \<Rightarrow> 'o \<Rightarrow> (nat \<times> int) res \<times> disk \<times> 'o" where
  "restoreFromIndex S ancestor indexKey targetDir d ob =
     (if \<not> HasSuffix indexKey (str ''manifest.json'') then (Inl err_index_key, d, ob)
      else case ReadCheckpointIndex S indexKey ob of
        (Inl e, ob) \<Rightarrow> (Inl e, d, ob)
      | (Inr idx, ob) \<Rightarrow>
          (case os_MkdirAll targetDir d of
             (Some e, d) \<Rightarrow> (Inl e, d, ob)
           | (None, d) \<Rightarrow>
               (case download_all (downloadFile S) targetDir (base_items (ci_SSTFiles idx)) d ob of
                  (Some e, d, ob) \<Rightarrow> (Inl e, d, ob)
                | (None, d, ob) \<Rightarrow>
                    (case download_all
                       (case ancestor of
                          None \<Rightarrow> downloadFile S
                        | Some get \<Rightarrow> (\<lambda>key dest d ob. case get key of
                            Inl e \<Rightarrow> (Some e, d, ob)
                          | Inr b \<Rightarrow> (case streamToFile b dest d of (e, d) \<Rightarrow> (e, d, ob))))
                       targetDir (base_items (ci_AncestorSSTFiles idx)) d ob of
                       (Some e, d, ob) \<Rightarrow> (Inl e, d, ob)
                     | (None, d, ob) \<Rightarrow>
                         let metaPrefix = TrimSuffix indexKey (str ''manifest.json'') in
                         (case download_all (downloadFile S) targetDir
                                 (map (\<lambda>name. (metaPrefix @ name, name)) (ci_PebbleMeta idx)) d ob of
                            (Some e, d, ob) \<Rightarrow> (Inl e, d, ob)
                          | (None, d, ob) \<Rightarrow> (Inr (ci_Term idx, ci_Revision idx), d, ob))))))"

definition checkpoint_Restore :: "('o, 'm) store_scheme \<Rightarrow> gostring \<Rightarrow> gostring \<Rightarrow> disk \<Rightarrow> 'o \<Rightarrow> (nat \<times> int) res \<times> disk \<times> 'o" where
  "checkpoint_Restore S objKey targetDir d ob = restoreFromIndex S None objKey targetDir d ob"

definition RestoreBranch :: "('o, 'm) store_scheme \<Rightarrow> (gostring \<Rightarrow> bytes res) option \<Rightarrow> gostring \<Rightarrow> gostring \<Rightarrow>
    disk \<Rightarrow> 'o \<Rightarrow> (nat \<times> int) res \<times> disk \<times> 'o" where
  "RestoreBranch S ancestor objKey targetDir d ob = restoreFromIndex S ancestor objKey targetDir d ob"

text \<open>\<open>getv\<close> is \<open>GetVersioned\<close>; an absent version reads as the empty string.\<close>

definition downloadVersionedOrLive :: "('o, 'm) store_scheme \<Rightarrow> (gostring \<Rightarrow> gostring \<Rightarrow> bytes res) \<Rightarrow>
    (gostring \<times> gostring) list \<Rightarrow> gostring \<Rightarrow> gostring \<Rightarrow> disk \<Rightarrow> 'o \<Rightarrow> goerr option \<times> disk \<times> 'o" where
  "downloadVersionedOrLive S getv versions key dest d ob =
     (let versionID = (case map_of versions key of None \<Rightarrow> [] | Some v \<Rightarrow> v) in
      if versionID \<noteq> [] then
        (case getv key versionID of
           Inl e \<Rightarrow> (Some e, d, ob)
         | Inr b \<Rightarrow> (case streamToFile b dest d of (e, d) \<Rightarrow> (e, d, ob)))
      else downloadFile S key dest d ob)"

definition err_pinned :: goerr where "err_pinned = Err ''checkpoint: pinned versions missing''"

definition RestoreVersioned :: "('o, 'm) store_scheme \<Rightarrow> (gostring \<Rightarrow> gostring \<Rightarrow> bytes res) \<Rightarrow> gostring \<Rightarrow> gostring \<Rightarrow>
    (gostring \<times> gostring) list \<Rightarrow> gostring \<Rightarrow> disk \<Rightarrow> 'o \<Rightarrow> (nat \<times> int) res \<times> disk \<times> 'o" where
  "RestoreVersioned S getv objKey versionID versions targetDir d ob =
     (if \<not> HasSuffix objKey (str ''manifest.json'') then (Inl err_index_key, d, ob)
      else case getv objKey versionID of
        Inl e \<Rightarrow> (Inl e, d, ob)
      | Inr b \<Rightarrow>
          (case decodeIndex b of
             Inl e \<Rightarrow> (Inl e, d, ob)
           | Inr idx \<Rightarrow>
               let metaPrefix = TrimSuffix objKey (str ''manifest.json'');
                   metaItems = map (\<lambda>name. (metaPrefix @ name, name)) (ci_PebbleMeta idx)
               in
               if versions \<noteq> [] \<and> (\<exists>k \<in> set (ci_SSTFiles idx @ map fst metaItems). map_of versions k = None)
               then (Inl err_pinned, d, ob)
               else (case os_MkdirAll targetDir d of
                 (Some e, d) \<Rightarrow> (Inl e, d, ob)
               | (None, d) \<Rightarrow>
                   (case download_all (downloadVersionedOrLive S getv versions) targetDir
                           (base_items (ci_SSTFiles idx) @ metaItems) d ob of
                      (Some e, d, ob) \<Rightarrow> (Inl e, d, ob)
                    | (None, d, ob) \<Rightarrow> (Inr (ci_Term idx, ci_Revision idx), d, ob)))))"

section \<open>Branches\<close>

record BranchEntry =
  be_AncestorCheckpointKey :: gostring

definition branchKey :: "gostring \<Rightarrow> gostring" where
  "branchKey bid = str ''branches/'' @ bid"

definition marshalBranch :: "BranchEntry \<Rightarrow> bytes" where
  "marshalBranch e = json_print (JObj [(str ''ancestor_checkpoint_key'', JStr (be_AncestorCheckpointKey e))])"

definition decodeBranch :: "bytes \<Rightarrow> BranchEntry res" where
  "decodeBranch b =
     (case json_object b of
        Inl e \<Rightarrow> Inl e
      | Inr fs \<Rightarrow>
          (case field_str fs (str ''ancestor_checkpoint_key'') of
             Inl e \<Rightarrow> Inl e
           | Inr k \<Rightarrow> Inr \<lparr>be_AncestorCheckpointKey = k\<rparr>))"

definition RegisterBranch :: "('o, 'm) store_scheme \<Rightarrow> gostring \<Rightarrow> gostring \<Rightarrow> 'o \<Rightarrow> goerr option \<times> 'o" where
  "RegisterBranch S bid ancestorCheckpointKey ob =
     st_Put S (branchKey bid) (marshalBranch \<lparr>be_AncestorCheckpointKey = ancestorCheckpointKey\<rparr>) ob"

definition UnregisterBranch :: "('o, 'm) store_scheme \<Rightarrow> gostring \<Rightarrow> 'o \<Rightarrow> goerr option \<times> 'o" where
  "UnregisterBranch S bid ob = st_Delete S (branchKey bid) ob"

fun read_branches_loop :: "('o, 'm) store_scheme \<Rightarrow> gostring list \<Rightarrow> 'o \<Rightarrow> (gostring \<times> BranchEntry) list res \<times> 'o" where
  "read_branches_loop S [] ob = (Inr [], ob)"
| "read_branches_loop S (k # ks) ob =
     (case st_Get S k ob of
        (Inl e, ob) \<Rightarrow> if e = ErrNotFound then read_branches_loop S ks ob else (Inl e, ob)
      | (Inr b, ob) \<Rightarrow>
          (case decodeBranch b of
             Inl e \<Rightarrow> (Inl e, ob)
           | Inr entry \<Rightarrow>
               (case read_branches_loop S ks ob of
                  (Inl e, ob) \<Rightarrow> (Inl e, ob)
                | (Inr entries, ob) \<Rightarrow> (Inr ((TrimPrefix k (str ''branches/''), entry) # entries), ob))))"

definition ReadBranchEntries :: "('o, 'm) store_scheme \<Rightarrow> 'o \<Rightarrow> (gostring \<times> BranchEntry) list res \<times> 'o" where
  "ReadBranchEntries S ob =
     (case st_List S (str ''branches/'') ob of
        (Inl e, ob) \<Rightarrow> (Inl e, ob)
      | (Inr keys, ob) \<Rightarrow> read_branches_loop S keys ob)"

definition Fork :: "('o, 'm) store_scheme \<Rightarrow> gostring \<Rightarrow> 'o \<Rightarrow> gostring res \<times> 'o" where
  "Fork S branchID ob =
     (case ReadManifest S ob of
        (Inl e, ob) \<Rightarrow> (Inl e, ob)
      | (Inr None, ob) \<Rightarrow> (Inl (Err ''fork: no checkpoint found in source store''), ob)
      | (Inr (Some m), ob) \<Rightarrow>
          (case RegisterBranch S branchID (mf_CheckpointKey m) ob of
             (Some e, ob) \<Rightarrow> (Inl e, ob)
           | (None, ob) \<Rightarrow> (Inr (mf_CheckpointKey m), ob)))"

definition Unfork :: "('o, 'm) store_scheme \<Rightarrow> gostring \<Rightarrow> 'o \<Rightarrow> goerr option \<times> 'o" where
  "Unfork S branchID ob = UnregisterBranch S branchID ob"

section \<open>Garbage collection of checkpoints\<close>

definition ListRemote :: "('o, 'm) store_scheme \<Rightarrow> 'o \<Rightarrow> gostring list res \<times> 'o" where
  "ListRemote S ob =
     (case st_List S (str ''checkpoint/'') ob of
        (Inl e, ob) \<Rightarrow> (Inl e, ob)
      | (Inr keys, ob) \<Rightarrow> (Inr (sort (filter (\<lambda>k. HasSuffix k (str ''/manifest.json'')) keys)), ob))"

text \<open>The SST files that the indexes at some keys name; an index that cannot be read is passed over.\<close>

fun live_ssts :: "('o, 'm) store_scheme \<Rightarrow> gostring list \<Rightarrow> 'o \<Rightarrow> gostring list \<times> 'o" where
  "live_ssts S [] ob = ([], ob)"
| "live_ssts S (k # ks) ob =
     (case ReadCheckpointIndex S k ob of
        (Inl e, ob) \<Rightarrow> live_ssts S ks ob
      | (Inr idx, ob) \<Rightarrow> (case live_ssts S ks ob of (ss, ob) \<Rightarrow> (ci_SSTFiles idx @ ss, ob)))"

text \<open>\<open>key[:strings.LastIndex(key, "/")+1]\<close>.\<close>

definition dir_prefix :: "gostring \<Rightarrow> gostring" where
  "dir_prefix key = rev (dropWhile (\<lambda>c. c \<noteq> 47) (rev key))"

definition deleteCheckpoint :: "('o, 'm) store_scheme \<Rightarrow> gostring \<Rightarrow> 'o \<Rightarrow> goerr option \<times> 'o" where
  "deleteCheckpoint S key ob =
     (case st_List S (dir_prefix key) ob of
        (Inl e, ob) \<Rightarrow> (Some e, ob)
      | (Inr subkeys, ob) \<Rightarrow> st_DeleteMany S subkeys ob)"

fun gc_delete_loop :: "('o, 'm) store_scheme \<Rightarrow> gostring list \<Rightarrow> gostring list \<Rightarrow> gostring list \<Rightarrow> nat \<Rightarrow> gostring list \<Rightarrow>
    'o \<Rightarrow> (nat \<times> gostring list \<times> goerr option) \<times> 'o" where
  "gc_delete_loop S keepKeys liveSSTs [] deleted orphans ob = ((deleted, orphans, None), ob)"
| "gc_delete_loop S keepKeys liveSSTs (k # ks) deleted orphans ob =
     (if k \<in> set keepKeys then gc_delete_loop S keepKeys liveSSTs ks deleted orphans ob
      else
        (case ReadCheckpointIndex S k ob of
           (r, ob) \<Rightarrow>
             let orphans' = (case r of
                   Inl e \<Rightarrow> orphans
                 | Inr idx \<Rightarrow> orphans @ filter (\<lambda>s. s \<notin> set liveSSTs) (ci_SSTFiles idx))
             in (case deleteCheckpoint S k ob of
                   (Some e, ob) \<Rightarrow> ((deleted, orphans', Some e), ob)
                 | (None, ob) \<Rightarrow> gc_delete_loop S keepKeys liveSSTs ks (deleted + 1) orphans' ob)))"

definition GCCheckpoints :: "('o, 'm) store_scheme \<Rightarrow> int \<Rightarrow> 'o \<Rightarrow> (nat \<times> gostring list \<times> goerr option) \<times> 'o" where
  "GCCheckpoints S keep0 ob =
     (let keep = nat (if keep0 < 1 then 1 else keep0) in
      case ReadManifest S ob of
        (Inl e, ob) \<Rightarrow> ((0, [], Some e), ob)
      | (Inr manifest, ob) \<Rightarrow>
          (case ReadBranchEntries S ob of
             (Inl e, ob) \<Rightarrow> ((0, [], Some e), ob)
           | (Inr branches, ob) \<Rightarrow>
               let pinnedKeys = remdups (filter (\<lambda>k. k \<noteq> []) (map (be_AncestorCheckpointKey \<circ> snd) branches)) in
               (case ListRemote S ob of
                  (Inl e, ob) \<Rightarrow> ((0, [], Some e), ob)
                | (Inr keys, ob) \<Rightarrow>
                    if length keys \<le> keep then ((0, [], None), ob)
                    else
                      (case live_ssts S (drop (length keys - keep) keys) ob of
                         (live, ob) \<Rightarrow>
                           (case live_ssts S pinnedKeys ob of
                              (pinnedLive, ob) \<Rightarrow>
                                gc_delete_loop S
                                  ((case manifest of None \<Rightarrow> [] | Some m \<Rightarrow> [mf_CheckpointKey m]) @ pinnedKeys)
                                  (live @ pinnedLive) (take (length keys - keep) keys) 0 [] ob)))))"

definition GCOrphanSSTs :: "('o, 'm) store_scheme \<Rightarrow> gostring list \<Rightarrow> 'o \<Rightarrow> nat res \<times> 'o" where
  "GCOrphanSSTs S candidates ob =
     (if candidates = [] then (Inr 0, ob)
      else
        let keys = remdups candidates in
        case st_DeleteMany S keys ob of
          (Some e, ob) \<Rightarrow> (Inl e, ob)
        | (None, ob) \<Rightarrow> (Inr (length keys), ob))"

section \<open>Uploading SST files as they appear\<close>

record sst_uploader =
  su_pebbleDir :: gostring
  su_local :: "(gostring \<times> gostring) list"
  su_inherited :: "(gostring \<times> gostring) list"
  su_uploadC :: "gostring list"
  su_running :: "gostring list"
  su_pending :: nat
  su_stopped :: bool

definition NewSSTUploader :: "gostring \<Rightarrow> sst_uploader" where
  "NewSSTUploader pebbleDir = \<lparr>su_pebbleDir = pebbleDir, su_local = [], su_inherited = [], su_uploadC = [],
     su_running = [], su_pending = 0, su_stopped = False\<rparr>"

definition uploadOne :: "('o, 'm) store_scheme \<Rightarrow> gostring \<Rightarrow> sst_uploader \<Rightarrow> disk \<Rightarrow> 'o \<Rightarrow>
    goerr option \<times> sst_uploader \<times> disk \<times> 'o" where
  "uploadOne S path u d ob =
     (let name = path_base path in
      if map_of (su_local u) name \<noteq> None then (None, u, d, ob)
      else (case contentSSTKey path name d of
        (Inl e, d) \<Rightarrow> (if e = ErrNotExist then None else Some e, u, d, ob)
      | (Inr s3Key, d) \<Rightarrow>
          (case os_ReadFile path d of
             (Inl e, d) \<Rightarrow> (if e = ErrNotExist then None else Some e, u, d, ob)
           | (Inr b, d) \<Rightarrow>
               (case st_Put S s3Key b ob of
                  (Some e, ob) \<Rightarrow> (Some e, u, d, ob)
                | (None, ob) \<Rightarrow> (None, u\<lparr>su_local := AList.update name s3Key (su_local u)\<rparr>, d, ob)))))"

text \<open>The event handler for one table; the channel holds 512 paths, beyond which the upload is done in place.\<close>

definition queueTable :: "('o, 'm) store_scheme \<Rightarrow> gostring \<Rightarrow> sst_uploader \<Rightarrow> disk \<Rightarrow> 'o \<Rightarrow> sst_uploader \<times> disk \<times> 'o" where
  "queueTable S fileNum u d ob =
     (let path = path_join (su_pebbleDir u) (fileNum @ str ''.sst'') in
      if su_stopped u then (u, d, ob)
      else
        let u = u\<lparr>su_pending := su_pending u + 1\<rparr> in
        if length (su_uploadC u) < 512 then (u\<lparr>su_uploadC := su_uploadC u @ [path]\<rparr>, d, ob)
        else (case uploadOne S path u d ob of (_, u, d, ob) \<Rightarrow> (u\<lparr>su_pending := su_pending u - 1\<rparr>, d, ob)))"

definition SetInherited :: "(gostring \<times> gostring) list \<Rightarrow> sst_uploader \<Rightarrow> sst_uploader" where
  "SetInherited filenames u =
     u\<lparr>su_inherited := foldl (\<lambda>m f. AList.update (fst f) (snd f) m) (su_inherited u) filenames\<rparr>"

fun reconcile_loop :: "('o, 'm) store_scheme \<Rightarrow> gostring list \<Rightarrow> sst_uploader \<Rightarrow> disk \<Rightarrow> 'o \<Rightarrow>
    goerr option \<times> sst_uploader \<times> disk \<times> 'o" where
  "reconcile_loop S [] u d ob = (None, u, d, ob)"
| "reconcile_loop S (name # names) u d ob =
     (if \<not> HasSuffix name (str ''.sst'') then reconcile_loop S names u d ob
      else let path = path_join (su_pebbleDir u) name in
        case next_fault d of
          (Some _, d) \<Rightarrow> reconcile_loop S names u d ob
        | (None, d) \<Rightarrow>
            if content d path = None \<or> content d path = Some [] then reconcile_loop S names u d ob
            else if map_of (su_local u) name \<noteq> None \<or> map_of (su_inherited u) name \<noteq> None
            then reconcile_loop S names u d ob
            else (case uploadOne S path u d ob of
              (Some e, u, d, ob) \<Rightarrow> (Some e, u, d, ob)
            | (None, u, d, ob) \<Rightarrow> reconcile_loop S names u d ob))"

definition Reconcile :: "('o, 'm) store_scheme \<Rightarrow> sst_uploader \<Rightarrow> disk \<Rightarrow> 'o \<Rightarrow>
    goerr option \<times> sst_uploader \<times> disk \<times> 'o" where
  "Reconcile S u d ob =
     (case os_ReadDir (su_pebbleDir u) d of
        (Inl e, d) \<Rightarrow> (Some e, u, d, ob)
      | (Inr names, d) \<Rightarrow> reconcile_loop S names u d ob)"

text \<open>The goroutine of \<open>Start\<close>: it takes a path and starts an upload, and after cancellation marks the uploader
  stopped and takes what is left. A started upload runs and counts itself done.\<close>

definition start_take :: "sst_uploader \<Rightarrow> sst_uploader option" where
  "start_take u = (case su_uploadC u of
     [] \<Rightarrow> None
   | path # paths \<Rightarrow> Some (u\<lparr>su_uploadC := paths, su_running := su_running u @ [path]\<rparr>))"

definition start_stop :: "sst_uploader \<Rightarrow> sst_uploader" where
  "start_stop u = u\<lparr>su_stopped := True, su_uploadC := [], su_running := su_running u @ su_uploadC u\<rparr>"

definition upload_run :: "('o, 'm) store_scheme \<Rightarrow> nat \<Rightarrow> sst_uploader \<Rightarrow> disk \<Rightarrow> 'o \<Rightarrow> (sst_uploader \<times> disk \<times> 'o) option" where
  "upload_run S i u d ob =
     (if length (su_running u) \<le> i then None
      else (case uploadOne S (su_running u ! i) u d ob of (_, u', d', ob') \<Rightarrow>
        Some (u'\<lparr>su_running := take i (su_running u) @ drop (Suc i) (su_running u),
                 su_pending := su_pending u' - 1\<rparr>, d', ob')))"

text \<open>When \<open>Wait\<close> returns.\<close>

definition uploads_done :: "sst_uploader \<Rightarrow> bool" where
  "uploads_done u \<longleftrightarrow> su_pending u = 0"

definition Registry :: "sst_uploader \<Rightarrow> (gostring \<times> gostring) list" where
  "Registry u = su_local u"

definition InheritedRegistry :: "sst_uploader \<Rightarrow> (gostring \<times> gostring) list" where
  "InheritedRegistry u = su_inherited u"

section \<open>The records decode to themselves\<close>

lemma ascii_append [simp]: "ascii (s @ t) \<longleftrightarrow> ascii s \<and> ascii t"
  by (auto simp: ascii_def)

lemma ascii_fmt [simp]: "ascii (fmt_0u w n)" "ascii (fmt_0d w x)"
proof -
  have d: "c < 0x80" if "c \<le> 57" for c :: byte
    using that by (rule order.strict_trans1) simp
  show "ascii (fmt_0u w n)" using fmt_0u_chars d by (auto simp: ascii_def)
  show "ascii (fmt_0d w x)" using fmt_0d_chars [of _ w x] d by (fastforce simp: ascii_def)
qed

lemma ascii_hex [simp]: "ascii (hex_string bs)"
proof -
  have h: "hex_digit n < 0x80" if "n < 16" for n
  proof -
    have "n \<in> set [0..<16]" using that by simp
    moreover have "list_all (\<lambda>n. hex_digit n < 0x80) [0..<16]" by (simp add: upt_rec hex_digit_def)
    ultimately show ?thesis by (simp only: list_all_iff)
  qed
  have "unat b div 16 < 16" for b :: byte using unsigned_less [of b, where 'a = nat] by (simp add: less_mult_imp_div_less)
  then show ?thesis using h by (auto simp: ascii_def hex_string_def)
qed

lemma ascii_names [simp]:
  "ascii (str ''format_version'')" "ascii (str ''checkpoint_key'')" "ascii (str ''revision'')"
  "ascii (str ''last_sequence'')" "ascii (str ''last_wal_key'')" "ascii (str ''sst_files'')"
  "ascii (str ''ancestor_sst_files'')" "ascii (str ''pebble_meta'')" "ascii (str ''ancestor_checkpoint_key'')"
  "ascii (str ''checkpoint/'')" "ascii (str ''/'')" "ascii (str ''/manifest.json'')" "ascii (str ''sst/'')" "ascii []"
  by (simp_all add: ascii_def str_def)

lemma ascii_keys [simp]:
  "ascii (CheckpointKey t r)" "ascii (CheckpointIndexKey t r)" "ascii name \<Longrightarrow> ascii (sst_key c name)"
  by (simp_all add: CheckpointKey_def CheckpointIndexKey_def sst_key_def)

definition manifest_ok :: "Manifest \<Rightarrow> bool" where
  "manifest_ok m \<longleftrightarrow> mf_FormatVersion m < 2 ^ 32 \<and> ascii (mf_CheckpointKey m) \<and> is_i64 (mf_Revision m) \<and>
     is_i64 (mf_LastSequence m) \<and> mf_Term m < 2 ^ 64 \<and> ascii (mf_LastWALKey m)"

definition index_ok :: "CheckpointIndex \<Rightarrow> bool" where
  "index_ok i \<longleftrightarrow> ci_FormatVersion i < 2 ^ 32 \<and> ci_Term i < 2 ^ 64 \<and> is_i64 (ci_Revision i) \<and>
     is_i64 (ci_LastSequence i) \<and> (\<forall>k \<in> set (ci_SSTFiles i @ ci_AncestorSSTFiles i @ ci_PebbleMeta i). ascii k)"

lemma json_strs_JStr: "json_strs (map JStr xs) = Inr xs"
  by (induction xs) auto

lemma json_ok_slice: "json_ok (json_slice xs) \<longleftrightarrow> (\<forall>x \<in> set xs. ascii x)"
  by (auto simp: json_slice_def)

lemmas [json_simps] = field_uint32_def omit_uint_def omit_int_def json_slice_def json_strs_JStr

lemma decode_marshal_manifest: "manifest_ok m \<Longrightarrow> decodeManifest (marshalManifest m) = Inr m"
proof -
  assume m: "manifest_ok m"
  define fs where "fs = omit_uint (str ''format_version'') (mf_FormatVersion m) @
      [(str ''checkpoint_key'', JStr (mf_CheckpointKey m)), (str ''revision'', json_int (mf_Revision m))] @
      omit_int (str ''last_sequence'') (mf_LastSequence m) @
      [(str ''term'', JNum (fmt_0u 0 (mf_Term m)))] @
      (if mf_LastWALKey m = [] then [] else [(str ''last_wal_key'', JStr (mf_LastWALKey m))])"
  have "json_ok (JObj fs)" unfolding fs_def using m num_token_0u json_ok_int by (auto simp: manifest_ok_def omit_uint_def omit_int_def)
  from json_decode_print [OF this] have o: "json_object (marshalManifest m) = Inr fs"
    by (simp add: json_object_def marshalManifest_def fs_def)
  have f: "field_uint32 fs (str ''format_version'') = Inr (mf_FormatVersion m)"
    "field_str fs (str ''checkpoint_key'') = Inr (mf_CheckpointKey m)"
    "field_int fs (str ''revision'') = Inr (mf_Revision m)"
    "field_int fs (str ''last_sequence'') = Inr (mf_LastSequence m)"
    "field_uint fs (str ''term'') = Inr (mf_Term m)" "field_str fs (str ''last_wal_key'') = Inr (mf_LastWALKey m)"
    using m by (simp_all add: fs_def json_simps manifest_ok_def)
  show ?thesis by (simp add: decodeManifest_def o f)
qed

lemma decode_marshal_index: "index_ok i \<Longrightarrow> decodeIndex (marshalIndex i) = Inr i"
proof -
  assume i: "index_ok i"
  define fs where "fs = omit_uint (str ''format_version'') (ci_FormatVersion i) @
      [(str ''term'', JNum (fmt_0u 0 (ci_Term i))), (str ''revision'', json_int (ci_Revision i))] @
      omit_int (str ''last_sequence'') (ci_LastSequence i) @
      [(str ''sst_files'', json_slice (ci_SSTFiles i))] @
      (if ci_AncestorSSTFiles i = [] then [] else [(str ''ancestor_sst_files'', json_slice (ci_AncestorSSTFiles i))]) @
      [(str ''pebble_meta'', json_slice (ci_PebbleMeta i))]"
  have "json_ok (JObj fs)"
    unfolding fs_def using i num_token_0u json_ok_int json_ok_slice by (auto simp: index_ok_def omit_uint_def omit_int_def)
  from json_decode_print [OF this] have o: "json_object (marshalIndex i) = Inr fs"
    by (simp add: json_object_def marshalIndex_def fs_def)
  have f: "field_uint32 fs (str ''format_version'') = Inr (ci_FormatVersion i)"
    "field_uint fs (str ''term'') = Inr (ci_Term i)" "field_int fs (str ''revision'') = Inr (ci_Revision i)"
    "field_int fs (str ''last_sequence'') = Inr (ci_LastSequence i)"
    "field_strs fs (str ''sst_files'') = Inr (ci_SSTFiles i)"
    "field_strs fs (str ''ancestor_sst_files'') = Inr (ci_AncestorSSTFiles i)"
    "field_strs fs (str ''pebble_meta'') = Inr (ci_PebbleMeta i)"
    using i by (simp_all add: fs_def json_simps index_ok_def)
  show ?thesis by (simp add: decodeIndex_def o f)
qed

lemma decode_marshal_branch:
  assumes "ascii k"
  shows "decodeBranch (marshalBranch \<lparr>be_AncestorCheckpointKey = k\<rparr>) = Inr \<lparr>be_AncestorCheckpointKey = k\<rparr>"
proof -
  let ?fs = "[(str ''ancestor_checkpoint_key'', JStr k)]"
  have "json_ok (JObj ?fs)" using assms by simp
  from json_decode_print [OF this] have "json_object (marshalBranch \<lparr>be_AncestorCheckpointKey = k\<rparr>) = Inr ?fs"
    by (simp add: json_object_def marshalBranch_def)
  moreover have "field_str ?fs (str ''ancestor_checkpoint_key'') = Inr k" by (simp add: json_simps)
  ultimately show ?thesis by (simp add: decodeBranch_def)
qed

end
