(* ===== verification/Checkpoint_Write.thy ===== *)
theory Checkpoint_Write
  imports Checkpoint
begin

text \<open>
  What writing a checkpoint does to the objects. A writer's \<open>ckpt_write\<close> is its term, revision, sequence and the
  files of Pebble's checkpoint; \<open>written\<close> says that its files are stored before the index, and the index before
  the manifest, whatever fails. Both writers of \<open>src/internal/checkpoint/checkpoint.go\<close> are shown to do this.
\<close>

section \<open>Attempts and their objects\<close>

record ckpt_write =
  at_term :: nat
  at_rev :: int
  at_seq :: int
  at_wal :: gostring
  at_files :: "(gostring \<times> bytes) list"

definition is_sst :: "gostring \<Rightarrow> bool" where
  "is_sst name \<longleftrightarrow> HasSuffix name (str ''.sst'')"

definition index_key :: "ckpt_write \<Rightarrow> gostring" where
  "index_key a = CheckpointIndexKey (at_term a) (at_rev a)"

definition index_of :: "ckpt_write \<Rightarrow> CheckpointIndex" where
  "index_of a = \<lparr>ci_FormatVersion = CheckpointFormatVersion, ci_Term = at_term a, ci_Revision = at_rev a,
     ci_LastSequence = at_seq a, ci_SSTFiles = map (\<lambda>f. sst_key (snd f) (fst f)) (filter (is_sst \<circ> fst) (at_files a)),
     ci_AncestorSSTFiles = [], ci_PebbleMeta = map fst (filter (Not \<circ> is_sst \<circ> fst) (at_files a))\<rparr>"

definition manifest_of :: "ckpt_write \<Rightarrow> Manifest" where
  "manifest_of a = \<lparr>mf_FormatVersion = CheckpointFormatVersion, mf_CheckpointKey = index_key a,
     mf_Revision = at_rev a, mf_LastSequence = at_seq a, mf_Term = at_term a, mf_LastWALKey = at_wal a\<rparr>"

definition obj_key :: "ckpt_write \<Rightarrow> gostring \<times> bytes \<Rightarrow> gostring" where
  "obj_key a f = (if is_sst (fst f) then sst_key (snd f) (fst f) else meta_object (at_term a) (at_rev a) (fst f))"

definition stored :: "ckpt_write \<Rightarrow> (gostring \<rightharpoonup> bytes) \<Rightarrow> gostring \<times> bytes \<Rightarrow> bool" where
  "stored a A f \<longleftrightarrow> A (obj_key a f) = Some (snd f)"

definition intact :: "ckpt_write \<Rightarrow> (gostring \<rightharpoonup> bytes) \<Rightarrow> bool" where
  "intact a A \<longleftrightarrow> A (index_key a) = Some (marshalIndex (index_of a)) \<and> (\<forall>f \<in> set (at_files a). stored a A f)"

text \<open>Names of files in a Pebble directory.\<close>

definition file_name :: "gostring \<Rightarrow> bool" where
  "file_name n \<longleftrightarrow> n \<noteq> [] \<and> 47 \<notin> set n \<and> ascii n \<and> n \<noteq> str ''manifest.json''"

definition attempt_ok :: "ckpt_write \<Rightarrow> bool" where
  "attempt_ok a \<longleftrightarrow> at_term a < 10 ^ 10 \<and> 0 \<le> at_rev a \<and> is_i64 (at_rev a) \<and> is_i64 (at_seq a) \<and> at_seq a \<noteq> 0 \<and>
     ascii (at_wal a) \<and> sorted_wrt (<) (map fst (at_files a)) \<and> (\<forall>f \<in> set (at_files a). file_name (fst f))"

text \<open>Different contents do not share a key among the files that occur.\<close>

definition collision_free :: "(gostring \<times> bytes) set \<Rightarrow> bool" where
  "collision_free U \<longleftrightarrow> (\<forall>f \<in> U. \<forall>g \<in> U. sst_key (snd f) (fst f) = sst_key (snd g) (fst g) \<longrightarrow> snd f = snd g)"

definition newer :: "ckpt_write \<Rightarrow> ckpt_write \<Rightarrow> bool" where
  "newer a b \<longleftrightarrow> at_term a < at_term b \<or> at_term a = at_term b \<and> at_rev a < at_rev b"

subsection \<open>Keys\<close>

lemma key_prefixes [simp]:
  "HasPrefix (sst_key c n) (str ''sst/'')" "\<not> HasPrefix (sst_key c n) (str ''checkpoint/'')"
  "HasPrefix (meta_object t r n) (str ''checkpoint/'')" "HasPrefix (index_key a) (str ''checkpoint/'')"
  "\<not> HasPrefix ManifestKey (str ''checkpoint/'')" "\<not> HasPrefix ManifestKey (str ''sst/'')"
  "\<not> HasPrefix (branchKey i) (str ''checkpoint/'')" "\<not> HasPrefix (branchKey i) (str ''sst/'')"
  "HasPrefix (branchKey i) (str ''branches/'')" "\<not> HasPrefix ManifestKey (str ''branches/'')"
  "\<not> HasPrefix (meta_object t r n) (str ''sst/'')" "\<not> HasPrefix (index_key a) (str ''sst/'')"
  "\<not> HasPrefix (sst_key c n) (str ''branches/'')" "\<not> HasPrefix (meta_object t r n) (str ''branches/'')"
  "\<not> HasPrefix (index_key a) (str ''branches/'')"
  by (simp_all add: HasPrefix_def sst_key_def meta_object_def CheckpointKey_def CheckpointIndexKey_def index_key_def
      ManifestKey_def branchKey_def str_def)

lemma key_distinct:
  assumes "HasPrefix k p" and "\<not> HasPrefix k' p"
  shows "k \<noteq> k'"
  using assms by auto

lemma length_CheckpointKey:
  assumes "t < 10 ^ 10" "0 \<le> r" "is_i64 r"
  shows "length (CheckpointKey t r) = 42"
proof -
  have "nat r < 10 ^ 20" using assms by (simp add: is_i64_def nat_less_iff)
  with assms show ?thesis by (simp add: CheckpointKey_def fmt_0d_def fmt_0u_width)
qed

lemma CheckpointKey_less:
  assumes "t < 10 ^ 10" "t' < 10 ^ 10" "0 \<le> r" "0 \<le> r'" "is_i64 r" "is_i64 r'"
  shows "CheckpointKey t r @ x < CheckpointKey t' r' @ y \<longleftrightarrow> t < t' \<or> t = t' \<and> (r < r' \<or> r = r' \<and> x < y)"
proof -
  have b: "nat r < 10 ^ 20" "nat r' < 10 ^ 20" using assms by (simp_all add: is_i64_def nat_less_iff)
  from assms b show ?thesis
    by (auto simp add: CheckpointKey_def fmt_0d_def fmt_0u_width append_less_append put_dec_less_iff put_dec_inject
        nat_less_eq_zless str_def simp del: zless_nat_conj)
qed

lemma CheckpointKey_eq:
  assumes "attempt_ok a" "attempt_ok b"
    and "CheckpointKey (at_term a) (at_rev a) @ x = CheckpointKey (at_term b) (at_rev b) @ y"
  shows "at_term a = at_term b \<and> at_rev a = at_rev b \<and> x = y"
proof -
  note b = assms(1,2) [unfolded attempt_ok_def]
  have "\<not> CheckpointKey (at_term a) (at_rev a) @ x < CheckpointKey (at_term b) (at_rev b) @ y"
    "\<not> CheckpointKey (at_term b) (at_rev b) @ y < CheckpointKey (at_term a) (at_rev a) @ x"
    using assms(3) by simp_all
  then have "\<not> (at_term a < at_term b \<or> at_term a = at_term b \<and> (at_rev a < at_rev b \<or> at_rev a = at_rev b \<and> x < y))"
    "\<not> (at_term b < at_term a \<or> at_term b = at_term a \<and> (at_rev b < at_rev a \<or> at_rev b = at_rev a \<and> y < x))"
    using CheckpointKey_less [of "at_term a" "at_term b" "at_rev a" "at_rev b" x y]
      CheckpointKey_less [of "at_term b" "at_term a" "at_rev b" "at_rev a" y x] b by blast+
  then show ?thesis by (meson linorder_less_linear)
qed

lemma index_key_less:
  assumes "attempt_ok a" "attempt_ok b"
  shows "index_key a < index_key b \<longleftrightarrow> newer a b"
  using CheckpointKey_less [of "at_term a" "at_term b" "at_rev a" "at_rev b"] assms
  by (simp add: index_key_def CheckpointIndexKey_def newer_def attempt_ok_def)

lemma newer_not_eq: "newer a b \<Longrightarrow> at_term a \<noteq> at_term b \<or> at_rev a \<noteq> at_rev b"
  by (auto simp: newer_def)

lemma obj_key_inj:
  assumes "attempt_ok a" "collision_free U" "set (at_files a) \<subseteq> U" "f \<in> set (at_files a)" "g \<in> set (at_files a)"
    and "obj_key a f = obj_key a g"
  shows "snd f = snd g"
proof (cases "is_sst (fst f) \<longleftrightarrow> is_sst (fst g)")
  case True
  have "distinct (map fst (at_files a))" using assms(1) by (simp add: attempt_ok_def strict_sorted_iff)
  then have "fst f = fst g \<Longrightarrow> f = g" using assms(4,5) by (metis eq_key_imp_eq_value prod.collapse)
  moreover have "fst f = fst g" if "\<not> is_sst (fst f)"
    using assms(6) True that by (simp add: obj_key_def meta_object_def)
  moreover have "snd f = snd g" if "is_sst (fst f)"
    using assms(2-6) True that by (auto simp: obj_key_def collision_free_def)
  ultimately show ?thesis by blast
next
  case False
  then show ?thesis using assms(6) key_distinct [OF key_prefixes(3) key_prefixes(2)]
    by (auto simp: obj_key_def split: if_splits) metis+
qed

lemma dir_prefix_index: "dir_prefix (index_key a) = CheckpointKey (at_term a) (at_rev a) @ [47]"
proof -
  have s: "str ''/manifest.json'' = 47 # str ''manifest.json''" "str ''manifest.json'' = map of_char ''manifest.json''"
    by (simp_all add: str_def)
  have "dropWhile (\<lambda>c. c \<noteq> 47) (rev (str ''manifest.json'') @ 47 # xs) = 47 # xs" for xs :: "byte list"
    by (simp add: str_def)
  then show ?thesis by (simp add: dir_prefix_def index_key_def CheckpointIndexKey_def s(1))
qed

lemma under_dir_prefix:
  assumes "attempt_ok a" "attempt_ok b" "HasPrefix (CheckpointKey (at_term b) (at_rev b) @ x) (dir_prefix (index_key a))"
  shows "at_term a = at_term b \<and> at_rev a = at_rev b"
proof -
  obtain y where "CheckpointKey (at_term b) (at_rev b) @ x = (CheckpointKey (at_term a) (at_rev a) @ [47]) @ y"
    using assms(3) by (auto simp: dir_prefix_index HasPrefix_iff prefix_def)
  with CheckpointKey_eq [OF assms(2,1), of x "47 # y"] show ?thesis by simp
qed

lemma path_base_slash: "47 \<notin> set n \<Longrightarrow> path_base (p @ 47 # n) = n"
proof -
  assume "47 \<notin> set n"
  then have "takeWhile (\<lambda>c. c \<noteq> 47) (rev n @ 47 # rev p) = rev n" by (subst takeWhile_append2) auto
  then show ?thesis by (simp add: path_base_def)
qed

lemma sst_key_base: "47 \<notin> set n \<Longrightarrow> path_base (sst_key c n) = n"
  using path_base_slash [of n "str ''sst/'' @ hex_string (take 8 (sha256_sum c))"] by (simp add: sst_key_def str_def)

lemma manifest_suffix:
  assumes "file_name n"
  shows "\<not> HasSuffix (meta_object t r n) (str ''/manifest.json'')"
proof
  assume "HasSuffix (meta_object t r n) (str ''/manifest.json'')"
  then obtain p where p: "meta_object t r n = p @ 47 # str ''manifest.json''"
    by (auto simp: HasSuffix_def str_def) (metis append_take_drop_id)
  have "path_base (meta_object t r n) = n"
    using path_base_slash [of n "CheckpointKey t r"] assms by (simp add: meta_object_def file_name_def str_def)
  moreover have "path_base (p @ 47 # str ''manifest.json'') = str ''manifest.json''"
    by (rule path_base_slash) (simp add: str_def)
  ultimately show False using assms p by (simp add: file_name_def)
qed

section \<open>Walking the checkpoint directory\<close>

text \<open>What Pebble's \<open>Checkpoint\<close> does: it makes the directory, holding exactly the files.\<close>

definition makes_checkpoint :: "(gostring \<Rightarrow> disk \<Rightarrow> goerr option \<times> disk) \<Rightarrow> (gostring \<times> bytes) list \<Rightarrow> bool" where
  "makes_checkpoint ckpt fs \<longleftrightarrow> (\<forall>dir d d'. ckpt dir d = (None, d') \<longrightarrow>
     dir \<in> set (d_dirs d') \<and> (\<forall>n. 47 \<notin> set n \<longrightarrow> content d' (path_join dir n) = map_of fs n))"

lemma os_ReadFile_frame: "os_ReadFile p d = (r, d') \<Longrightarrow> content d' = content d"
  by (auto simp: os_ReadFile_def split: prod.splits option.splits dest: next_fault_frame)

lemma os_ReadFile_Inr: "os_ReadFile p d = (Inr b, d') \<Longrightarrow> content d p = Some b"
  by (auto simp: os_ReadFile_def split: prod.splits option.splits dest: next_fault_frame)

lemma os_ReadDir_files:
  assumes "os_ReadDir dir d = (Inr names, d')"
  shows "content d' = content d" and "sorted names \<and> distinct names"
    and "set names = {n. 47 \<notin> set n \<and> content d (path_join dir n) \<noteq> None}"
proof -
  obtain d1 where n: "next_fault d = (None, d1)" "d' = d1"
    and names: "names = sort (remdups (filter (\<lambda>n. 47 \<notin> set n)
      (map (drop (length dir + 1)) (filter (\<lambda>p. HasPrefix p (path_join dir [])) (map fst (d_files d1))))))"
    using assms by (auto simp: os_ReadDir_def split: prod.splits option.splits if_splits)
  note fr = next_fault_frame [OF n(1)]
  show "content d' = content d" using fr n by simp
  show "sorted names \<and> distinct names" using names by simp
  have c: "content d (path_join dir x) \<noteq> None \<longleftrightarrow> path_join dir x \<in> fst ` set (d_files d1)" for x
    using fr by (simp add: content_def map_of_eq_None_iff)
  have "set names = {x. 47 \<notin> set x \<and> path_join dir x \<in> fst ` set (d_files d1)}" (is "_ = ?R")
  proof (intro equalityI subsetI)
    fix x assume "x \<in> set names"
    then show "x \<in> ?R" by (force simp: names HasPrefix_iff prefix_def path_join_def)
  next
    fix x assume x: "x \<in> ?R"
    then have "drop (length dir + 1) (path_join dir x) = x" "HasPrefix (path_join dir x) (path_join dir [])"
      by (simp_all add: path_join_def HasPrefix_def)
    with x have "x \<in> drop (length dir + 1) ` {p \<in> fst ` set (d_files d1). HasPrefix p (path_join dir [])}"
      by (metis (mono_tags, lifting) image_eqI mem_Collect_eq)
    with x show "x \<in> set names" by (simp add: names)
  qed
  with c show "set names = {n. 47 \<notin> set n \<and> content d (path_join dir n) \<noteq> None}" by simp
qed

text \<open>The only objects a walk can change are those of its files, which then hold their content.\<close>

definition grows :: "ckpt_write \<Rightarrow> (gostring \<times> bytes) set \<Rightarrow> (gostring \<rightharpoonup> bytes) \<Rightarrow> (gostring \<rightharpoonup> bytes) \<Rightarrow> bool" where
  "grows a F A A' \<longleftrightarrow> (\<forall>k. A' k = A k \<or> (\<exists>f \<in> F. k = obj_key a f \<and> A' k = Some (snd f)))"

lemma grows_refl [simp]: "grows a F A A"
  by (simp add: grows_def)

lemma grows_trans: "grows a F A B \<Longrightarrow> grows a G B C \<Longrightarrow> grows a (F \<union> G) A C"
  unfolding grows_def by (metis UnI1 UnI2)

lemma grows_mono: "grows a F A B \<Longrightarrow> F \<subseteq> G \<Longrightarrow> grows a G A B"
  by (fastforce simp: grows_def)

lemma grows_put: "A' = A \<or> A' = A(obj_key a f \<mapsto> snd f) \<Longrightarrow> grows a {f} A A'"
  by (auto simp: grows_def split: if_splits)

lemma grows_stored:
  assumes "attempt_ok a" "set (at_files a) \<subseteq> U" "collision_free U"
    and "grows a F A A'" "F \<subseteq> set (at_files a)" "f \<in> set (at_files a)" "stored a A f"
  shows "stored a A' f"
proof -
  from assms(4) have "A' (obj_key a f) = A (obj_key a f) \<or> (\<exists>g \<in> F. obj_key a f = obj_key a g \<and> A' (obj_key a f) = Some (snd g))"
    unfolding grows_def by blast
  then show ?thesis
  proof (elim disjE bexE conjE)
    fix g assume g: "g \<in> F" "obj_key a f = obj_key a g" "A' (obj_key a f) = Some (snd g)"
    from obj_key_inj [OF assms(1,3,2,6) subsetD [OF assms(5) g(1)] g(2)] g(3) show ?thesis by (simp add: stored_def)
  qed (use assms(7) in \<open>simp add: stored_def\<close>)
qed

definition recorded :: "gostring \<times> bytes \<Rightarrow> upfile" where
  "recorded f = (if is_sst (fst f) then SstFile (sst_key (snd f) (fst f)) else MetaFile (fst f))"

lemma recorded_files:
  "sst_files (map recorded fs) = map (\<lambda>f. sst_key (snd f) (fst f)) (filter (is_sst \<circ> fst) fs)"
  "anc_files (map recorded fs) = []"
  "meta_files (map recorded fs) = map fst (filter (Not \<circ> is_sst \<circ> fst) fs)"
  by (induction fs) (auto simp: recorded_def)

text \<open>A visit that records its file and leaves it stored, given that the files \<open>K\<close> are stored already.\<close>

definition good_visit :: "('o \<Rightarrow> gostring \<rightharpoonup> bytes) \<Rightarrow> ckpt_write \<Rightarrow> (gostring \<times> bytes) set \<Rightarrow> gostring \<Rightarrow>
    (gostring \<Rightarrow> disk \<Rightarrow> 'o \<Rightarrow> upfile res \<times> disk \<times> 'o) \<Rightarrow> bool" where
  "good_visit A a K dir visit \<longleftrightarrow> (\<forall>f \<in> set (at_files a). \<forall>d ob r d' ob'.
     content d (path_join dir (fst f)) = Some (snd f) \<longrightarrow> (\<forall>g \<in> K. stored a (A ob) g) \<longrightarrow>
     visit (fst f) d ob = (r, d', ob') \<longrightarrow>
     content d' = content d \<and> grows a {f} (A ob) (A ob') \<and> (\<forall>u. r = Inr u \<longrightarrow> u = recorded f \<and> stored a (A ob') f))"

lemma good_visitD:
  assumes "good_visit A a K dir visit" "f \<in> set (at_files a)" "content d (path_join dir (fst f)) = Some (snd f)"
    "\<forall>g \<in> K. stored a (A ob) g" "visit (fst f) d ob = (r, d', ob')"
  shows "content d' = content d" "grows a {f} (A ob) (A ob')" "\<forall>u. r = Inr u \<longrightarrow> u = recorded f \<and> stored a (A ob') f"
  using assms unfolding good_visit_def by blast+

lemma contentSSTKey_eq:
  assumes "contentSSTKey p n d = (r, d')" "content d p = Some b"
  shows "content d' = content d" "r = Inr k \<Longrightarrow> k = sst_key b n"
  using assms by (auto simp: contentSSTKey_def split: prod.splits sum.splits dest: os_ReadFile_frame os_ReadFile_Inr)

context object_store
begin

lemma put_file_effect:
  assumes "put_file S k p u d ob = (r, d', ob')" "content d p = Some b"
  shows "content d' = content d" "abs ob' = abs ob \<or> abs ob' = (abs ob)(k \<mapsto> b)"
    "\<forall>v. r = Inr v \<longrightarrow> v = u \<and> abs ob' k = Some b"
proof -
  obtain x d1 where rd: "os_ReadFile p d = (x, d1)" by (cases "os_ReadFile p d")
  note fr = os_ReadFile_frame [OF rd]
  have "content d' = content d \<and> (abs ob' = abs ob \<or> abs ob' = (abs ob)(k \<mapsto> b)) \<and>
      (\<forall>v. r = Inr v \<longrightarrow> v = u \<and> abs ob' k = Some b)"
  proof (cases x)
    case (Inl e)
    with assms(1) rd fr show ?thesis by (auto simp: put_file_def)
  next
    case (Inr c)
    with os_ReadFile_Inr rd assms(2) have c: "c = b" by fastforce
    obtain e ob1 where p: "st_Put S k b ob = (e, ob1)" by (cases "st_Put S k b ob")
    show ?thesis
    proof (cases e)
      case None
      with assms(1) rd Inr c p have "r = Inr u" "d' = d1" "ob' = ob1" by (simp_all add: put_file_def)
      with fr Put_ok p None show ?thesis by simp
    next
      case (Some x)
      with assms(1) rd Inr c p have "r = Inl x" "d' = d1" "ob' = ob1" by (simp_all add: put_file_def)
      with fr Put_err p Some show ?thesis by simp
    qed
  qed
  then show "content d' = content d" "abs ob' = abs ob \<or> abs ob' = (abs ob)(k \<mapsto> b)"
    "\<forall>v. r = Inr v \<longrightarrow> v = u \<and> abs ob' k = Some b" by blast+
qed

lemma put_good:
  assumes "put_file S (obj_key a f) p u d ob = (r, d', ob')" "content d p = Some (snd f)" "u = recorded f"
  shows "content d' = content d \<and> grows a {f} (abs ob) (abs ob') \<and>
    (\<forall>v. r = Inr v \<longrightarrow> v = recorded f \<and> stored a (abs ob') f)"
  using put_file_effect [OF assms(1,2)] assms(3) grows_put [of "abs ob'" "abs ob" a f] by (simp add: stored_def)

lemma write_file_good:
  assumes "\<forall>f \<in> set (at_files a). is_sst (fst f) \<and> sst_key (snd f) (fst f) \<in> set loc \<longrightarrow> f \<in> K"
  shows "good_visit abs a K dir (write_file S loc [] (at_term a) (at_rev a) dir)"
  unfolding good_visit_def
proof (intro ballI allI impI)
  fix f d ob r d' ob'
  assume f: "f \<in> set (at_files a)" and c: "content d (path_join dir (fst f)) = Some (snd f)"
    and K: "\<forall>g \<in> K. stored a (abs ob) g" and v: "write_file S loc [] (at_term a) (at_rev a) dir (fst f) d ob = (r, d', ob')"
  show "content d' = content d \<and> grows a {f} (abs ob) (abs ob') \<and> (\<forall>u. r = Inr u \<longrightarrow> u = recorded f \<and> stored a (abs ob') f)"
  proof (cases "is_sst (fst f)")
    case False
    then have "put_file S (obj_key a f) (path_join dir (fst f)) (recorded f) d ob = (r, d', ob')"
      using v by (simp add: write_file_def is_sst_def obj_key_def recorded_def Let_def)
    from put_good [OF this c] show ?thesis by simp
  next
    case s: True
    obtain x d1 where h: "contentSSTKey (path_join dir (fst f)) (fst f) d = (x, d1)"
      by (cases "contentSSTKey (path_join dir (fst f)) (fst f) d")
    note hc = contentSSTKey_eq [OF h c]
    show ?thesis
    proof (cases x)
      case (Inl e)
      with v s h hc(1) show ?thesis by (auto simp: write_file_def is_sst_def Let_def)
    next
      case (Inr k)
      with hc(2) have k: "k = obj_key a f" using s by (simp add: obj_key_def)
      have rk: "recorded f = SstFile k" using s k by (simp add: recorded_def obj_key_def)
      show ?thesis
      proof (cases "k \<in> set loc")
        case True
        then have "f \<in> K" using assms f s k by (simp add: obj_key_def)
        moreover have "r = Inr (recorded f)" "d' = d1" "ob' = ob" using v s h Inr True rk by (simp_all add: write_file_def is_sst_def Let_def)
        ultimately show ?thesis using K hc(1) by simp
      next
        case False
        then have "put_file S (obj_key a f) (path_join dir (fst f)) (recorded f) d1 ob = (r, d', ob')"
          using v s h Inr k rk by (simp add: write_file_def is_sst_def Let_def)
        from put_good [OF this] c hc(1) show ?thesis by simp
      qed
    qed
  qed
qed

lemma write_registry_good:
  assumes "\<forall>f \<in> set (at_files a). \<forall>k. is_sst (fst f) \<and> map_of reg (fst f) = Some k \<longrightarrow> f \<in> K \<and> k = sst_key (snd f) (fst f)"
  shows "good_visit abs a K dir (write_file_registry S reg [] (at_term a) (at_rev a) dir)"
  unfolding good_visit_def
proof (intro ballI allI impI)
  fix f d ob r d' ob'
  assume f: "f \<in> set (at_files a)" and c: "content d (path_join dir (fst f)) = Some (snd f)"
    and K: "\<forall>g \<in> K. stored a (abs ob) g"
    and v: "write_file_registry S reg [] (at_term a) (at_rev a) dir (fst f) d ob = (r, d', ob')"
  show "content d' = content d \<and> grows a {f} (abs ob) (abs ob') \<and> (\<forall>u. r = Inr u \<longrightarrow> u = recorded f \<and> stored a (abs ob') f)"
  proof (cases "is_sst (fst f)")
    case False
    then have "put_file S (obj_key a f) (path_join dir (fst f)) (recorded f) d ob = (r, d', ob')"
      using v by (simp add: write_file_registry_def is_sst_def obj_key_def recorded_def Let_def)
    from put_good [OF this c] show ?thesis by simp
  next
    case s: True
    show ?thesis
    proof (cases "map_of reg (fst f)")
      case (Some k)
      then have "f \<in> K" "k = sst_key (snd f) (fst f)" using assms f s by auto
      moreover have "r = Inr (SstFile k)" "d' = d" "ob' = ob"
        using v s Some by (simp_all add: write_file_registry_def is_sst_def Let_def)
      ultimately show ?thesis using K s by (simp add: recorded_def)
    next
      case None
      obtain x d1 where h: "contentSSTKey (path_join dir (fst f)) (fst f) d = (x, d1)"
        by (cases "contentSSTKey (path_join dir (fst f)) (fst f) d")
      note hc = contentSSTKey_eq [OF h c]
      show ?thesis
      proof (cases x)
        case (Inl e)
        with v s h hc(1) None show ?thesis by (auto simp: write_file_registry_def is_sst_def Let_def)
      next
        case (Inr k)
        with hc(2) have "k = obj_key a f" "recorded f = SstFile k" using s by (simp_all add: obj_key_def recorded_def)
        with v s h Inr None have "put_file S (obj_key a f) (path_join dir (fst f)) (recorded f) d1 ob = (r, d', ob')"
          by (simp add: write_file_registry_def is_sst_def Let_def)
        from put_good [OF this] c hc(1) show ?thesis by simp
      qed
    qed
  qed
qed

end

lemma walk_good:
  assumes a: "attempt_ok a" "set (at_files a) \<subseteq> U" "collision_free U"
    and v: "good_visit A a K dir visit" and K: "K \<subseteq> set (at_files a)"
    and fs: "set fs \<subseteq> set (at_files a)"
    and c: "\<forall>f \<in> set (at_files a). content d (path_join dir (fst f)) = Some (snd f)"
    and k: "\<forall>g \<in> K. stored a (A ob) g"
    and w: "walk_files visit (map fst fs) d ob = (r, d', ob')"
  shows "content d' = content d \<and> grows a (set fs) (A ob) (A ob') \<and>
    (\<forall>us. r = Inr us \<longrightarrow> us = map recorded fs \<and> (\<forall>f \<in> set fs. stored a (A ob') f))"
  using fs c k w
proof (induction fs arbitrary: d ob r d' ob')
  case Nil
  then show ?case by auto
next
  case (Cons f fs)
  obtain x d1 ob1 where s: "visit (fst f) d ob = (x, d1, ob1)" by (cases "visit (fst f) d ob")
  have f: "f \<in> set (at_files a)" using Cons.prems(1) by simp
  note g = good_visitD [OF v f bspec [OF Cons.prems(2) f] Cons.prems(3) s]
  have fsub: "{f} \<subseteq> set (at_files a)" using f by simp
  show ?case
  proof (cases x)
    case (Inl e)
    with Cons.prems(4) s have "r = Inl e" "d' = d1" "ob' = ob1" by simp_all
    with g(1,2) show ?thesis using grows_mono [of a "{f}" "A ob" "A ob'" "set (f # fs)"] by auto
  next
    case (Inr u)
    obtain y d2 ob2 where w2: "walk_files visit (map fst fs) d1 ob1 = (y, d2, ob2)" by (cases "walk_files visit (map fst fs) d1 ob1")
    have st: "stored a (A ob1) f" "u = recorded f" using g(3) Inr by auto
    have "\<forall>g \<in> K. stored a (A ob1) g"
      using grows_stored [OF a g(2) fsub] K Cons.prems(3) by blast
    moreover have "\<forall>f \<in> set (at_files a). content d1 (path_join dir (fst f)) = Some (snd f)"
      using Cons.prems(2) g(1) by simp
    ultimately have IH: "content d2 = content d1" "grows a (set fs) (A ob1) (A ob2)"
      "\<forall>us. y = Inr us \<longrightarrow> us = map recorded fs \<and> (\<forall>f \<in> set fs. stored a (A ob2) f)"
      using Cons.IH [OF _ _ _ w2] Cons.prems(1) by auto
    have res: "d' = d2" "ob' = ob2" "r = (case y of Inl e \<Rightarrow> Inl e | Inr us \<Rightarrow> Inr (u # us))"
      using Cons.prems(4) s Inr w2 by (auto split: sum.splits)
    have "stored a (A ob2) f" using grows_stored [OF a IH(2)] Cons.prems(1) f st by simp
    moreover have "grows a (set (f # fs)) (A ob) (A ob2)" using grows_trans [OF g(2) IH(2)] by simp
    ultimately show ?thesis using IH(1,3) g(1) res st(2) by (auto split: sum.splits)
  qed
qed

text \<open>What a write can have done to the objects: some of the files are stored; once all of them are, the index,
  and then the manifest, may have followed.\<close>

definition complete :: "ckpt_write \<Rightarrow> (gostring \<rightharpoonup> bytes) \<Rightarrow> (gostring \<rightharpoonup> bytes)" where
  "complete a A = A(index_key a \<mapsto> marshalIndex (index_of a), ManifestKey \<mapsto> marshalManifest (manifest_of a))"

definition written :: "ckpt_write \<Rightarrow> bool \<Rightarrow> (gostring \<rightharpoonup> bytes) \<Rightarrow> (gostring \<rightharpoonup> bytes) \<Rightarrow> bool" where
  "written a ok A A' \<longleftrightarrow> (\<exists>A1. grows a (set (at_files a)) A A1 \<and>
     (\<not> ok \<and> A' = A1 \<or>
      (\<forall>f \<in> set (at_files a). stored a A1 f) \<and>
      (\<not> ok \<and> A' = A1(index_key a \<mapsto> marshalIndex (index_of a)) \<or> A' = complete a A1)))"

lemma written_refl: "written a False A A"
  unfolding written_def by (intro exI [of _ A]) simp

context object_store
begin

lemma writeIndex_effect:
  assumes "writeIndex S (at_term a) (at_rev a) (at_seq a) (at_wal a) (ci_SSTFiles (index_of a)) [] (ci_PebbleMeta (index_of a)) ob = (e, ob')"
  shows "abs ob' = abs ob \<and> e \<noteq> None \<or> abs ob' = (abs ob)(index_key a \<mapsto> marshalIndex (index_of a)) \<and> e \<noteq> None \<or>
    abs ob' = complete a (abs ob)"
proof -
  let ?b = "marshalIndex (index_of a)"
  obtain x ob1 where p: "st_Put S (index_key a) ?b ob = (x, ob1)" by (cases "st_Put S (index_key a) ?b ob")
  have w: "(case x of Some y \<Rightarrow> (Some y, ob1) | None \<Rightarrow> st_Put S ManifestKey (marshalManifest (manifest_of a)) ob1) = (e, ob')"
    using assms p
    by (auto simp: writeIndex_def index_of_def index_key_def manifest_of_def WriteManifest_def Let_def
        split: option.splits prod.splits)
  show ?thesis
  proof (cases x)
    case (Some y)
    with w have e: "e \<noteq> None" "ob' = ob1" by auto
    from Put_err [OF p [unfolded Some]] e show ?thesis by blast
  next
    case None
    with Put_ok p have "abs ob1 = (abs ob)(index_key a \<mapsto> ?b)" by simp
    with None w show ?thesis
      using Put_ok [of ManifestKey _ ob1 ob'] Put_err [of ManifestKey _ ob1 _ ob'] by (cases e) (auto simp: complete_def)
  qed
qed

lemma walk_written:
  assumes a: "attempt_ok a" "set (at_files a) \<subseteq> U" "collision_free U"
    and v: "good_visit abs a K dir visit" and K: "K \<subseteq> set (at_files a)" "\<forall>g \<in> K. stored a (abs ob) g"
    and c: "\<forall>n. 47 \<notin> set n \<longrightarrow> content d (path_join dir n) = map_of (at_files a) n"
    and w: "write_index_of S (at_term a) (at_rev a) (at_seq a) (at_wal a) (filepath_Walk dir visit d ob) = (e, d', ob')"
  shows "written a (e = None) (abs ob) (abs ob')"
proof -
  obtain x d1 where rd: "os_ReadDir dir d = (x, d1)" by (cases "os_ReadDir dir d")
  show ?thesis
  proof (cases x)
    case (Inl y)
    with w rd show ?thesis using written_refl by (auto simp: write_index_of_def filepath_Walk_def)
  next
    case (Inr names)
    note dir = os_ReadDir_files [OF rd [unfolded Inr]]
    have dis: "distinct (map fst (at_files a))" "sorted (map fst (at_files a))"
      and nm: "\<forall>f \<in> set (at_files a). 47 \<notin> set (fst f)"
      using a(1) by (auto simp: attempt_ok_def strict_sorted_iff file_name_def)
    have "set names = set (map fst (at_files a))"
    proof (intro equalityI subsetI)
      fix n assume "n \<in> set names"
      then have "map_of (at_files a) n \<noteq> None" using dir(3) c by auto
      then show "n \<in> set (map fst (at_files a))" by (simp add: map_of_eq_None_iff)
    next
      fix n assume "n \<in> set (map fst (at_files a))"
      moreover from this have "47 \<notin> set n" using nm by auto
      ultimately have "47 \<notin> set n" "map_of (at_files a) n \<noteq> None" by (simp_all add: map_of_eq_None_iff)
      then show "n \<in> set names" using dir(3) c by simp
    qed
    then have names: "names = map fst (at_files a)"
      using dir(2) dis by (intro sorted_distinct_set_unique) auto
    obtain y d2 ob2 where wk: "walk_files visit (map fst (at_files a)) d1 ob = (y, d2, ob2)"
      by (cases "walk_files visit (map fst (at_files a)) d1 ob")
    have "\<forall>f \<in> set (at_files a). content d1 (path_join dir (fst f)) = Some (snd f)"
      using c nm dir(1) dis(1) by (auto simp: map_of_eq_Some_iff)
    note wg = walk_good [OF a v K(1) order_refl this K(2) wk]
    show ?thesis
    proof (cases y)
      case Inly: (Inl z)
      with w rd Inr names wk have "e = Some z" "ob' = ob2" by (auto simp: write_index_of_def filepath_Walk_def)
      with wg show ?thesis by (auto simp: written_def)
    next
      case Inry: (Inr us)
      with wg have us: "us = map recorded (at_files a)" "\<forall>f \<in> set (at_files a). stored a (abs ob2) f" by auto
      with w rd Inr names wk Inry
      have "writeIndex S (at_term a) (at_rev a) (at_seq a) (at_wal a) (ci_SSTFiles (index_of a)) [] (ci_PebbleMeta (index_of a)) ob2 = (e, ob')"
        by (auto simp: write_index_of_def filepath_Walk_def recorded_files index_of_def split: prod.splits)
      from writeIndex_effect [OF this] wg us(2) show ?thesis unfolding written_def by (intro exI [of _ "abs ob2"]) auto
    qed
  qed
qed

end

section \<open>Reading manifests and indexes\<close>

lemma index_of_ok: "attempt_ok a \<Longrightarrow> index_ok (index_of a)"
  by (auto simp: index_ok_def index_of_def attempt_ok_def CheckpointFormatVersion_def file_name_def)

lemma manifest_of_ok: "attempt_ok a \<Longrightarrow> manifest_ok (manifest_of a)"
  by (auto simp: manifest_ok_def manifest_of_def attempt_ok_def CheckpointFormatVersion_def index_key_def)

text \<open>The manifest names an intact checkpoint.\<close>

definition names_manifest :: "ckpt_write \<Rightarrow> (gostring \<rightharpoonup> bytes) \<Rightarrow> bool" where
  "names_manifest a A \<longleftrightarrow> A ManifestKey = Some (marshalManifest (manifest_of a)) \<and> intact a A"

context object_store
begin

lemma ReadManifest_frame: "ReadManifest S ob = (r, ob') \<Longrightarrow> abs ob' = abs ob"
  by (auto simp: ReadManifest_def split: prod.splits sum.splits if_splits dest: Get_frame)

lemma ReadCheckpointIndex_frame: "ReadCheckpointIndex S k ob = (r, ob') \<Longrightarrow> abs ob' = abs ob"
  by (auto simp: ReadCheckpointIndex_def split: prod.splits sum.splits if_splits dest: Get_frame)

lemma ReadManifest_of:
  assumes "ReadManifest S ob = (Inr m, ob')" "abs ob ManifestKey = Some (marshalManifest (manifest_of a))" "attempt_ok a"
  shows "m = Some (manifest_of a)"
proof -
  obtain x ob1 where g: "st_Get S ManifestKey ob = (x, ob1)" by (cases "st_Get S ManifestKey ob")
  have "x \<noteq> Inl ErrNotFound" using Get_missing g assms(2) by auto
  then obtain b where x: "x = Inr b" using assms(1) g by (cases x) (auto simp: ReadManifest_def)
  with Get_ok g assms(2) have "b = marshalManifest (manifest_of a)" by force
  with assms(1) g x decode_marshal_manifest [OF manifest_of_ok [OF assms(3)]] assms(3) show ?thesis
    by (simp add: ReadManifest_def manifest_of_def attempt_ok_def)
qed

lemma ReadManifest_none:
  assumes "ReadManifest S ob = (Inr m, ob')" "abs ob ManifestKey = None"
  shows "m = None"
  using assms Get_ok [of ManifestKey ob] by (auto simp: ReadManifest_def split: prod.splits sum.splits if_splits)

lemma ReadCheckpointIndex_of:
  assumes "ReadCheckpointIndex S (index_key a) ob = (Inr i, ob')" "abs ob (index_key a) = Some (marshalIndex (index_of a))"
    "attempt_ok a"
  shows "i = index_of a"
proof -
  obtain x ob1 where g: "st_Get S (index_key a) ob = (x, ob1)" by (cases "st_Get S (index_key a) ob")
  then obtain b where x: "x = Inr b" using assms(1) by (cases x) (auto simp: ReadCheckpointIndex_def)
  with Get_ok g assms(2) have "b = marshalIndex (index_of a)" by force
  with assms(1) g x decode_marshal_index [OF index_of_ok [OF assms(3)]] assms(3) show ?thesis
    by (simp add: ReadCheckpointIndex_def index_of_def attempt_ok_def)
qed

lemma knownSSTSets_sound:
  assumes "knownSSTSets S None ob = (r, ob')"
    and "abs ob ManifestKey = None \<or> (\<exists>b. names_manifest b (abs ob) \<and> attempt_ok b \<and> set (at_files b) \<subseteq> U)"
  shows "abs ob' = abs ob" and "\<exists>loc. r = Inr (loc, []) \<and>
    (\<forall>k \<in> set loc. \<exists>f \<in> U. is_sst (fst f) \<and> k = sst_key (snd f) (fst f) \<and> abs ob k = Some (snd f))"
proof -
  obtain x ob1 where m: "ReadManifest S ob = (x, ob1)" by (cases "ReadManifest S ob")
  note fr = ReadManifest_frame [OF m]
  have triv: "r = Inr ([], [])" "ob' = ob1" if "\<nexists>m. x = Inr (Some m)"
    using assms(1) m that by (auto simp: knownSSTSets_def split: sum.splits option.splits)
  have "abs ob' = abs ob \<and> (\<exists>loc. r = Inr (loc, []) \<and>
    (\<forall>k \<in> set loc. \<exists>f \<in> U. is_sst (fst f) \<and> k = sst_key (snd f) (fst f) \<and> abs ob k = Some (snd f)))"
  proof (cases "\<exists>m. x = Inr (Some m)")
    case False
    with triv fr show ?thesis by simp
  next
    case True
    then obtain mf where x: "x = Inr (Some mf)" by blast
    with ReadManifest_none m have "abs ob ManifestKey \<noteq> None" by fastforce
    then obtain b where b: "names_manifest b (abs ob)" "attempt_ok b" "set (at_files b) \<subseteq> U" using assms(2) by metis
    then have bm: "abs ob ManifestKey = Some (marshalManifest (manifest_of b))" and bi: "intact b (abs ob)"
      by (simp_all add: names_manifest_def)
    from ReadManifest_of [OF m [unfolded x] bm b(2)] have "mf_CheckpointKey mf = index_key b" by (simp add: manifest_of_def)
    obtain y ob2 where i: "ReadCheckpointIndex S (index_key b) ob1 = (y, ob2)" by (cases "ReadCheckpointIndex S (index_key b) ob1")
    note fr2 = ReadCheckpointIndex_frame [OF i]
    have r: "r = Inr (case y of Inl e \<Rightarrow> ([], []) | Inr i \<Rightarrow> (ci_SSTFiles i, ci_AncestorSSTFiles i))" "ob' = ob2"
      using assms(1) m x i \<open>mf_CheckpointKey mf = index_key b\<close> by (auto simp: knownSSTSets_def split: sum.splits)
    show ?thesis
    proof (cases y)
      case (Inl e)
      with r fr fr2 show ?thesis by simp
    next
      case (Inr idx)
      with ReadCheckpointIndex_of [of b ob1 idx ob2] i bi b(2) fr have "idx = index_of b" by (simp add: intact_def)
      with r Inr have "r = Inr (ci_SSTFiles (index_of b), [])" by (simp add: index_of_def)
      moreover have "\<exists>f \<in> U. is_sst (fst f) \<and> k = sst_key (snd f) (fst f) \<and> abs ob k = Some (snd f)"
        if "k \<in> set (ci_SSTFiles (index_of b))" for k
        using that bi b(3) by (fastforce simp: index_of_def intact_def stored_def obj_key_def)
      ultimately show ?thesis using r(2) fr fr2 by simp
    qed
  qed
  then show "abs ob' = abs ob" and "\<exists>loc. r = Inr (loc, []) \<and>
    (\<forall>k \<in> set loc. \<exists>f \<in> U. is_sst (fst f) \<and> k = sst_key (snd f) (fst f) \<and> abs ob k = Some (snd f))" by blast+
qed

text \<open>Both writers.\<close>

lemma with_checkpoint_written:
  assumes "with_checkpoint ckpt tmp body d ob = (e, d', ob')" "makes_checkpoint ckpt fs"
    and body: "\<And>dir d e d' ob'. \<forall>n. 47 \<notin> set n \<longrightarrow> content d (path_join dir n) = map_of fs n \<Longrightarrow>
      body dir d ob = (e, d', ob') \<Longrightarrow> written a (e = None) (abs ob) (abs ob')"
  shows "written a (e = None) (abs ob) (abs ob')"
proof -
  obtain x d1 where t: "os_MkdirTemp tmp d = (x, d1)" by (cases "os_MkdirTemp tmp d")
  show ?thesis
  proof (cases x)
    case (Some y)
    with assms(1) t have "e \<noteq> None" "ob' = ob" by (auto simp: with_checkpoint_def)
    then show ?thesis using written_refl [of a "abs ob"] by auto
  next
    case None
    let ?dir = "path_join tmp (str ''cp'')"
    obtain y d2 where c: "ckpt ?dir d1 = (y, d2)" by (cases "ckpt ?dir d1")
    show ?thesis
    proof (cases y)
      case (Some z)
      with assms(1) t None c have "e \<noteq> None" "ob' = ob" by (auto simp: with_checkpoint_def Let_def)
      then show ?thesis using written_refl [of a "abs ob"] by auto
    next
      case n: None
      obtain e1 d3 ob1 where b: "body ?dir d2 ob = (e1, d3, ob1)" by (cases "body ?dir d2 ob")
      with assms(1) t None c n have "e = e1" "ob' = ob1" by (auto simp: with_checkpoint_def Let_def)
      moreover have "\<forall>m. 47 \<notin> set m \<longrightarrow> content d2 (path_join ?dir m) = map_of fs m"
        using assms(2) c n unfolding makes_checkpoint_def by blast
      ultimately show ?thesis using body b by blast
    qed
  qed
qed

lemma WriteAtSequence_written:
  assumes "WriteAtSequence S ckpt tmp None (at_term a) (at_rev a) (at_seq a) (at_wal a) d ob = (e, d', ob')"
    and "makes_checkpoint ckpt (at_files a)" and a: "attempt_ok a" "set (at_files a) \<subseteq> U" "collision_free U"
    and m: "abs ob ManifestKey = None \<or> (\<exists>b. names_manifest b (abs ob) \<and> attempt_ok b \<and> set (at_files b) \<subseteq> U)"
  shows "written a (e = None) (abs ob) (abs ob')"
  using assms(1) [unfolded WriteAtSequence_def] assms(2)
proof (rule with_checkpoint_written)
  fix dir d e d' ob'
  assume c: "\<forall>n. 47 \<notin> set n \<longrightarrow> content d (path_join dir n) = map_of (at_files a) n"
    and w: "(case knownSSTSets S None ob of
         (Inl e, ob) \<Rightarrow> (Some e, d, ob)
       | (Inr (localSSTs, ancestorSSTs), ob) \<Rightarrow>
           write_index_of S (at_term a) (at_rev a) (at_seq a) (at_wal a)
             (filepath_Walk dir (write_file S localSSTs ancestorSSTs (at_term a) (at_rev a) dir) d ob)) = (e, d', ob')"
  obtain x ob1 where k: "knownSSTSets S None ob = (x, ob1)" by (cases "knownSSTSets S None ob")
  from knownSSTSets_sound [OF k m] obtain loc where loc: "abs ob1 = abs ob" "x = Inr (loc, [])"
    "\<forall>k \<in> set loc. \<exists>f \<in> U. is_sst (fst f) \<and> k = sst_key (snd f) (fst f) \<and> abs ob k = Some (snd f)" by blast
  let ?K = "{f \<in> set (at_files a). is_sst (fst f) \<and> sst_key (snd f) (fst f) \<in> set loc}"
  have "stored a (abs ob1) f" if "f \<in> ?K" for f
  proof -
    from that have f: "f \<in> set (at_files a)" "is_sst (fst f)" "sst_key (snd f) (fst f) \<in> set loc" by simp_all
    from loc(3) f(3) obtain g where g: "g \<in> U" "sst_key (snd f) (fst f) = sst_key (snd g) (fst g)"
      "abs ob (sst_key (snd f) (fst f)) = Some (snd g)" by metis
    with f(1) a(2,3) have "snd f = snd g" unfolding collision_free_def by blast
    with g f(2) loc(1) show ?thesis by (simp add: stored_def obj_key_def)
  qed
  then have K: "\<forall>g \<in> ?K. stored a (abs ob1) g" by blast
  have v: "good_visit abs a ?K dir (write_file S loc [] (at_term a) (at_rev a) dir)" by (rule write_file_good) blast
  have w': "write_index_of S (at_term a) (at_rev a) (at_seq a) (at_wal a)
      (filepath_Walk dir (write_file S loc [] (at_term a) (at_rev a) dir) d ob1) = (e, d', ob')" using w k loc(2) by simp
  have "?K \<subseteq> set (at_files a)" by blast
  from walk_written [OF a v this K c w'] show "written a (e = None) (abs ob) (abs ob')" using loc(1) by simp
qed

lemma WriteWithRegistry_written:
  assumes "WriteWithRegistryAtSequence S ckpt tmp (at_term a) (at_rev a) (at_seq a) (at_wal a) reg [] d ob = (e, d', ob')"
    and "makes_checkpoint ckpt (at_files a)" and a: "attempt_ok a" "set (at_files a) \<subseteq> U" "collision_free U"
    and reg: "\<forall>f \<in> set (at_files a). \<forall>k. is_sst (fst f) \<and> map_of reg (fst f) = Some k \<longrightarrow>
      stored a (abs ob) f \<and> k = sst_key (snd f) (fst f)"
  shows "written a (e = None) (abs ob) (abs ob')"
  using assms(1) [unfolded WriteWithRegistryAtSequence_def] assms(2)
proof (rule with_checkpoint_written)
  fix dir d e d' ob'
  assume c: "\<forall>n. 47 \<notin> set n \<longrightarrow> content d (path_join dir n) = map_of (at_files a) n"
    and w: "write_index_of S (at_term a) (at_rev a) (at_seq a) (at_wal a)
      (filepath_Walk dir (write_file_registry S reg [] (at_term a) (at_rev a) dir) d ob) = (e, d', ob')"
  let ?K = "{f \<in> set (at_files a). stored a (abs ob) f}"
  have v: "good_visit abs a ?K dir (write_file_registry S reg [] (at_term a) (at_rev a) dir)"
    by (rule write_registry_good) (use reg in blast)
  have "?K \<subseteq> set (at_files a)" "\<forall>g \<in> ?K. stored a (abs ob) g" by blast+
  from walk_written [OF a v this c w] show "written a (e = None) (abs ob) (abs ob')" .
qed

end

end
