(* ===== verification/Checkpoint_GC.thy ===== *)
theory Checkpoint_GC
  imports Checkpoint_Write
begin

text \<open>
  Restoring and garbage collection of checkpoints (\<open>src/internal/checkpoint/checkpoint.go\<close>, and the collection in
  \<open>maybeCheckpoint\<close> of \<open>src/leader.go\<close>): an intact checkpoint restores to the files it was made of; a collection removes
  only objects below the keys of old checkpoints and SST files that no live or pinned checkpoint names; a write
  does not disturb the checkpoints of other attempts.
\<close>

section \<open>Restoring an intact checkpoint\<close>

text \<open>Reads fail only for objects that are not there.\<close>

definition reads_ok :: "('o, 'm) store_scheme \<Rightarrow> bool" where
  "reads_ok S \<longleftrightarrow> (\<forall>k ob e ob'. st_Get S k ob = (Inl e, ob') \<longrightarrow> e = ErrNotFound)"

lemma streamToFile_ok:
  assumes "d_faults d = []"
  shows "\<exists>d'. streamToFile b dest d = (None, d') \<and> content d' = (content d)(dest \<mapsto> b) \<and> d_faults d' = []"
proof -
  have "content (set_content dest [] d) dest = Some []" by simp
  then show ?thesis using assms
    by (auto simp: streamToFile_def os_Create_def f_Write_def f_Close_def put_at_def overwrite_def fun_eq_iff)
qed

lemma download_all_append:
  "download_all get target (xs @ ys) d ob =
     (case download_all get target xs d ob of
        (Some e, d, ob) \<Rightarrow> (Some e, d, ob)
      | (None, d, ob) \<Rightarrow> download_all get target ys d ob)"
  by (induction xs arbitrary: d ob) (auto split: prod.splits option.splits)

text \<open>The objects an index refers to, with the names of their files.\<close>

definition index_items :: "ckpt_write \<Rightarrow> (gostring \<times> gostring) list" where
  "index_items a = base_items (ci_SSTFiles (index_of a)) @
     map (\<lambda>name. (TrimSuffix (index_key a) (str ''manifest.json'') @ name, name)) (ci_PebbleMeta (index_of a))"

lemma index_key_suffix:
  "HasSuffix (index_key a) (str ''manifest.json'')"
  "TrimSuffix (index_key a) (str ''manifest.json'') = CheckpointKey (at_term a) (at_rev a) @ str ''/''"
proof -
  have "index_key a = (CheckpointKey (at_term a) (at_rev a) @ str ''/'') @ str ''manifest.json''"
    by (simp add: index_key_def CheckpointIndexKey_def str_def)
  then show "HasSuffix (index_key a) (str ''manifest.json'')"
    "TrimSuffix (index_key a) (str ''manifest.json'') = CheckpointKey (at_term a) (at_rev a) @ str ''/''"
    by (metis HasSuffix_append) (metis TrimSuffix_append \<open>index_key a = _\<close>)
qed

lemma index_items_set:
  assumes "attempt_ok a"
  shows "set (index_items a) = (\<lambda>f. (obj_key a f, fst f)) ` set (at_files a)"
proof -
  let ?F = "{f \<in> set (at_files a). is_sst (fst f)}" and ?G = "{f \<in> set (at_files a). \<not> is_sst (fst f)}"
  have n: "\<forall>f \<in> set (at_files a). 47 \<notin> set (fst f)" using assms by (auto simp: attempt_ok_def file_name_def)
  have "set (base_items (ci_SSTFiles (index_of a))) = (\<lambda>f. (sst_key (snd f) (fst f), path_base (sst_key (snd f) (fst f)))) ` ?F"
    by (simp add: base_items_def index_of_def image_image)
  also have "\<dots> = (\<lambda>f. (obj_key a f, fst f)) ` ?F"
    using n by (intro image_cong) (auto simp: obj_key_def sst_key_base)
  finally have f: "set (base_items (ci_SSTFiles (index_of a))) = (\<lambda>f. (obj_key a f, fst f)) ` ?F" .
  have "(\<lambda>f. (meta_object (at_term a) (at_rev a) (fst f), fst f)) ` ?G = (\<lambda>f. (obj_key a f, fst f)) ` ?G"
    by (intro image_cong) (auto simp: obj_key_def)
  then have "set (index_items a) = (\<lambda>f. (obj_key a f, fst f)) ` ?F \<union> (\<lambda>f. (obj_key a f, fst f)) ` ?G"
    unfolding index_items_def set_append f index_key_suffix(2) by (simp add: index_of_def image_image meta_object_def)
  also have "\<dots> = (\<lambda>f. (obj_key a f, fst f)) ` set (at_files a)" unfolding image_Un [symmetric] by (rule arg_cong) blast
  finally show ?thesis .
qed

context object_store
begin

lemma Get_present:
  assumes "reads_ok S" "abs ob k = Some b"
  shows "\<exists>ob'. st_Get S k ob = (Inr b, ob') \<and> abs ob' = abs ob"
proof -
  obtain x ob' where g: "st_Get S k ob = (x, ob')" by (cases "st_Get S k ob")
  have "x \<noteq> Inl e" for e
    using assms g Get_missing [of k ob ob'] unfolding reads_ok_def by (metis option.distinct(1))
  then obtain c where x: "x = Inr c" by (cases x) auto
  with Get_ok g assms(2) have "c = b" by force
  with g x Get_frame [OF g] show ?thesis by simp
qed

lemma downloadFile_ok:
  assumes "reads_ok S" "abs ob k = Some b" "d_faults d = []"
  shows "\<exists>d' ob'. downloadFile S k dest d ob = (None, d', ob') \<and> content d' = (content d)(dest \<mapsto> b) \<and>
    d_faults d' = [] \<and> abs ob' = abs ob"
  using Get_present [OF assms(1,2)] streamToFile_ok [OF assms(3), of b dest] by (auto simp: downloadFile_def)

lemma download_all_ok:
  assumes "reads_ok S" "d_faults d = []" "\<forall>(k, n) \<in> set items. abs ob k = Some (g n)"
  shows "\<exists>d' ob'. download_all (downloadFile S) target items d ob = (None, d', ob') \<and> d_faults d' = [] \<and>
    abs ob' = abs ob \<and> (\<forall>n \<in> snd ` set items. content d' (path_join target n) = Some (g n)) \<and>
    (\<forall>p. (\<forall>n \<in> snd ` set items. p \<noteq> path_join target n) \<longrightarrow> content d' p = content d p)"
  using assms(2,3)
proof (induction items arbitrary: d ob)
  case Nil
  then show ?case by simp
next
  case (Cons i items)
  obtain k n where i: "i = (k, n)" by (cases i)
  with Cons.prems(2) have kb: "abs ob k = Some (g n)" by simp
  from downloadFile_ok [OF assms(1) kb Cons.prems(1)] obtain d1 ob1
    where d1: "downloadFile S k (path_join target n) d ob = (None, d1, ob1)"
      "content d1 = (content d)(path_join target n \<mapsto> g n)" "d_faults d1 = []" "abs ob1 = abs ob" by blast
  have "\<forall>(k, n) \<in> set items. abs ob1 k = Some (g n)" using Cons.prems(2) d1(4) by simp
  from Cons.IH [OF d1(3) this] obtain d2 ob2
    where d2: "download_all (downloadFile S) target items d1 ob1 = (None, d2, ob2)" "d_faults d2 = []" "abs ob2 = abs ob1"
      "\<forall>n \<in> snd ` set items. content d2 (path_join target n) = Some (g n)"
      "\<forall>p. (\<forall>n \<in> snd ` set items. p \<noteq> path_join target n) \<longrightarrow> content d2 p = content d1 p" by blast
  have "content d2 (path_join target n) = Some (g n)"
  proof (cases "n \<in> snd ` set items")
    case False
    then have "\<forall>m \<in> snd ` set items. path_join target n \<noteq> path_join target m" by (auto simp: path_join_def)
    with d2(5) d1(2) show ?thesis by simp
  qed (use d2(4) in blast)
  moreover have "download_all (downloadFile S) target (i # items) d ob = (None, d2, ob2)" using i d1(1) d2(1) by simp
  moreover have "content d2 p = content d p" if "\<forall>m \<in> snd ` set (i # items). p \<noteq> path_join target m" for p
    using that d2(5) d1(2) i by simp
  ultimately show ?case using d2(2-4) d1(4) i by auto
qed

lemma ReadCheckpointIndex_ok:
  assumes "reads_ok S" "abs ob (index_key a) = Some (marshalIndex (index_of a))" "attempt_ok a"
  shows "\<exists>ob'. ReadCheckpointIndex S (index_key a) ob = (Inr (index_of a), ob') \<and> abs ob' = abs ob"
proof -
  from Get_present [OF assms(1,2)] decode_marshal_index [OF index_of_ok [OF assms(3)]] assms(3)
  show ?thesis by (auto simp: ReadCheckpointIndex_def index_of_def attempt_ok_def)
qed

lemma ReadManifest_ok:
  assumes "reads_ok S" "abs ob ManifestKey = Some (marshalManifest (manifest_of a))" "attempt_ok a"
  shows "\<exists>ob'. ReadManifest S ob = (Inr (Some (manifest_of a)), ob') \<and> abs ob' = abs ob"
proof -
  from Get_present [OF assms(1,2)] decode_marshal_manifest [OF manifest_of_ok [OF assms(3)]] assms(3)
  show ?thesis by (auto simp: ReadManifest_def manifest_of_def attempt_ok_def)
qed

lemma restore_intact:
  assumes r: "reads_ok S" and i: "intact a (abs ob)" and a: "attempt_ok a" and d: "d_faults d = []"
  shows "\<exists>d' ob'. checkpoint_Restore S (index_key a) target d ob = (Inr (at_term a, at_rev a), d', ob') \<and>
    abs ob' = abs ob \<and> (\<forall>f \<in> set (at_files a). content d' (path_join target (fst f)) = Some (snd f)) \<and>
    (\<forall>p. (\<forall>f \<in> set (at_files a). p \<noteq> path_join target (fst f)) \<longrightarrow> content d' p = content d p)"
proof -
  let ?g = "\<lambda>n. the (map_of (at_files a) n)"
  let ?ssts = "base_items (ci_SSTFiles (index_of a))"
  have dis: "distinct (map fst (at_files a))" using a by (auto simp: attempt_ok_def strict_sorted_iff)
  then have g: "?g (fst f) = snd f" if "f \<in> set (at_files a)" for f
    using that by (metis map_of_eq_Some_iff option.sel prod.collapse)
  from i have idx: "abs ob (index_key a) = Some (marshalIndex (index_of a))"
    and st: "\<forall>f \<in> set (at_files a). abs ob (obj_key a f) = Some (snd f)" by (auto simp: intact_def stored_def)
  obtain ob1 where o1: "ReadCheckpointIndex S (index_key a) ob = (Inr (index_of a), ob1)" "abs ob1 = abs ob"
    using ReadCheckpointIndex_ok [OF r idx a] by blast
  obtain d1 where d1: "os_MkdirAll target d = (None, d1)" "d_faults d1 = []" "content d1 = content d"
    using d by (simp add: os_MkdirAll_def content_def fun_eq_iff)
  have "\<forall>(k, n) \<in> set (index_items a). abs ob1 k = Some (?g n)"
    using st g o1(2) by (auto simp: index_items_set [OF a])
  from download_all_ok [OF r d1(2) this] obtain d3 ob3
    where d3: "download_all (downloadFile S) target (index_items a) d1 ob1 = (None, d3, ob3)" "abs ob3 = abs ob1"
      "\<forall>n \<in> snd ` set (index_items a). content d3 (path_join target n) = Some (?g n)"
      "\<forall>p. (\<forall>n \<in> snd ` set (index_items a). p \<noteq> path_join target n) \<longrightarrow> content d3 p = content d1 p" by blast
  obtain d2 ob2 where d2: "download_all (downloadFile S) target ?ssts d1 ob1 = (None, d2, ob2)"
    using d3(1) by (auto simp: index_items_def download_all_append split: prod.splits option.splits)
  have "checkpoint_Restore S (index_key a) target d ob = (Inr (at_term a, at_rev a), d3, ob3)"
    using index_key_suffix(1) [of a] o1(1) d1(1) d2 d3(1)
    by (simp add: checkpoint_Restore_def restoreFromIndex_def Let_def index_items_def download_all_append)
      (simp add: index_of_def base_items_def)
  moreover have "content d3 (path_join target (fst f)) = Some (snd f)" if f: "f \<in> set (at_files a)" for f
    using d3(3) f g by (simp add: index_items_set [OF a])
  moreover have "content d3 p = content d p" if "\<forall>f \<in> set (at_files a). p \<noteq> path_join target (fst f)" for p
    using d3(4) that d1(3) by (simp add: index_items_set [OF a] image_image)
  ultimately show ?thesis using o1(2) d3(2) by auto
qed

end

section \<open>Garbage collection\<close>

text \<open>All checkpoint objects belong to an attempt of \<open>W\<close>, and what stands at an index key is that attempt's index.\<close>

definition attempts_only :: "ckpt_write set \<Rightarrow> (gostring \<rightharpoonup> bytes) \<Rightarrow> bool" where
  "attempts_only W A \<longleftrightarrow>
     (\<forall>k \<in> dom A. HasPrefix k (str ''checkpoint/'') \<longrightarrow>
        (\<exists>b \<in> W. k = index_key b \<or> (\<exists>f \<in> set (at_files b). k = meta_object (at_term b) (at_rev b) (fst f)))) \<and>
     (\<forall>b \<in> W. A (index_key b) = None \<or> A (index_key b) = Some (marshalIndex (index_of b)))"

definition ordered_attempts :: "ckpt_write set \<Rightarrow> bool" where
  "ordered_attempts W \<longleftrightarrow> (\<forall>a \<in> W. attempt_ok a) \<and> (\<forall>a \<in> W. \<forall>b \<in> W. a = b \<or> newer a b \<or> newer b a)"

lemma attempts_only_restrict: "attempts_only W A \<Longrightarrow> attempts_only W (A |` X)"
  unfolding attempts_only_def by (auto simp: restrict_map_def split: if_splits)

lemma restrict_UNIV [simp]: "A |` UNIV = A"
  by (simp add: restrict_map_def)

lemma sorted_max_in_drop:
  assumes "sorted xs" "x \<in> set xs" "\<forall>y \<in> set xs. y \<le> x" "0 < k"
  shows "x \<in> set (drop (length xs - k) xs)"
proof -
  from assms(2) have ne: "xs \<noteq> []" by auto
  have "x \<le> last xs" using assms(1,2) by (metis in_set_conv_nth last_conv_nth ne sorted_nth_mono diff_less length_greater_0_conv less_Suc_eq_le Suc_pred' zero_less_one)
  with assms(3) ne have "last xs = x" by (simp add: antisym)
  moreover have "last xs \<in> set (drop (length xs - k) xs)"
    using ne assms(4) by (metis diff_less drop_eq_Nil last_drop last_in_set length_greater_0_conv not_le)
  ultimately show ?thesis by simp
qed

context object_store
begin

lemma live_ssts_spec:
  assumes "live_ssts S ks ob = (ss, ob')"
  shows "abs ob' = abs ob" and "reads_ok S \<Longrightarrow> attempt_ok a \<Longrightarrow> index_key a \<in> set ks \<Longrightarrow>
    abs ob (index_key a) = Some (marshalIndex (index_of a)) \<Longrightarrow> set (ci_SSTFiles (index_of a)) \<subseteq> set ss"
proof -
  have "abs ob' = abs ob \<and> (reads_ok S \<and> attempt_ok a \<and> index_key a \<in> set ks \<and>
    abs ob (index_key a) = Some (marshalIndex (index_of a)) \<longrightarrow> set (ci_SSTFiles (index_of a)) \<subseteq> set ss)"
    using assms
  proof (induction ks arbitrary: ob ss)
    case Nil
    then show ?case by simp
  next
    case (Cons k ks)
    obtain x ob1 where i: "ReadCheckpointIndex S k ob = (x, ob1)" by (cases "ReadCheckpointIndex S k ob")
    note fr = ReadCheckpointIndex_frame [OF i]
    obtain ss1 ob2 where l: "live_ssts S ks ob1 = (ss1, ob2)" by (cases "live_ssts S ks ob1")
    note IH = Cons.IH [of ob1 ss1]
    have o: "ob' = ob2" "ss = (case x of Inl e \<Rightarrow> ss1 | Inr idx \<Rightarrow> ci_SSTFiles idx @ ss1)"
      using Cons.prems i l by (auto split: sum.splits)
    have "set (ci_SSTFiles (index_of a)) \<subseteq> set ss"
      if h: "reads_ok S" "attempt_ok a" "index_key a \<in> set (k # ks)" "abs ob (index_key a) = Some (marshalIndex (index_of a))"
    proof (cases "k = index_key a")
      case True
      from ReadCheckpointIndex_ok [OF h(1,4,2)] i True have "x = Inr (index_of a)" by auto
      with o(2) show ?thesis by simp
    next
      case False
      with h have "set (ci_SSTFiles (index_of a)) \<subseteq> set ss1" using IH l o(1) fr by auto
      with o(2) show ?thesis by (auto split: sum.splits)
    qed
    moreover have "abs ob' = abs ob" using IH l o(1) fr by simp
    ultimately show ?case by blast
  qed
  then show "abs ob' = abs ob" and "reads_ok S \<Longrightarrow> attempt_ok a \<Longrightarrow> index_key a \<in> set ks \<Longrightarrow>
    abs ob (index_key a) = Some (marshalIndex (index_of a)) \<Longrightarrow> set (ci_SSTFiles (index_of a)) \<subseteq> set ss" by blast+
qed

lemma read_branches_spec:
  assumes "read_branches_loop S ks ob = (r, ob')"
  shows "abs ob' = abs ob" and "reads_ok S \<Longrightarrow> ascii key \<Longrightarrow> k \<in> set ks \<Longrightarrow>
    abs ob k = Some (marshalBranch \<lparr>be_AncestorCheckpointKey = key\<rparr>) \<Longrightarrow> r = Inr entries \<Longrightarrow>
    key \<in> set (map (be_AncestorCheckpointKey \<circ> snd) entries)"
proof -
  have "abs ob' = abs ob \<and> (reads_ok S \<and> ascii key \<and> k \<in> set ks \<and>
    abs ob k = Some (marshalBranch \<lparr>be_AncestorCheckpointKey = key\<rparr>) \<and> r = Inr entries \<longrightarrow>
    key \<in> set (map (be_AncestorCheckpointKey \<circ> snd) entries))"
    using assms
  proof (induction ks arbitrary: ob r entries)
    case Nil
    then show ?case by simp
  next
    case (Cons j ks)
    obtain x ob1 where g: "st_Get S j ob = (x, ob1)" by (cases "st_Get S j ob")
    note fr = Get_frame [OF g]
    obtain y ob2 where l: "read_branches_loop S ks ob1 = (y, ob2)" by (cases "read_branches_loop S ks ob1")
    note IH = Cons.IH [of ob1 y, unfolded l]
    have "abs ob' = abs ob"
      using Cons.prems g l fr IH by (auto split: sum.splits if_splits)
    moreover have "key \<in> set (map (be_AncestorCheckpointKey \<circ> snd) entries)"
      if h: "reads_ok S" "ascii key" "k \<in> set (j # ks)" "abs ob k = Some (marshalBranch \<lparr>be_AncestorCheckpointKey = key\<rparr>)"
        "r = Inr entries"
    proof (cases "k = j")
      case True
      from Get_present [OF h(1,4)] g True have "x = Inr (marshalBranch \<lparr>be_AncestorCheckpointKey = key\<rparr>)" by auto
      with Cons.prems g l h(5) decode_marshal_branch [OF h(2)] show ?thesis by (auto split: sum.splits)
    next
      case False
      with h have k: "k \<in> set ks" "abs ob1 k = Some (marshalBranch \<lparr>be_AncestorCheckpointKey = key\<rparr>)" using fr by auto
      have "\<exists>es. y = Inr es \<and> set es \<subseteq> set entries"
        using Cons.prems g l h(5) by (auto split: sum.splits if_splits)
      then obtain es where es: "y = Inr es" "set es \<subseteq> set entries" by blast
      have "ob' = ob2" using Cons.prems g l h(5) es(1) by (auto split: sum.splits if_splits)
      with IH [of es] h(1,2) k es(1) have "key \<in> set (map (be_AncestorCheckpointKey \<circ> snd) es)" by simp
      with es(2) show ?thesis by auto
    qed
    ultimately show ?case by blast
  qed
  then show "abs ob' = abs ob" and "reads_ok S \<Longrightarrow> ascii key \<Longrightarrow> k \<in> set ks \<Longrightarrow>
    abs ob k = Some (marshalBranch \<lparr>be_AncestorCheckpointKey = key\<rparr>) \<Longrightarrow> r = Inr entries \<Longrightarrow>
    key \<in> set (map (be_AncestorCheckpointKey \<circ> snd) entries)" by blast+
qed

lemma deleteCheckpoint_effect:
  assumes "deleteCheckpoint S key ob = (e, ob')"
  shows "\<exists>D \<subseteq> {k. HasPrefix k (dir_prefix key)}. abs ob' = abs ob |` (- D)"
proof -
  obtain x ob1 where l: "st_List S (dir_prefix key) ob = (x, ob1)" by (cases "st_List S (dir_prefix key) ob")
  note fr = List_frame [OF l]
  show ?thesis
  proof (cases x)
    case (Inl y)
    with assms l fr have "abs ob' = abs ob |` (- {})" by (auto simp: deleteCheckpoint_def)
    then show ?thesis by blast
  next
    case (Inr ks)
    with assms l have dm: "st_DeleteMany S ks ob1 = (e, ob')" by (simp add: deleteCheckpoint_def)
    have ks: "set ks \<subseteq> {k. HasPrefix k (dir_prefix key)}" using List_ok l Inr by blast
    show ?thesis
    proof (cases e)
      case None
      with DeleteMany_ok dm fr ks show ?thesis by (intro exI [of _ "set ks"]) auto
    next
      case (Some y)
      from DeleteMany_err [OF dm [unfolded Some]] obtain D where D: "D \<subseteq> set ks" "abs ob' = abs ob1 |` (- D)"
        by (elim exE conjE)
      then show ?thesis using fr ks by (intro exI [of _ D]) auto
    qed
  qed
qed

end

text \<open>What the deletion of old checkpoints can remove: objects below the keys \<open>ks\<close> that are not to be keepers; and
  the SST files it reports belong to no live checkpoint.\<close>

definition only_below :: "gostring set \<Rightarrow> gostring set \<Rightarrow> bool" where
  "only_below ks D \<longleftrightarrow> (\<forall>k \<in> D. \<exists>key \<in> ks. HasPrefix k (dir_prefix key))"

context object_store
begin

lemma gc_delete_loop_effect:
  assumes "gc_delete_loop S keepers live ks n orphans ob = ((n', orphans', e), ob')"
    and W: "ordered_attempts W" "attempts_only W (abs ob)" and ks: "set ks \<subseteq> index_key ` W"
    and live: "\<forall>s \<in> set orphans. s \<notin> set live \<and> HasPrefix s (str ''sst/'')"
  shows "(\<exists>D. only_below (set ks - set keepers) D \<and> abs ob' = abs ob |` (- D)) \<and>
    (\<forall>s \<in> set orphans'. s \<notin> set live \<and> HasPrefix s (str ''sst/''))"
  using assms(1) W(2) ks live
proof (induction ks arbitrary: n orphans ob)
  case Nil
  then have "abs ob' = abs ob |` (- {})" "orphans' = orphans" by auto
  with Nil.prems(4) show ?case unfolding only_below_def by (intro conjI exI [of _ "{}"]) auto
next
  case (Cons k ks)
  show ?case
  proof (cases "k \<in> set keepers")
    case True
    with Cons.prems(1) have "gc_delete_loop S keepers live ks n orphans ob = ((n', orphans', e), ob')" by simp
    from Cons.IH [OF this Cons.prems(2) _ Cons.prems(4)] Cons.prems(3) True show ?thesis by simp
  next
    case False
    obtain x ob1 where i: "ReadCheckpointIndex S k ob = (x, ob1)" by (cases "ReadCheckpointIndex S k ob")
    note fr = ReadCheckpointIndex_frame [OF i]
    let ?o = "case x of Inl e \<Rightarrow> orphans | Inr idx \<Rightarrow> orphans @ filter (\<lambda>s. s \<notin> set live) (ci_SSTFiles idx)"
    obtain y ob2 where d: "deleteCheckpoint S k ob1 = (y, ob2)" by (cases "deleteCheckpoint S k ob1")
    from deleteCheckpoint_effect [OF d] obtain D where D: "D \<subseteq> {j. HasPrefix j (dir_prefix k)}" "abs ob2 = abs ob |` (- D)"
      using fr by auto
    obtain b where b: "b \<in> W" "k = index_key b" "attempt_ok b" using Cons.prems(3) W(1) by (auto simp: ordered_attempts_def)
    have o: "\<forall>s \<in> set ?o. s \<notin> set live \<and> HasPrefix s (str ''sst/'')"
    proof (cases x)
      case (Inr idx)
      have "abs ob k \<noteq> None"
        using i Inr Get_ok [of k ob] by (auto simp: ReadCheckpointIndex_def split: prod.splits sum.splits)
      then have "abs ob (index_key b) = Some (marshalIndex (index_of b))"
        using Cons.prems(2) b unfolding attempts_only_def by auto
      from ReadCheckpointIndex_of [OF i [unfolded Inr b(2)] this b(3)] have "idx = index_of b" .
      with Inr Cons.prems(4) show ?thesis by (auto simp: index_of_def)
    qed (use Cons.prems(4) in simp)
    have kD: "only_below (set (k # ks) - set keepers) D" using D(1) False by (auto simp: only_below_def)
    show ?thesis
    proof (cases y)
      case (Some z)
      with Cons.prems(1) False i d have "orphans' = ?o" "ob' = ob2" by (auto split: sum.splits)
      with o D(2) kD show ?thesis by auto
    next
      case None
      with Cons.prems(1) False i d
      have l: "gc_delete_loop S keepers live ks (n + 1) ?o ob2 = ((n', orphans', e), ob')" by (simp split: sum.splits)
      have "attempts_only W (abs ob2)" using attempts_only_restrict [OF Cons.prems(2)] D(2) by simp
      from Cons.IH [OF l this _ o] Cons.prems(3) obtain D' where D': "only_below (set ks - set keepers) D'"
        "abs ob' = abs ob2 |` (- D')" "\<forall>s \<in> set orphans'. s \<notin> set live \<and> HasPrefix s (str ''sst/'')" by auto
      have "only_below (set (k # ks) - set keepers) (D \<union> D')" using kD D'(1) by (fastforce simp: only_below_def)
      moreover have "abs ob' = abs ob |` (- (D \<union> D'))" using D'(2) D(2) by (simp add: Int_commute)
      ultimately show ?thesis using D'(3) by blast
    qed
  qed
qed

lemma GCOrphanSSTs_effect:
  assumes "GCOrphanSSTs S cs ob = (r, ob')"
  shows "\<exists>D \<subseteq> set cs. abs ob' = abs ob |` (- D)"
proof (cases "cs = []")
  case True
  with assms have "abs ob' = abs ob |` (- {})" by (auto simp: GCOrphanSSTs_def)
  then show ?thesis by blast
next
  case False
  obtain e ob1 where d: "st_DeleteMany S (remdups cs) ob = (e, ob1)" by (cases "st_DeleteMany S (remdups cs) ob")
  with assms False have "ob' = ob1" by (auto simp: GCOrphanSSTs_def Let_def split: option.splits)
  with d DeleteMany_ok [of "remdups cs" ob ob1] DeleteMany_err [of "remdups cs" ob _ ob1] show ?thesis
    by (cases e) (auto intro: exI [of _ "set cs"])
qed

end

text \<open>A checkpoint is safe when it is the newest one or a branch is pinned to it.\<close>

definition safe_from_gc :: "ckpt_write set \<Rightarrow> (gostring \<rightharpoonup> bytes) \<Rightarrow> ckpt_write \<Rightarrow> bool" where
  "safe_from_gc W A a \<longleftrightarrow> (\<forall>b \<in> W. b = a \<or> newer b a) \<or>
     (\<exists>i. A (branchKey i) = Some (marshalBranch \<lparr>be_AncestorCheckpointKey = index_key a\<rparr>))"

lemma intact_after_gc:
  assumes "intact a A" "a \<in> W" "ordered_attempts W" "ks \<subseteq> index_key ` W" "index_key a \<notin> ks" "only_below ks D"
    and "\<forall>s \<in> E. HasPrefix s (str ''sst/'') \<and> s \<notin> set (ci_SSTFiles (index_of a))"
  shows "intact a (A |` (- (D \<union> E)))"
proof -
  have nD: "CheckpointKey (at_term a) (at_rev a) @ x \<notin> D" for x
  proof
    assume "CheckpointKey (at_term a) (at_rev a) @ x \<in> D"
    then obtain b where b: "b \<in> W" "index_key b \<in> ks" "HasPrefix (CheckpointKey (at_term a) (at_rev a) @ x) (dir_prefix (index_key b))"
      using assms(4,6) unfolding only_below_def by blast
    then have "at_term b = at_term a \<and> at_rev b = at_rev a"
      using under_dir_prefix assms(2,3) unfolding ordered_attempts_def by blast
    then have "index_key b = index_key a" by (simp add: index_key_def)
    with b(2) assms(5) show False by simp
  qed
  have D_ck: "HasPrefix k (str ''checkpoint/'')" if "k \<in> D" for k
  proof -
    from that obtain b where "HasPrefix k (dir_prefix (index_key b))" using assms(4,6) unfolding only_below_def by blast
    then show ?thesis by (auto simp: dir_prefix_index HasPrefix_iff prefix_def CheckpointKey_def)
  qed
  have "index_key a \<notin> D \<union> E" using nD assms(7) by (auto simp: index_key_def CheckpointIndexKey_def dest!: bspec)
      (metis CheckpointIndexKey_def index_key_def key_prefixes(12))
  moreover have "obj_key a f \<notin> D \<union> E" if f: "f \<in> set (at_files a)" for f
  proof (cases "is_sst (fst f)")
    case True
    then have "obj_key a f \<in> set (ci_SSTFiles (index_of a))" using f by (auto simp: index_of_def obj_key_def)
    with assms(7) D_ck True show ?thesis by (metis Un_iff key_prefixes(2) obj_key_def)
  next
    case False
    then have "obj_key a f \<notin> D" using nD by (simp add: obj_key_def meta_object_def)
    moreover have "obj_key a f \<notin> E" using False assms(7) by (auto simp: obj_key_def)
    ultimately show ?thesis by simp
  qed
  ultimately show ?thesis using assms(1) by (auto simp: intact_def stored_def restrict_map_def)
qed

text \<open>The garbage collection of checkpoints in \<open>maybeCheckpoint\<close>.\<close>

definition checkpoint_gc :: "('o, 'm) store_scheme \<Rightarrow> 'o \<Rightarrow> 'o" where
  "checkpoint_gc S ob =
     (case GCCheckpoints S 2 ob of
        ((cpDeleted, orphanSSTs, cpGCErr), ob) \<Rightarrow>
          if 0 < cpDeleted \<and> orphanSSTs \<noteq> [] then snd (GCOrphanSSTs S orphanSSTs ob) else ob)"

context object_store
begin

lemma ListRemote_spec:
  assumes "ListRemote S ob = (r, ob')" "ordered_attempts W" "attempts_only W (abs ob)"
  shows "abs ob' = abs ob" and "r = Inr keys \<Longrightarrow> sorted keys \<and> distinct keys \<and>
    set keys = index_key ` {b \<in> W. abs ob (index_key b) \<noteq> None}"
proof -
  obtain x ob1 where l: "st_List S (str ''checkpoint/'') ob = (x, ob1)" by (cases "st_List S (str ''checkpoint/'') ob")
  have o: "ob' = ob1" using assms(1) l by (auto simp: ListRemote_def split: sum.splits)
  with List_frame [OF l] show "abs ob' = abs ob" by simp
  assume r: "r = Inr keys"
  with assms(1) l obtain ks where x: "x = Inr ks" and keys: "keys = sort (filter (\<lambda>k. HasSuffix k (str ''/manifest.json'')) ks)"
    by (auto simp: ListRemote_def split: sum.splits)
  have ks: "distinct ks" "set ks = {k \<in> dom (abs ob). HasPrefix k (str ''checkpoint/'')}"
    using List_ok [OF l [unfolded x]] by auto
  have fn: "file_name (fst f)" if "b \<in> W" "f \<in> set (at_files b)" for b f
    using assms(2) that unfolding ordered_attempts_def attempt_ok_def by blast
  have "set keys = index_key ` {b \<in> W. abs ob (index_key b) \<noteq> None}"
  proof (intro equalityI subsetI)
    fix k assume "k \<in> set keys"
    then have k: "k \<in> dom (abs ob)" "HasPrefix k (str ''checkpoint/'')" "HasSuffix k (str ''/manifest.json'')"
      using keys ks(2) by auto
    with assms(3) obtain b where b: "b \<in> W" "k = index_key b \<or> (\<exists>f \<in> set (at_files b). k = meta_object (at_term b) (at_rev b) (fst f))"
      unfolding attempts_only_def by blast
    with manifest_suffix fn k(3) have "k = index_key b" by blast
    with b(1) k(1) show "k \<in> index_key ` {b \<in> W. abs ob (index_key b) \<noteq> None}" by auto
  next
    fix k assume "k \<in> index_key ` {b \<in> W. abs ob (index_key b) \<noteq> None}"
    moreover have "HasSuffix (index_key b) (str ''/manifest.json'')" for b by (simp add: index_key_def CheckpointIndexKey_def)
    ultimately show "k \<in> set keys" using keys ks(2) by auto
  qed
  with keys ks(1) show "sorted keys \<and> distinct keys \<and> set keys = index_key ` {b \<in> W. abs ob (index_key b) \<noteq> None}" by simp
qed

lemma ReadBranchEntries_spec:
  assumes "ReadBranchEntries S ob = (r, ob')"
  shows "abs ob' = abs ob" and "reads_ok S \<Longrightarrow> ascii key \<Longrightarrow>
    abs ob (branchKey i) = Some (marshalBranch \<lparr>be_AncestorCheckpointKey = key\<rparr>) \<Longrightarrow> r = Inr entries \<Longrightarrow>
    key \<in> set (map (be_AncestorCheckpointKey \<circ> snd) entries)"
proof -
  obtain x ob1 where l: "st_List S (str ''branches/'') ob = (x, ob1)" by (cases "st_List S (str ''branches/'') ob")
  note fr = List_frame [OF l]
  have "abs ob' = abs ob" if "x = Inl e" for e using assms l that fr by (simp add: ReadBranchEntries_def)
  moreover have rb: "read_branches_loop S ks ob1 = (r, ob')" if "x = Inr ks" for ks
    using assms l that by (simp add: ReadBranchEntries_def)
  ultimately show "abs ob' = abs ob" using read_branches_spec(1) fr by (cases x) fastforce+
  assume h: "reads_ok S" "ascii key" "abs ob (branchKey i) = Some (marshalBranch \<lparr>be_AncestorCheckpointKey = key\<rparr>)" "r = Inr entries"
  then obtain ks where x: "x = Inr ks" using assms l by (cases x) (auto simp: ReadBranchEntries_def)
  from List_keys [OF l [unfolded x]] h(3) have "branchKey i \<in> set ks" by (simp add: dom_def)
  from read_branches_spec(2) [OF rb [OF x] h(1,2) this _ h(4)] h(3) fr
  show "key \<in> set (map (be_AncestorCheckpointKey \<circ> snd) entries)" by simp
qed

end

context object_store
begin

text \<open>A safe checkpoint is among the newest ones, or pinned.\<close>

lemma newest_or_pinned:
  assumes b: "ReadBranchEntries S ob = (Inr entries, ob')" and r: "reads_ok S"
    and a: "a \<in> W" "ordered_attempts W" "abs ob (index_key a) = Some (marshalIndex (index_of a))" "safe_from_gc W (abs ob) a"
    and keys: "sorted keys" "distinct keys" "set keys = index_key ` {b \<in> W. abs ob (index_key b) \<noteq> None}" and n: "0 < n"
  shows "index_key a \<notin> set (take (length keys - n) keys) \<and> index_key a \<in> set (drop (length keys - n) keys) \<or>
    index_key a \<in> set (remdups (filter (\<lambda>k. k \<noteq> []) (map (be_AncestorCheckpointKey \<circ> snd) entries)))"
  using a(4) unfolding safe_from_gc_def
proof
  assume top: "\<forall>b \<in> W. b = a \<or> newer b a"
  have "\<forall>k \<in> set keys. k \<le> index_key a"
    using top a(1,2) index_key_less unfolding keys(3) ordered_attempts_def by (auto simp: less_imp_le)
  moreover have "index_key a \<in> set keys" unfolding keys(3) using a(1,3) by auto
  ultimately have "index_key a \<in> set (drop (length keys - n) keys)" by (intro sorted_max_in_drop [OF keys(1)]) (use n in auto)
  moreover have "set (take (length keys - n) keys) \<inter> set (drop (length keys - n) keys) = {}"
    using keys(2) by (simp add: set_take_disj_set_drop_if_distinct)
  ultimately show ?thesis by blast
next
  assume "\<exists>i. abs ob (branchKey i) = Some (marshalBranch \<lparr>be_AncestorCheckpointKey = index_key a\<rparr>)"
  then obtain i where pin: "abs ob (branchKey i) = Some (marshalBranch \<lparr>be_AncestorCheckpointKey = index_key a\<rparr>)" by blast
  have "ascii (index_key a)" "index_key a \<noteq> []" by (simp add: index_key_def) (simp add: index_key_def CheckpointIndexKey_def str_def)
  with ReadBranchEntries_spec(2) [OF b r _ pin refl] show ?thesis by auto
qed

text \<open>The keys whose objects a garbage collection removes.\<close>

lemma GCCheckpoints_effect:
  assumes gc: "GCCheckpoints S keep ob = ((n, orphans, e), ob1)" and r: "reads_ok S"
    and W: "ordered_attempts W" "attempts_only W (abs ob)"
  shows "\<exists>D ks. ks \<subseteq> index_key ` W \<and> only_below ks D \<and> abs ob1 = abs ob |` (- D) \<and>
    (\<forall>s \<in> set orphans. HasPrefix s (str ''sst/'')) \<and>
    (\<forall>a \<in> W. safe_from_gc W (abs ob) a \<and> intact a (abs ob) \<longrightarrow>
       index_key a \<notin> ks \<and> set orphans \<inter> set (ci_SSTFiles (index_of a)) = {})"
proof -
  let ?keep = "nat (if keep < 1 then 1 else keep)"
  obtain m o1 where m: "ReadManifest S ob = (m, o1)" by (cases "ReadManifest S ob")
  obtain br o2 where b: "ReadBranchEntries S o1 = (br, o2)" by (cases "ReadBranchEntries S o1")
  obtain l o3 where l: "ListRemote S o2 = (l, o3)" by (cases "ListRemote S o2")
  have fr: "abs o1 = abs ob" "abs o2 = abs ob" "abs o3 = abs ob"
    using ReadManifest_frame [OF m] ReadBranchEntries_spec(1) [OF b] ListRemote_spec(1) [OF l W(1)] W(2) by simp_all
  show ?thesis
  proof (cases "\<exists>mf entries keys. m = Inr mf \<and> br = Inr entries \<and> l = Inr keys \<and> \<not> length keys \<le> ?keep")
    case False
    with gc m b l fr have "abs ob1 = abs ob \<and> orphans = []"
      by (auto simp: GCCheckpoints_def Let_def split: sum.splits if_splits)
    then have "abs ob1 = abs ob" "orphans = []" by simp_all
    then show ?thesis by (intro exI [of _ "{}"]) (simp add: only_below_def)
  next
    case True
    then obtain mf entries keys where mbl: "m = Inr mf" "br = Inr entries" "l = Inr keys" "\<not> length keys \<le> ?keep" by blast
    let ?pinned = "remdups (filter (\<lambda>k. k \<noteq> []) (map (be_AncestorCheckpointKey \<circ> snd) entries))"
    let ?old = "take (length keys - ?keep) keys" and ?new = "drop (length keys - ?keep) keys"
    obtain live o4 where l1: "live_ssts S ?new o3 = (live, o4)" by (cases "live_ssts S ?new o3")
    obtain pl o5 where l2: "live_ssts S ?pinned o4 = (pl, o5)" by (cases "live_ssts S ?pinned o4")
    have fr5: "abs o4 = abs ob" "abs o5 = abs ob" using live_ssts_spec(1) [OF l1] live_ssts_spec(1) [OF l2] fr by simp_all
    let ?keepers = "(case mf of None \<Rightarrow> [] | Some m \<Rightarrow> [mf_CheckpointKey m]) @ ?pinned"
    have loop: "gc_delete_loop S ?keepers (live @ pl) ?old 0 [] o5 = ((n, orphans, e), ob1)"
      using gc m b l l1 l2 mbl by (simp add: GCCheckpoints_def Let_def)
    have keys: "sorted keys" "distinct keys" "set keys = index_key ` {b \<in> W. abs ob (index_key b) \<noteq> None}"
      using ListRemote_spec(2) [OF l W(1) _ mbl(3)] W(2) fr by auto
    have old: "set ?old \<subseteq> index_key ` W" using keys(3) set_take_subset by fastforce
    from gc_delete_loop_effect [OF loop W(1) _ old] W(2) fr5 obtain D where
      D: "only_below (set ?old - set ?keepers) D" "abs ob1 = abs ob |` (- D)"
      and o: "\<forall>s \<in> set orphans. s \<notin> set (live @ pl) \<and> HasPrefix s (str ''sst/'')" by auto
    have "index_key a \<notin> set ?old - set ?keepers \<and> set orphans \<inter> set (ci_SSTFiles (index_of a)) = {}"
      if a: "a \<in> W" "safe_from_gc W (abs ob) a" "intact a (abs ob)" for a
    proof -
      have ok: "attempt_ok a" and ia: "abs ob (index_key a) = Some (marshalIndex (index_of a))"
        using a W(1) by (simp_all add: ordered_attempts_def intact_def)
      from newest_or_pinned [OF b [unfolded mbl(2)] r a(1) W(1) ia [folded fr(1)] _ keys(1,2)] a(2) fr(1) keys(3)
      have "index_key a \<notin> set ?old \<and> index_key a \<in> set ?new \<or> index_key a \<in> set ?pinned" by simp
      then show ?thesis
      proof
        assume "index_key a \<notin> set ?old \<and> index_key a \<in> set ?new"
        with live_ssts_spec(2) [OF l1 r ok] ia fr o show ?thesis by auto
      next
        assume "index_key a \<in> set ?pinned"
        with live_ssts_spec(2) [OF l2 r ok] ia fr5 o show ?thesis by auto
      qed
    qed
    with D o old show ?thesis by (intro exI [of _ D] exI [of _ "set ?old - set ?keepers"]) blast
  qed
qed

lemma checkpoint_gc_effect:
  assumes r: "reads_ok S" and W: "ordered_attempts W" "attempts_only W (abs ob)"
  shows "\<exists>X. abs (checkpoint_gc S ob) = abs ob |` X \<and>
    (\<forall>k. \<not> HasPrefix k (str ''checkpoint/'') \<and> \<not> HasPrefix k (str ''sst/'') \<longrightarrow> k \<in> X) \<and>
    (\<forall>a \<in> W. safe_from_gc W (abs ob) a \<and> intact a (abs ob) \<longrightarrow> intact a (abs (checkpoint_gc S ob)))"
proof -
  obtain n orphans e ob1 where gc: "GCCheckpoints S 2 ob = ((n, orphans, e), ob1)" by (metis prod.collapse)
  from GCCheckpoints_effect [OF gc r W] obtain D ks where
    D: "ks \<subseteq> index_key ` W" "only_below ks D" "abs ob1 = abs ob |` (- D)" "\<forall>s \<in> set orphans. HasPrefix s (str ''sst/'')"
    "\<forall>a \<in> W. safe_from_gc W (abs ob) a \<and> intact a (abs ob) \<longrightarrow>
       index_key a \<notin> ks \<and> set orphans \<inter> set (ci_SSTFiles (index_of a)) = {}" by blast
  have "\<exists>E \<subseteq> set orphans. abs ob1 = abs ob1 |` (- E)" by (intro exI [of _ "{}"]) simp
  then have "\<exists>E \<subseteq> set orphans. abs (checkpoint_gc S ob) = abs ob1 |` (- E)"
    using gc GCOrphanSSTs_effect [of orphans ob1 "fst (GCOrphanSSTs S orphans ob1)" "snd (GCOrphanSSTs S orphans ob1)"]
    by (simp add: checkpoint_gc_def)
  then obtain E where E: "E \<subseteq> set orphans" "abs (checkpoint_gc S ob) = abs ob |` (- (D \<union> E))"
    using D(3) by (auto simp: Int_commute)
  have "HasPrefix k (str ''checkpoint/'') \<or> HasPrefix k (str ''sst/'')" if "k \<in> D \<union> E" for k
  proof (cases "k \<in> D")
    case True
    then obtain b where "HasPrefix k (dir_prefix (index_key b))" using D(1,2) unfolding only_below_def by blast
    then show ?thesis by (auto simp: dir_prefix_index HasPrefix_iff prefix_def CheckpointKey_def)
  qed (use that E(1) D(4) in auto)
  moreover have "intact a (abs (checkpoint_gc S ob))" if "a \<in> W" "safe_from_gc W (abs ob) a" "intact a (abs ob)" for a
    unfolding E(2) by (rule intact_after_gc [OF that(3,1) W(1) D(1) _ D(2)]) (use D(4,5) E(1) that in blast)+
  ultimately show ?thesis using E(2) by (intro exI [of _ "- (D \<union> E)"]) auto
qed

end

section \<open>Other attempts are not disturbed by a write\<close>

lemma index_not_meta:
  assumes "attempt_ok a" "attempt_ok b" "f \<in> set (at_files b)"
  shows "index_key a \<noteq> meta_object (at_term b) (at_rev b) (fst f)"
proof
  assume "index_key a = meta_object (at_term b) (at_rev b) (fst f)"
  with CheckpointKey_eq [OF assms(1,2), of "str ''/manifest.json''" "str ''/'' @ fst f"]
  have "str ''manifest.json'' = fst f" by (simp add: index_key_def CheckpointIndexKey_def meta_object_def str_def)
  moreover have "file_name (fst f)" using assms(2,3) by (simp add: attempt_ok_def)
  ultimately show False by (simp add: file_name_def)
qed

lemma index_key_eq: "attempt_ok a \<Longrightarrow> attempt_ok b \<Longrightarrow> index_key a = index_key b \<Longrightarrow> at_term a = at_term b \<and> at_rev a = at_rev b"
  using CheckpointKey_eq [of a b "str ''/manifest.json''" "str ''/manifest.json''"]
  by (simp add: index_key_def CheckpointIndexKey_def)

lemma index_key_not_obj:
  assumes "attempt_ok a" "attempt_ok b" "f \<in> set (at_files b)"
  shows "index_key a \<noteq> obj_key b f"
  using index_not_meta [OF assms] key_distinct [OF key_prefixes(1) key_prefixes(12)] by (metis obj_key_def)

lemma obj_key_same_content:
  assumes "attempt_ok a" "attempt_ok b" "newer b a" "collision_free U" "set (at_files a) \<subseteq> U" "set (at_files b) \<subseteq> U"
    and "f \<in> set (at_files a)" "g \<in> set (at_files b)" "obj_key a f = obj_key b g"
  shows "snd f = snd g"
proof (cases "is_sst (fst f) \<and> is_sst (fst g)")
  case True
  then show ?thesis using assms(4-9) unfolding collision_free_def obj_key_def by auto
next
  case False
  have "\<not> is_sst (fst f) \<and> \<not> is_sst (fst g)"
    using False assms(9) key_distinct [OF key_prefixes(3) key_prefixes(2)] by (auto simp: obj_key_def split: if_splits) metis+
  then have "meta_object (at_term a) (at_rev a) (fst f) = meta_object (at_term b) (at_rev b) (fst g)"
    using assms(9) by (simp add: obj_key_def)
  with CheckpointKey_eq [OF assms(1,2)] newer_not_eq [OF assms(3)] show ?thesis by (fastforce simp: meta_object_def)
qed

lemma intact_written:
  assumes a: "attempt_ok a" "attempt_ok b" "newer b a" "collision_free U" "set (at_files a) \<subseteq> U" "set (at_files b) \<subseteq> U"
    and w: "written a ok A A'" and b: "intact b A"
  shows "intact b A'"
proof -
  from w obtain A1 where g: "grows a (set (at_files a)) A A1"
    and A': "\<forall>k. k \<noteq> index_key a \<and> k \<noteq> ManifestKey \<longrightarrow> A' k = A1 k" unfolding written_def complete_def by fastforce
  have neq: "index_key b \<noteq> index_key a" using index_key_eq [OF a(2,1)] newer_not_eq [OF a(3)] by blast
  have "index_key b \<noteq> obj_key a f" if "f \<in> set (at_files a)" for f using index_key_not_obj [OF a(2,1) that] .
  then have "A1 (index_key b) = A (index_key b)" using g unfolding grows_def by metis
  moreover have "index_key b \<noteq> ManifestKey" using key_prefixes(4,5) by metis
  ultimately have i: "A' (index_key b) = A (index_key b)" using A' neq by simp
  have "A' (obj_key b f) = Some (snd f)" if f: "f \<in> set (at_files b)" for f
  proof -
    have st: "A (obj_key b f) = Some (snd f)" using b f by (simp add: intact_def stored_def)
    have "A1 (obj_key b f) = Some (snd f)"
    proof (cases "A1 (obj_key b f) = A (obj_key b f)")
      case False
      then obtain h where "h \<in> set (at_files a)" "obj_key a h = obj_key b f" "A1 (obj_key b f) = Some (snd h)"
        using g unfolding grows_def by metis
      with obj_key_same_content [OF a _ f] show ?thesis by simp
    qed (use st in simp)
    moreover have "obj_key b f \<noteq> ManifestKey" using key_prefixes(1,3,5,6) by (metis obj_key_def)
    moreover have "obj_key b f \<noteq> index_key a" using index_key_not_obj [OF a(1,2) f] by simp
    ultimately show ?thesis using A' by simp
  qed
  with i b show ?thesis by (simp add: intact_def stored_def)
qed

lemma attempts_only_written:
  assumes W: "ordered_attempts W" "attempts_only W A" and a: "attempt_ok a" "\<forall>b \<in> W. newer b a" and w: "written a ok A A'"
  shows "attempts_only (insert a W) A'"
proof -
  from w obtain A1 where g: "grows a (set (at_files a)) A A1"
    and A': "\<forall>k. k \<noteq> index_key a \<and> k \<noteq> ManifestKey \<longrightarrow> A' k = A1 k"
      "A' (index_key a) = A1 (index_key a) \<or> A' (index_key a) = Some (marshalIndex (index_of a))"
    unfolding written_def complete_def using key_distinct [OF key_prefixes(4) key_prefixes(5)] by fastforce
  have ok: "attempt_ok b" if "b \<in> W" for b using that W(1) by (simp add: ordered_attempts_def)
  have g1: "A1 (index_key b) = A (index_key b)" if "attempt_ok b" for b
    using g index_key_not_obj [OF that a(1)] unfolding grows_def by metis
  have neq: "index_key b \<noteq> index_key a" if "b \<in> W" for b
    using index_key_eq [OF ok [OF that] a(1)] newer_not_eq a(2) that by blast
  have "A (index_key a) = None"
  proof (rule ccontr)
    assume "A (index_key a) \<noteq> None"
    then have "index_key a \<in> dom A" by blast
    with W(2) key_prefixes(4) obtain b where "b \<in> W" "index_key a = index_key b \<or>
        (\<exists>f \<in> set (at_files b). index_key a = meta_object (at_term b) (at_rev b) (fst f))" unfolding attempts_only_def by blast
    with neq index_not_meta [OF a(1) ok] show False by metis
  qed
  then have ia: "A' (index_key a) = None \<or> A' (index_key a) = Some (marshalIndex (index_of a))"
    using A'(2) g1 [OF a(1)] by simp
  have ib: "A' (index_key b) = A (index_key b)" if "b \<in> W" for b
    using A'(1) g1 [OF ok [OF that]] neq [OF that] key_distinct [OF key_prefixes(4) key_prefixes(5)] by metis
  have "\<exists>b \<in> insert a W. k = index_key b \<or> (\<exists>f \<in> set (at_files b). k = meta_object (at_term b) (at_rev b) (fst f))"
    if k: "k \<in> dom A'" "HasPrefix k (str ''checkpoint/'')" for k
  proof (cases "k = index_key a")
    case False
    with k A'(1) have "A1 k \<noteq> None" using key_prefixes(5) by (metis domIff)
    with g consider "A k \<noteq> None" | f where "f \<in> set (at_files a)" "k = obj_key a f" unfolding grows_def by metis
    then show ?thesis
    proof cases
      case 1
      with W(2) k(2) show ?thesis unfolding attempts_only_def by blast
    next
      case (2 f)
      with k(2) show ?thesis using key_prefixes(2) by (auto simp: obj_key_def split: if_splits)
    qed
  qed simp
  with ia ib W(2) show ?thesis unfolding attempts_only_def by auto
qed

end
