(* ===== verification/Checkpoint_Run.thy ===== *)
theory Checkpoint_Run
  imports Checkpoint_GC
begin

text \<open>
  Checkpoints stay restorable. The system \<open>ckpt_run\<close> runs writers (with any failures), the uploader, garbage
  collection after a successful write, forks and other activity against one object store. Its invariant: the manifest
  names an intact checkpoint that is not older than the last successful write, and so does every branch entry.

  Two checkpoints that cannot be restored are exhibited: one whose registry is stale, and one of a branch.
\<close>

section \<open>Runs\<close>

text \<open>The objects that belong to checkpoints.\<close>

definition ckpt_object :: "gostring \<Rightarrow> bool" where
  "ckpt_object k \<longleftrightarrow> k = ManifestKey \<or> HasPrefix k (str ''checkpoint/'') \<or> HasPrefix k (str ''sst/'') \<or> HasPrefix k (str ''branches/'')"

text \<open>
  The attempts so far with their outcomes, and the branches registered. Attempts come with increasing term and
  revision. The registry of the uploader, when it is used, holds SST files that are in the store; garbage
  collection runs after a successful write; everything else leaves the objects of checkpoints alone.
\<close>

inductive ckpt_run :: "('o, 'm) store_scheme \<Rightarrow> ('o \<Rightarrow> gostring \<rightharpoonup> bytes) \<Rightarrow> (gostring \<times> bytes) set \<Rightarrow>
    (ckpt_write \<times> bool) list \<Rightarrow> (gostring \<times> ckpt_write) list \<Rightarrow> 'o \<Rightarrow> bool" for S A U where
  run_start: "\<forall>k. ckpt_object k \<longrightarrow> A ob k = None \<Longrightarrow> ckpt_run S A U [] [] ob"
| run_write: "ckpt_run S A U ws forks ob \<Longrightarrow> attempt_ok a \<Longrightarrow> set (at_files a) \<subseteq> U \<Longrightarrow> \<forall>w \<in> set ws. newer (fst w) a \<Longrightarrow>
    makes_checkpoint ckpt (at_files a) \<Longrightarrow>
    WriteAtSequence S ckpt tmp None (at_term a) (at_rev a) (at_seq a) (at_wal a) d ob = (e, d', ob') \<Longrightarrow>
    ckpt_run S A U (ws @ [(a, e = None)]) forks ob'"
| run_write_registry: "ckpt_run S A U ws forks ob \<Longrightarrow> attempt_ok a \<Longrightarrow> set (at_files a) \<subseteq> U \<Longrightarrow> \<forall>w \<in> set ws. newer (fst w) a \<Longrightarrow>
    makes_checkpoint ckpt (at_files a) \<Longrightarrow>
    \<forall>f \<in> set (at_files a). \<forall>k. is_sst (fst f) \<and> map_of reg (fst f) = Some k \<longrightarrow>
      stored a (A ob) f \<and> k = sst_key (snd f) (fst f) \<Longrightarrow>
    WriteWithRegistryAtSequence S ckpt tmp (at_term a) (at_rev a) (at_seq a) (at_wal a) reg [] d ob = (e, d', ob') \<Longrightarrow>
    ckpt_run S A U (ws @ [(a, e = None)]) forks ob'"
| run_upload: "ckpt_run S A U ws forks ob \<Longrightarrow> \<forall>c. content d path = Some c \<longrightarrow> (path_base path, c) \<in> U \<and> is_sst (path_base path) \<Longrightarrow>
    uploadOne S path u d ob = (e, u', d', ob') \<Longrightarrow> ckpt_run S A U ws forks ob'"
| run_gc: "ckpt_run S A U ws forks ob \<Longrightarrow> ws \<noteq> [] \<Longrightarrow> snd (last ws) \<Longrightarrow> ckpt_run S A U ws forks (checkpoint_gc S ob)"
| run_fork: "ckpt_run S A U ws forks ob \<Longrightarrow> Fork S i ob = (Inr (index_key a), ob') \<Longrightarrow> a \<in> fst ` set ws \<Longrightarrow>
    ckpt_run S A U ws ((i, a) # filter (\<lambda>f. fst f \<noteq> i) forks) ob'"
| run_fork_failed: "ckpt_run S A U ws forks ob \<Longrightarrow> Fork S i ob = (Inl e, ob') \<Longrightarrow>
    ckpt_run S A U ws (filter (\<lambda>f. fst f \<noteq> i) forks) ob'"
| run_unfork: "ckpt_run S A U ws forks ob \<Longrightarrow> Unfork S i ob = (e, ob') \<Longrightarrow>
    ckpt_run S A U ws (filter (\<lambda>f. fst f \<noteq> i) forks) ob'"
| run_other: "ckpt_run S A U ws forks ob \<Longrightarrow> \<forall>k. ckpt_object k \<longrightarrow> A ob' k = A ob k \<Longrightarrow> ckpt_run S A U ws forks ob'"

definition manifest_inv :: "(ckpt_write \<times> bool) list \<Rightarrow> (gostring \<rightharpoonup> bytes) \<Rightarrow> bool" where
  "manifest_inv ws A \<longleftrightarrow> A ManifestKey = None \<and> (\<forall>w \<in> set ws. \<not> snd w) \<or>
     (\<exists>pre b ok post. ws = pre @ (b, ok) # post \<and> (\<forall>w \<in> set post. \<not> snd w) \<and> names_manifest b A)"

definition forks_inv :: "ckpt_write set \<Rightarrow> (gostring \<times> ckpt_write) list \<Rightarrow> (gostring \<rightharpoonup> bytes) \<Rightarrow> bool" where
  "forks_inv W forks A \<longleftrightarrow> (\<forall>(i, a) \<in> set forks. a \<in> W \<and> intact a A \<and>
     A (branchKey i) = Some (marshalBranch \<lparr>be_AncestorCheckpointKey = index_key a\<rparr>))"

definition ckpt_inv :: "(gostring \<times> bytes) set \<Rightarrow> (ckpt_write \<times> bool) list \<Rightarrow> (gostring \<times> ckpt_write) list \<Rightarrow>
    (gostring \<rightharpoonup> bytes) \<Rightarrow> bool" where
  "ckpt_inv U ws forks A \<longleftrightarrow> sorted_wrt newer (map fst ws) \<and> (\<forall>w \<in> set ws. attempt_ok (fst w) \<and> set (at_files (fst w)) \<subseteq> U) \<and>
     attempts_only (fst ` set ws) A \<and> manifest_inv ws A \<and> forks_inv (fst ` set ws) forks A"

lemma sorted_newer: "sorted_wrt newer xs \<Longrightarrow> \<forall>a \<in> set xs. \<forall>b \<in> set xs. a = b \<or> newer a b \<or> newer b a"
  by (induction xs) auto

lemma ckpt_invD:
  assumes "ckpt_inv U ws forks A"
  shows "ordered_attempts (fst ` set ws)" and "attempts_only (fst ` set ws) A" and "manifest_inv ws A"
    and "forks_inv (fst ` set ws) forks A" and "sorted_wrt newer (map fst ws)"
    and "w \<in> set ws \<Longrightarrow> attempt_ok (fst w)" "w \<in> set ws \<Longrightarrow> set (at_files (fst w)) \<subseteq> U"
  using assms sorted_newer [of "map fst ws"] by (auto simp: ckpt_inv_def ordered_attempts_def)

lemma ckpt_inv_manifest:
  assumes "ckpt_inv U ws forks A"
  shows "A ManifestKey = None \<or> (\<exists>b. names_manifest b A \<and> attempt_ok b \<and> set (at_files b) \<subseteq> U)"
  using assms unfolding ckpt_inv_def manifest_inv_def by auto

lemma forks_invD:
  assumes "forks_inv W forks A" "(i, a) \<in> set forks"
  shows "a \<in> W" "intact a A" "A (branchKey i) = Some (marshalBranch \<lparr>be_AncestorCheckpointKey = index_key a\<rparr>)"
  using assms unfolding forks_inv_def by fastforce+

lemma forks_inv_change:
  assumes "forks_inv W forks A" "W \<subseteq> W'" "set forks' \<subseteq> set forks"
    and "\<And>i a. (i, a) \<in> set forks' \<Longrightarrow> intact a A \<Longrightarrow> intact a A' \<and> A' (branchKey i) = A (branchKey i)"
  shows "forks_inv W' forks' A'"
  unfolding forks_inv_def
proof (intro ballI, clarify)
  fix i a assume f: "(i, a) \<in> set forks'"
  then have "(i, a) \<in> set forks" using assms(3) by blast
  note D = forks_invD [OF assms(1) this]
  from assms(4) [OF f D(2)] D(1,3) assms(2)
  show "a \<in> W' \<and> intact a A' \<and> A' (branchKey i) = Some (marshalBranch \<lparr>be_AncestorCheckpointKey = index_key a\<rparr>)" by auto
qed

text \<open>Writing.\<close>

lemma obj_key_not_manifest: "obj_key a f \<noteq> ManifestKey"
  using key_prefixes(1,3,5,6) by (metis obj_key_def)

lemma manifest_inv_failed:
  assumes "manifest_inv ws A" "\<not> ok" "A' ManifestKey = A ManifestKey" "\<forall>b \<in> fst ` set ws. intact b A \<longrightarrow> intact b A'"
  shows "manifest_inv (ws @ [(a, ok)]) A'"
  using assms(1) unfolding manifest_inv_def
proof
  assume "A ManifestKey = None \<and> (\<forall>w \<in> set ws. \<not> snd w)"
  with assms(2,3) show "A' ManifestKey = None \<and> (\<forall>w \<in> set (ws @ [(a, ok)]). \<not> snd w) \<or>
    (\<exists>pre b okb post. ws @ [(a, ok)] = pre @ (b, okb) # post \<and> (\<forall>w \<in> set post. \<not> snd w) \<and> names_manifest b A')" by auto
next
  assume "\<exists>pre b ok post. ws = pre @ (b, ok) # post \<and> (\<forall>w \<in> set post. \<not> snd w) \<and> names_manifest b A"
  then obtain pre b okb post where b: "ws = pre @ (b, okb) # post" "\<forall>w \<in> set post. \<not> snd w" "names_manifest b A" by blast
  then have "names_manifest b A'" using assms(3,4) by (force simp: names_manifest_def)
  with b assms(2) have "ws @ [(a, ok)] = pre @ (b, okb) # (post @ [(a, ok)]) \<and> (\<forall>w \<in> set (post @ [(a, ok)]). \<not> snd w) \<and> names_manifest b A'"
    by auto
  then show "A' ManifestKey = None \<and> (\<forall>w \<in> set (ws @ [(a, ok)]). \<not> snd w) \<or>
    (\<exists>pre b okb post. ws @ [(a, ok)] = pre @ (b, okb) # post \<and> (\<forall>w \<in> set post. \<not> snd w) \<and> names_manifest b A')" by blast
qed

lemma manifest_inv_complete:
  assumes "attempt_ok a" "\<forall>f \<in> set (at_files a). stored a A f"
  shows "manifest_inv (ws @ [(a, ok)]) (complete a A)"
proof -
  have "index_key a \<noteq> ManifestKey" using key_prefixes(4,5) by metis
  then have "names_manifest a (complete a A)"
    using assms index_key_not_obj [OF assms(1,1), symmetric] obj_key_not_manifest [of a]
    unfolding names_manifest_def intact_def complete_def stored_def by simp
  then show ?thesis unfolding manifest_inv_def by (intro disjI2 exI [of _ ws] exI [of _ a] exI [of _ ok] exI [of _ "[]"]) simp
qed

lemma inv_written:
  assumes I: "ckpt_inv U ws forks A" and a: "attempt_ok a" "set (at_files a) \<subseteq> U" "\<forall>w \<in> set ws. newer (fst w) a"
    and U: "collision_free U" and w: "written a ok A A'"
  shows "ckpt_inv U (ws @ [(a, ok)]) forks A'"
proof -
  note D = ckpt_invD [OF I]
  have keep: "intact b A'" if "b \<in> fst ` set ws" "intact b A" for b
    using intact_written [OF a(1) _ _ U a(2) _ w that(2)] that(1) D(6,7) a(3) by auto
  from w obtain A1 where g: "grows a (set (at_files a)) A A1"
    and A': "\<not> ok \<and> A' = A1 \<or> (\<forall>f \<in> set (at_files a). stored a A1 f) \<and>
      (\<not> ok \<and> A' = A1(index_key a \<mapsto> marshalIndex (index_of a)) \<or> A' = complete a A1)" unfolding written_def by blast
  have frame: "A1 k = A k" if "\<not> HasPrefix k (str ''checkpoint/'')" "\<not> HasPrefix k (str ''sst/'')" for k
    using g that key_prefixes(1,3) unfolding grows_def obj_key_def by metis
  have ik: "index_key a \<noteq> ManifestKey" "index_key a \<noteq> branchKey i" for i using key_prefixes(4,5,7) by metis+
  have "manifest_inv (ws @ [(a, ok)]) A'"
  proof (cases "A' = complete a A1 \<and> (\<forall>f \<in> set (at_files a). stored a A1 f)")
    case True
    with manifest_inv_complete [OF a(1)] show ?thesis by simp
  next
    case False
    with A' ik frame have "\<not> ok" "A' ManifestKey = A ManifestKey" by auto
    with keep show ?thesis by (intro manifest_inv_failed [OF D(3)]) auto
  qed
  moreover have "A' (branchKey i) = A (branchKey i)" for i
  proof -
    have "A1 (branchKey i) = A (branchKey i)" by (rule frame) simp_all
    moreover have "branchKey i \<noteq> ManifestKey" using key_prefixes(9,10) by metis
    ultimately show ?thesis using A' ik(2) [of i] by (auto simp: complete_def)
  qed
  then have "forks_inv (insert a (fst ` set ws)) forks A'"
    using keep forks_invD(1) [OF D(4)] by (intro forks_inv_change [OF D(4)]) auto
  moreover have "attempts_only (insert a (fst ` set ws)) A'"
    using attempts_only_written [OF D(1,2) a(1) _ w] a(3) by auto
  ultimately show ?thesis using D(5,6,7) a unfolding ckpt_inv_def by (auto simp: sorted_wrt_append)
qed

text \<open>Steps that add nothing to the attempts.\<close>

lemma inv_change:
  assumes I: "ckpt_inv U ws forks A" and f: "set forks' \<subseteq> set forks" and X: "attempts_only (fst ` set ws) A'"
    and m: "A' ManifestKey = A ManifestKey" "\<And>b. b \<in> fst ` set ws \<Longrightarrow> names_manifest b A \<Longrightarrow> intact b A'"
    and b: "\<And>i a. (i, a) \<in> set forks' \<Longrightarrow> a \<in> fst ` set ws \<Longrightarrow> intact a A \<Longrightarrow> intact a A' \<and> A' (branchKey i) = A (branchKey i)"
  shows "ckpt_inv U ws forks' A'"
proof -
  note D = ckpt_invD [OF I]
  have "names_manifest b A'" if "b \<in> fst ` set ws" "names_manifest b A" for b
    using that m by (simp add: names_manifest_def)
  then have "manifest_inv ws A'" using D(3) m(1) unfolding manifest_inv_def by fastforce
  moreover have "forks_inv (fst ` set ws) forks' A'"
    using b f forks_invD(1) [OF D(4)] by (intro forks_inv_change [OF D(4)]) auto
  ultimately show ?thesis using I X unfolding ckpt_inv_def by auto
qed

lemma intact_cong: "(\<And>k. ckpt_object k \<Longrightarrow> \<not> HasPrefix k (str ''branches/'') \<Longrightarrow> A' k = A k) \<Longrightarrow> intact a A \<Longrightarrow> intact a A'"
  by (auto simp: intact_def stored_def obj_key_def ckpt_object_def)

lemma attempts_only_cong:
  "(\<And>k. HasPrefix k (str ''checkpoint/'') \<Longrightarrow> A' k = A k) \<Longrightarrow> attempts_only W A \<Longrightarrow> attempts_only W A'"
  unfolding attempts_only_def dom_def by (simp; metis)

text \<open>Only branch entries change.\<close>

lemma inv_branches:
  assumes I: "ckpt_inv U ws forks A" and k: "\<And>k. \<not> HasPrefix k (str ''branches/'') \<Longrightarrow> A' k = A k"
    and b: "\<And>j. j \<noteq> i \<Longrightarrow> A' (branchKey j) = A (branchKey j)"
  shows "ckpt_inv U ws (filter (\<lambda>f. fst f \<noteq> i) forks) A'"
proof (rule inv_change [OF I])
  have ck: "\<not> HasPrefix k (str ''branches/'')" if "HasPrefix k (str ''checkpoint/'')" for k
    using that by (auto simp: HasPrefix_iff prefix_def str_def)
  show "attempts_only (fst ` set ws) A'" using ckpt_invD(2) [OF I] k ck by (intro attempts_only_cong [of A' A]) auto
  have i: "intact a A \<Longrightarrow> intact a A'" for a using k by (intro intact_cong [of A' A]) auto
  then show "b \<in> fst ` set ws \<Longrightarrow> names_manifest b A \<Longrightarrow> intact b A'" for b by (simp add: names_manifest_def)
  show "(j, a) \<in> set (filter (\<lambda>f. fst f \<noteq> i) forks) \<Longrightarrow> a \<in> fst ` set ws \<Longrightarrow> intact a A \<Longrightarrow>
    intact a A' \<and> A' (branchKey j) = A (branchKey j)" for j a using i b by auto
qed (use k in auto)

context object_store
begin

lemma branch_put:
  assumes "st_Put S (branchKey i) b ob = (e, ob')"
  shows "\<not> HasPrefix k (str ''branches/'') \<Longrightarrow> abs ob' k = abs ob k" "j \<noteq> i \<Longrightarrow> abs ob' (branchKey j) = abs ob (branchKey j)"
  using Put_other [OF assms] key_prefixes(9) by (metis, simp add: branchKey_def)

lemma inv_fork_failed:
  assumes "ckpt_inv U ws forks (abs ob)" "Fork S i ob = (Inl e, ob')"
  shows "ckpt_inv U ws (filter (\<lambda>f. fst f \<noteq> i) forks) (abs ob')"
proof -
  obtain m ob1 where m: "ReadManifest S ob = (m, ob1)" by (cases "ReadManifest S ob")
  note fr = ReadManifest_frame [OF m]
  have "abs ob' = abs ob \<or> (\<exists>b x. st_Put S (branchKey i) b ob1 = (x, ob'))"
    using assms(2) m fr by (auto simp: Fork_def RegisterBranch_def split: sum.splits option.splits prod.splits)
  then show ?thesis
  proof
    assume "\<exists>b x. st_Put S (branchKey i) b ob1 = (x, ob')"
    then obtain b x where p: "st_Put S (branchKey i) b ob1 = (x, ob')" by blast
    from branch_put [OF p] fr show ?thesis by (intro inv_branches [OF assms(1)]) auto
  qed (intro inv_branches [OF assms(1)], auto)
qed

lemma inv_fork:
  assumes I: "ckpt_inv U ws forks (abs ob)" and f: "Fork S i ob = (Inr (index_key a), ob')" and a: "a \<in> fst ` set ws"
  shows "ckpt_inv U ws ((i, a) # filter (\<lambda>f. fst f \<noteq> i) forks) (abs ob')"
proof -
  note D = ckpt_invD [OF I]
  obtain m ob1 where m: "ReadManifest S ob = (Inr (Some m), ob1)" and mk: "mf_CheckpointKey m = index_key a"
    and p: "st_Put S (branchKey i) (marshalBranch \<lparr>be_AncestorCheckpointKey = index_key a\<rparr>) ob1 = (None, ob')"
    using f by (auto simp: Fork_def RegisterBranch_def split: sum.splits option.splits prod.splits)
  note fr = ReadManifest_frame [OF m]
  have J: "ckpt_inv U ws (filter (\<lambda>f. fst f \<noteq> i) forks) (abs ob')"
    using branch_put [OF p] fr by (intro inv_branches [OF I]) auto
  have "abs ob ManifestKey \<noteq> None" using ReadManifest_none m by fastforce
  with D(3) obtain b where b: "b \<in> fst ` set ws" "names_manifest b (abs ob)" unfolding manifest_inv_def by force
  then have ok: "attempt_ok b" "attempt_ok a" using D(6) a by auto
  with b(2) ReadManifest_of [OF m _ ok(1)] have "m = manifest_of b" by (simp add: names_manifest_def)
  with mk have "index_key b = index_key a" by (simp add: manifest_of_def)
  then have "a = b" using D(1) a b(1) index_key_eq [OF ok] newer_not_eq unfolding ordered_attempts_def by metis
  with b(2) have "intact a (abs ob)" by (simp add: names_manifest_def)
  then have "intact a (abs ob')" using branch_put(1) [OF p] fr by (intro intact_cong [of "abs ob'" "abs ob"]) auto
  moreover have "abs ob' (branchKey i) = Some (marshalBranch \<lparr>be_AncestorCheckpointKey = index_key a\<rparr>)" using Put_ok [OF p] by simp
  ultimately show ?thesis using J a unfolding ckpt_inv_def forks_inv_def by simp
qed

lemma inv_unfork:
  assumes I: "ckpt_inv U ws forks (abs ob)" and "Unfork S i ob = (e, ob')"
  shows "ckpt_inv U ws (filter (\<lambda>f. fst f \<noteq> i) forks) (abs ob')"
proof -
  have d: "st_Delete S (branchKey i) ob = (e, ob')" using assms(2) by (simp add: Unfork_def UnregisterBranch_def)
  then have "abs ob' = abs ob \<or> abs ob' = (abs ob)(branchKey i := None)"
    using Delete_ok [of "branchKey i" ob ob'] Delete_err [of "branchKey i" ob _ ob'] by (cases e) auto
  moreover have "k \<noteq> branchKey i" if "\<not> HasPrefix k (str ''branches/'')" for k using that key_prefixes(9) by metis
  moreover have "j \<noteq> i \<Longrightarrow> branchKey j \<noteq> branchKey i" for j by (simp add: branchKey_def)
  ultimately show ?thesis by (intro inv_branches [OF I]) auto
qed

lemma inv_gc:
  assumes r: "reads_ok S" and I: "ckpt_inv U ws forks (abs ob)" and l: "ws \<noteq> []" "snd (last ws)"
  shows "ckpt_inv U ws forks (abs (checkpoint_gc S ob))"
proof -
  note D = ckpt_invD [OF I]
  from checkpoint_gc_effect [OF r D(1,2)] obtain X where X: "abs (checkpoint_gc S ob) = abs ob |` X"
    "\<forall>k. \<not> HasPrefix k (str ''checkpoint/'') \<and> \<not> HasPrefix k (str ''sst/'') \<longrightarrow> k \<in> X"
    "\<forall>a \<in> fst ` set ws. safe_from_gc (fst ` set ws) (abs ob) a \<and> intact a (abs ob) \<longrightarrow> intact a (abs (checkpoint_gc S ob))"
    by blast
  have top: "b = fst (last ws)" if "b \<in> fst ` set ws" "names_manifest b (abs ob)" for b
  proof -
    from D(3) l that(2) obtain pre c ok post where c: "ws = pre @ (c, ok) # post" "\<forall>w \<in> set post. \<not> snd w" "names_manifest c (abs ob)"
      unfolding manifest_inv_def names_manifest_def by auto
    then have "post = []" using l by (metis last_ConsR last_appendR last_in_set list.distinct(1))
    with c have "c = fst (last ws)" "c \<in> fst ` set ws" by auto
    moreover have "manifest_of b = manifest_of c"
      using that c(3) D(6) calculation(2) decode_marshal_manifest [OF manifest_of_ok] unfolding names_manifest_def
      by (metis (no_types, lifting) imageE option.inject sum.inject(2))
    then have "at_term b = at_term c" "at_rev b = at_rev c" by (simp_all add: manifest_of_def)
    ultimately show ?thesis using D(1) that(1) newer_not_eq unfolding ordered_attempts_def by metis
  qed
  have newest: "\<forall>c \<in> fst ` set ws. c = fst (last ws) \<or> newer c (fst (last ws))"
  proof -
    have "ws = butlast ws @ [last ws]" using l(1) by simp
    then have "sorted_wrt newer (map fst (butlast ws @ [last ws]))" using D(5) by metis
    then have n: "\<forall>c \<in> fst ` set (butlast ws). newer c (fst (last ws))" by (auto simp: sorted_wrt_append)
    have "set ws = set (butlast ws) \<union> {last ws}" using \<open>ws = butlast ws @ [last ws]\<close> by (metis list.set(1,2) set_append)
    with n show ?thesis by auto
  qed
  show ?thesis
  proof (rule inv_change [OF I])
    show "attempts_only (fst ` set ws) (abs (checkpoint_gc S ob))" unfolding X(1) by (rule attempts_only_restrict [OF D(2)])
    show "abs (checkpoint_gc S ob) ManifestKey = abs ob ManifestKey" using X(1,2) by (simp add: restrict_map_def)
    show "intact b (abs (checkpoint_gc S ob))" if "b \<in> fst ` set ws" "names_manifest b (abs ob)" for b
    proof -
      have "safe_from_gc (fst ` set ws) (abs ob) b" using top [OF that] newest unfolding safe_from_gc_def by blast
      with X(3) that show ?thesis unfolding names_manifest_def by blast
    qed
    show "intact a (abs (checkpoint_gc S ob)) \<and> abs (checkpoint_gc S ob) (branchKey i) = abs ob (branchKey i)"
      if "(i, a) \<in> set forks" "a \<in> fst ` set ws" "intact a (abs ob)" for i a
      using X that forks_invD(3) [OF D(4) that(1)] by (auto simp: safe_from_gc_def restrict_map_def)
  qed simp
qed

end

text \<open>The uploader.\<close>

lemma inv_sst_put:
  assumes I: "ckpt_inv U ws forks A" and U: "collision_free U" and f: "f \<in> U" and A': "A' = A(sst_key (snd f) (fst f) \<mapsto> snd f)"
  shows "ckpt_inv U ws forks A'"
proof (rule inv_change [OF I])
  note D = ckpt_invD [OF I]
  have other: "A' k = A k" if "\<not> HasPrefix k (str ''sst/'')" for k
    using that key_prefixes(1) unfolding A' by (metis fun_upd_other)
  have ck: "\<not> HasPrefix k (str ''sst/'')" if "HasPrefix k (str ''checkpoint/'')" for k
    using that by (auto simp: HasPrefix_iff prefix_def str_def)
  show "attempts_only (fst ` set ws) A'" using D(2) other ck by (intro attempts_only_cong [of A' A]) auto
  show "A' ManifestKey = A ManifestKey" by (rule other) simp
  have i: "intact b A'" if "b \<in> fst ` set ws" "intact b A" for b
  proof -
    have "A' (obj_key b g) = Some (snd g)" if g: "g \<in> set (at_files b)" for g
    proof (cases "obj_key b g = sst_key (snd f) (fst f)")
      case True
      then have "is_sst (fst g)" using key_distinct [OF key_prefixes(3) key_prefixes(2)] by (metis obj_key_def)
      with True have "sst_key (snd g) (fst g) = sst_key (snd f) (fst f)" by (simp add: obj_key_def)
      moreover have "g \<in> U" using g D(7) \<open>b \<in> fst ` set ws\<close> by auto
      ultimately have "snd g = snd f" using U f unfolding collision_free_def by blast
      with True show ?thesis by (simp add: A')
    qed (use \<open>intact b A\<close> g in \<open>simp add: A' intact_def stored_def\<close>)
    moreover have "A' (index_key b) = A (index_key b)" by (rule other) simp
    ultimately show ?thesis using \<open>intact b A\<close> by (simp add: intact_def stored_def)
  qed
  then show "b \<in> fst ` set ws \<Longrightarrow> names_manifest b A \<Longrightarrow> intact b A'" for b by (simp add: names_manifest_def)
  show "intact a A' \<and> A' (branchKey j) = A (branchKey j)" if "a \<in> fst ` set ws" "intact a A" for j a
    using i [OF that] other [of "branchKey j"] by simp
qed simp

context object_store
begin

lemma uploadOne_effect:
  assumes "uploadOne S path u d ob = (e, u', d', ob')"
  shows "abs ob' = abs ob \<or> (\<exists>c. content d path = Some c \<and> abs ob' = (abs ob)(sst_key c (path_base path) \<mapsto> c))"
proof (cases "map_of (su_local u) (path_base path) = None")
  case False
  with assms show ?thesis by (auto simp: uploadOne_def)
next
  case True
  obtain x d1 where h: "contentSSTKey path (path_base path) d = (x, d1)" by (cases "contentSSTKey path (path_base path) d")
  obtain y d2 where r: "os_ReadFile path d1 = (y, d2)" by (cases "os_ReadFile path d1")
  show ?thesis
  proof (cases "\<exists>k b. x = Inr k \<and> y = Inr b")
    case False
    with assms True h r show ?thesis by (auto simp: uploadOne_def split: sum.splits)
  next
    case k: True
    then obtain k b where kb: "x = Inr k" "y = Inr b" by blast
    obtain c where c: "content d path = Some c"
      using h kb(1) by (auto simp: contentSSTKey_def split: prod.splits sum.splits dest: os_ReadFile_Inr)
    have "k = sst_key c (path_base path)" "content d1 = content d" using contentSSTKey_eq [OF h c] kb(1) by auto
    with os_ReadFile_Inr r kb(2) c have "b = c" by fastforce
    obtain z ob1 where p: "st_Put S k b ob = (z, ob1)" by (cases "st_Put S k b ob")
    then have "ob' = ob1" using assms True h r kb by (auto simp: uploadOne_def split: option.splits)
    with p \<open>k = _\<close> \<open>b = c\<close> c Put_ok [of k b ob ob1] Put_err [of k b ob _ ob1] show ?thesis by (cases z) auto
  qed
qed

lemma run_inv:
  assumes "ckpt_run S abs U ws forks ob" "reads_ok S" "collision_free U"
  shows "ckpt_inv U ws forks (abs ob)"
  using assms(1)
proof induction
  case (run_start ob)
  have "dom (abs ob) \<inter> {k. HasPrefix k (str ''checkpoint/'')} = {}" "abs ob ManifestKey = None"
    using run_start by (auto simp: ckpt_object_def)
  then show ?case by (auto simp: ckpt_inv_def attempts_only_def manifest_inv_def forks_inv_def)
next
  case (run_write ws forks ob a ckpt tmp d e d' ob')
  from WriteAtSequence_written [OF run_write.hyps(6,5,2,3) assms(3) ckpt_inv_manifest [OF run_write.IH]]
  show ?case by (rule inv_written [OF run_write.IH run_write.hyps(2-4) assms(3)])
next
  case (run_write_registry ws forks ob a ckpt reg tmp d e d' ob')
  from WriteWithRegistry_written [OF run_write_registry.hyps(7,5,2,3) assms(3) run_write_registry.hyps(6)]
  show ?case by (rule inv_written [OF run_write_registry.IH run_write_registry.hyps(2-4) assms(3)])
next
  case (run_upload ws forks ob d path u e u' d' ob')
  from uploadOne_effect [OF run_upload.hyps(3)] show ?case
  proof
    assume "\<exists>c. content d path = Some c \<and> abs ob' = (abs ob)(sst_key c (path_base path) \<mapsto> c)"
    then obtain c where c: "content d path = Some c" "abs ob' = (abs ob)(sst_key c (path_base path) \<mapsto> c)" by blast
    with run_upload.hyps(2) have "(path_base path, c) \<in> U" by auto
    then show ?case by (rule inv_sst_put [OF run_upload.IH assms(3)]) (simp only: c(2) fst_conv snd_conv)
  qed (use run_upload.IH in simp)
next
  case (run_gc ws forks ob)
  then show ?case using inv_gc [OF assms(2)] by blast
next
  case (run_fork ws forks ob i a ob')
  then show ?case using inv_fork by blast
next
  case (run_fork_failed ws forks ob i e ob')
  then show ?case using inv_fork_failed by blast
next
  case (run_unfork ws forks ob i e ob')
  then show ?case using inv_unfork by blast
next
  case (run_other ws forks ob ob')
  show ?case
  proof (rule inv_change [OF run_other.IH order_refl])
    show "attempts_only (fst ` set ws) (abs ob')"
      using ckpt_invD(2) [OF run_other.IH] run_other.hyps(2) by (intro attempts_only_cong [of "abs ob'" "abs ob"]) (auto simp: ckpt_object_def)
    have i: "intact b (abs ob) \<Longrightarrow> intact b (abs ob')" for b
      using run_other.hyps(2) by (intro intact_cong [of "abs ob'" "abs ob"]) auto
    then show "names_manifest b (abs ob) \<Longrightarrow> intact b (abs ob')" for b by (simp add: names_manifest_def)
    show "intact a (abs ob) \<Longrightarrow> intact a (abs ob') \<and> abs ob' (branchKey j) = abs ob (branchKey j)" for j a
      using i run_other.hyps(2) by (simp add: ckpt_object_def)
  qed (use run_other.hyps(2) in \<open>simp add: ckpt_object_def\<close>)
qed

end

section \<open>Properties\<close>

text \<open>Restoring from a key gives the term and revision of an attempt, its files in the target directory, and
  touches nothing else.\<close>

definition restores :: "('o, 'm) store_scheme \<Rightarrow> gostring \<Rightarrow> ckpt_write \<Rightarrow> 'o \<Rightarrow> bool" where
  "restores S key a ob \<longleftrightarrow> (\<forall>target d. d_faults d = [] \<longrightarrow>
     (\<exists>d' ob'. checkpoint_Restore S key target d ob = (Inr (at_term a, at_rev a), d', ob') \<and>
       (\<forall>f \<in> set (at_files a). content d' (path_join target (fst f)) = Some (snd f)) \<and>
       (\<forall>p. (\<forall>f \<in> set (at_files a). p \<noteq> path_join target (fst f)) \<longrightarrow> content d' p = content d p)))"

context object_store
begin

lemma restores_intact: "reads_ok S \<Longrightarrow> intact a (abs ob) \<Longrightarrow> attempt_ok a \<Longrightarrow> restores S (index_key a) a ob"
  using restore_intact unfolding restores_def by blast

lemma run_manifest:
  assumes "ckpt_run S abs U ws forks ob" "reads_ok S" "collision_free U" "\<exists>w \<in> set ws. snd w"
  shows "\<exists>pre b ok post ob1. ws = pre @ (b, ok) # post \<and> (\<forall>w \<in> set post. \<not> snd w) \<and>
    ReadManifest S ob = (Inr (Some (manifest_of b)), ob1) \<and> restores S (mf_CheckpointKey (manifest_of b)) b ob1"
proof -
  note I = run_inv [OF assms(1-3)]
  from ckpt_invD(3) [OF I] assms(4) obtain pre b ok post
    where b: "ws = pre @ (b, ok) # post" "\<forall>w \<in> set post. \<not> snd w" "names_manifest b (abs ob)"
    unfolding manifest_inv_def by blast
  have ok: "attempt_ok b" using ckpt_invD(6) [OF I, of "(b, ok)"] b(1) by simp
  from ReadManifest_ok [OF assms(2) _ ok] b(3) obtain ob1
    where "ReadManifest S ob = (Inr (Some (manifest_of b)), ob1)" "abs ob1 = abs ob" by (auto simp: names_manifest_def)
  moreover have "restores S (mf_CheckpointKey (manifest_of b)) b ob1"
    using restores_intact [OF assms(2) _ ok, of ob1] calculation(2) b(3) by (simp add: manifest_of_def names_manifest_def)
  ultimately show ?thesis using b(1,2) by blast
qed

lemma run_forks:
  assumes "ckpt_run S abs U ws forks ob" "reads_ok S" "collision_free U" "(i, a) \<in> set forks"
  shows "restores S (index_key a) a ob"
proof -
  note I = run_inv [OF assms(1-3)]
  note F = forks_invD [OF ckpt_invD(4) [OF I] assms(4)]
  then have "attempt_ok a" using ckpt_invD(6) [OF I] by auto
  with restores_intact [OF assms(2) F(2)] show ?thesis .
qed

end

subsection \<open>A run on the in-memory store\<close>

definition demo_ckpt :: "(gostring \<times> bytes) list \<Rightarrow> gostring \<Rightarrow> disk \<Rightarrow> goerr option \<times> disk" where
  "demo_ckpt fs dir d = (None, d\<lparr>d_files := map (\<lambda>f. (path_join dir (fst f), snd f)) fs @
     filter (\<lambda>f. \<not> HasPrefix (fst f) (path_join dir [])) (d_files d), d_dirs := List.insert dir (d_dirs d)\<rparr>)"

lemma demo_ckpt_makes: "makes_checkpoint (demo_ckpt fs) fs"
proof -
  have "map_of (filter (\<lambda>f. \<not> HasPrefix (fst f) (path_join dir [])) xs) (path_join dir n) = None" for dir n and xs :: "(gostring \<times> bytes) list"
    by (auto simp: map_of_eq_None_iff HasPrefix_def path_join_def)
  moreover have "map_of (map (\<lambda>f. (path_join dir (fst f), snd f)) fs) (path_join dir n) = map_of fs n" for dir n
    by (induction fs) (auto simp: path_join_def)
  ultimately show ?thesis
    by (auto simp: makes_checkpoint_def demo_ckpt_def content_def map_add_def split: option.split)
qed

definition demo_files :: "(gostring \<times> bytes) list" where
  "demo_files = [(str ''000001.sst'', [1]), (str ''OPTIONS'', [2])]"

definition demo_attempt :: ckpt_write where
  "demo_attempt = \<lparr>at_term = 1, at_rev = 5, at_seq = 6, at_wal = [], at_files = demo_files\<rparr>"

definition demo_disk :: disk where "demo_disk = \<lparr>d_files = [], d_dirs = [], d_faults = []\<rparr>"

lemma demo_attempt_ok: "attempt_ok demo_attempt" "collision_free (set demo_files)"
  by (simp_all add: attempt_ok_def demo_attempt_def demo_files_def is_i64_def file_name_def str_def ascii_def
      collision_free_def sst_key_def)

lemma mem_reads_ok: "reads_ok mem_store"
  by (auto simp: reads_ok_def mem_store_def mem_Get_def split: option.splits)

lemmas demo_eval = with_checkpoint_def os_MkdirTemp_def demo_disk_def next_fault_def demo_ckpt_def
  mem_store_def mem_Get_def mem_Put_def NewMem_def write_index_of_def filepath_Walk_def os_ReadDir_def
  demo_files_def path_join_def HasPrefix_def HasSuffix_def str_def put_file_def contentSSTKey_def os_ReadFile_def content_def
  writeIndex_def WriteManifest_def Let_def

lemma demo_write: "\<exists>d' ob'. WriteAtSequence mem_store (demo_ckpt demo_files) (str ''/tmp/t4'') None 1 5 6 [] demo_disk NewMem = (None, d', ob')"
  by (simp add: WriteAtSequence_def knownSSTSets_def ReadManifest_def write_file_def demo_eval)

lemma demo_run: "\<exists>ob. ckpt_run mem_store mem_abs (set demo_files) [(demo_attempt, True)] [] ob"
proof -
  obtain d' ob' where w: "WriteAtSequence mem_store (demo_ckpt demo_files) (str ''/tmp/t4'') None 1 5 6 [] demo_disk NewMem = (None, d', ob')"
    using demo_write by blast
  have "ckpt_run mem_store mem_abs (set demo_files) [] [] NewMem"
    by (rule run_start) (simp add: NewMem_def mem_abs_def)
  from run_write [OF this demo_attempt_ok(1) _ _ demo_ckpt_makes, of "str ''/tmp/t4''" demo_disk None d' ob'] w
  show ?thesis by (auto simp: demo_attempt_def)
qed

subsection \<open>The manifest's checkpoint\<close>



subsection \<open>Forked checkpoints\<close>



subsection \<open>Checkpoints that cannot be restored\<close>

definition demo_index :: "gostring list \<Rightarrow> gostring list \<Rightarrow> CheckpointIndex" where
  "demo_index ssts ancs = \<lparr>ci_FormatVersion = CheckpointFormatVersion, ci_Term = 1, ci_Revision = 5, ci_LastSequence = 6,
     ci_SSTFiles = ssts, ci_AncestorSSTFiles = ancs, ci_PebbleMeta = []\<rparr>"

definition demo_sst :: gostring where "demo_sst = str ''sst/0011223344556677/000001.sst''"

lemma demo_sst_ascii: "ascii demo_sst"
  by (simp add: demo_sst_def ascii_def str_def)

text \<open>An index whose first SST file is not in the store.\<close>

lemma restore_missing_sst:
  assumes "ReadCheckpointIndex S (CheckpointIndexKey t r) ob = (Inr idx, ob1)"
    and "ci_SSTFiles idx = k # ks \<or> ci_SSTFiles idx = [] \<and> ci_AncestorSSTFiles idx = k # ks"
    and "fst (st_Get S k ob1) = Inl e"
  shows "fst (checkpoint_Restore S (CheckpointIndexKey t r) target demo_disk ob) = Inl e"
proof -
  obtain ob2 where g: "st_Get S k ob1 = (Inl e, ob2)" using assms(3) by (metis prod.collapse)
  have suf: "HasSuffix (CheckpointIndexKey t r) (str ''manifest.json'')"
    using index_key_suffix(1) [of "\<lparr>at_term = t, at_rev = r, at_seq = 0, at_wal = [], at_files = []\<rparr>"] by (simp add: index_key_def)
  have m: "os_MkdirAll target demo_disk = (None, demo_disk\<lparr>d_dirs := [target]\<rparr>)"
    by (simp add: os_MkdirAll_def demo_disk_def next_fault_def)
  show ?thesis
    unfolding checkpoint_Restore_def restoreFromIndex_def
    using assms(1,2) g suf m by (auto simp: base_items_def downloadFile_def)
qed

definition demo_manifest :: Manifest where
  "demo_manifest = \<lparr>mf_FormatVersion = CheckpointFormatVersion, mf_CheckpointKey = CheckpointIndexKey 1 5, mf_Revision = 5,
     mf_LastSequence = 6, mf_Term = 1, mf_LastWALKey = []\<rparr>"

definition demo_store :: "gostring list \<Rightarrow> gostring list \<Rightarrow> mem" where
  "demo_store ssts ancs = snd (mem_Put ManifestKey (marshalManifest demo_manifest)
     (snd (mem_Put (CheckpointIndexKey 1 5) (marshalIndex (demo_index ssts ancs)) NewMem)))"

lemma demo_keys: "CheckpointIndexKey 1 5 \<noteq> ManifestKey" "demo_sst \<noteq> ManifestKey" "demo_sst \<noteq> CheckpointIndexKey 1 5"
  by (simp_all add: CheckpointIndexKey_def CheckpointKey_def ManifestKey_def demo_sst_def str_def)

lemmas demo_store_eval = demo_store_def mem_store_def mem_Get_def mem_Put_def NewMem_def update_conv'

lemma demo_store_reads:
  assumes "\<forall>k \<in> set (ssts @ ancs). ascii k"
  shows "ReadCheckpointIndex mem_store (CheckpointIndexKey 1 5) (demo_store ssts ancs) = (Inr (demo_index ssts ancs), demo_store ssts ancs)"
    and "ReadManifest mem_store (demo_store ssts ancs) = (Inr (Some demo_manifest), demo_store ssts ancs)"
    and "fst (mem_Get demo_sst (demo_store ssts ancs)) = Inl ErrNotFound"
proof -
  have i: "decodeIndex (marshalIndex (demo_index ssts ancs)) = Inr (demo_index ssts ancs)"
    using assms by (intro decode_marshal_index) (auto simp: index_ok_def demo_index_def CheckpointFormatVersion_def is_i64_def)
  have m: "decodeManifest (marshalManifest demo_manifest) = Inr demo_manifest"
    by (rule decode_marshal_manifest) (simp add: manifest_ok_def demo_manifest_def CheckpointFormatVersion_def is_i64_def)
  have v: "ci_FormatVersion (demo_index ssts ancs) = CheckpointFormatVersion" "ci_LastSequence (demo_index ssts ancs) \<noteq> 0"
    "mf_FormatVersion demo_manifest = CheckpointFormatVersion" "mf_LastSequence demo_manifest \<noteq> 0"
    by (simp_all add: demo_index_def demo_manifest_def)
  show "ReadCheckpointIndex mem_store (CheckpointIndexKey 1 5) (demo_store ssts ancs) = (Inr (demo_index ssts ancs), demo_store ssts ancs)"
    using i v(1,2) demo_keys(1) by (simp add: ReadCheckpointIndex_def demo_store_eval)
  show "ReadManifest mem_store (demo_store ssts ancs) = (Inr (Some demo_manifest), demo_store ssts ancs)"
    using m v(3,4) demo_keys(1) by (simp add: ReadManifest_def demo_store_eval)
  show "fst (mem_Get demo_sst (demo_store ssts ancs)) = Inl ErrNotFound"
    using demo_keys by (simp add: demo_store_eval)
qed

lemma demo_restore_fails:
  assumes "ssts = [demo_sst] \<and> ancs = [] \<or> ssts = [] \<and> ancs = [demo_sst]"
  shows "fst (checkpoint_Restore mem_store (CheckpointIndexKey 1 5) target demo_disk (demo_store ssts ancs)) = Inl ErrNotFound"
proof (rule restore_missing_sst [OF demo_store_reads(1)])
  show "\<forall>k \<in> set (ssts @ ancs). ascii k" using assms demo_sst_ascii by auto
  then show "fst (st_Get mem_store demo_sst (demo_store ssts ancs)) = Inl ErrNotFound"
    using demo_store_reads(3) by (simp add: mem_store_def)
  show "ci_SSTFiles (demo_index ssts ancs) = demo_sst # [] \<or>
      ci_SSTFiles (demo_index ssts ancs) = [] \<and> ci_AncestorSSTFiles (demo_index ssts ancs) = demo_sst # []"
    using assms by (auto simp: demo_index_def)
qed



end
