(* ===== verification/Follower.thy ===== *)
theory Follower
  imports Node_Lin Checkpoint_Run
begin

text \<open>
  A follower of the cluster: the callbacks that \<open>followLoop\<close> of \<open>src/follower.go\<close> passes to the client of the peer
  stream, over the node's own log and store.

  Besides the node the state holds the local disk, the object store, the uploader of database files if there is one, whether \<open>Close\<close> has run, and, while
  the loop runs, its variable \<open>fromRev\<close>. The log of a follower has no uploader.
\<close>

section \<open>The log on a working disk\<close>

text \<open>A log that takes the entries \<open>rest\<close>, on a disk without faults.\<close>

definition wal_good :: "wal \<Rightarrow> disk \<Rightarrow> entry list \<Rightarrow> bool" where
  "wal_good w d rest \<longleftrightarrow> d_faults d = [] \<and> \<not> w_syncUpload w \<and> (\<exists>sw es. wal_ready w d sw es \<and> wal_last w d sw es rest)"

lemma seg_file_length: "length (seg_file t r (xs @ ys)) = length (seg_file t r xs) + length (frames ys)"
  by (simp add: seg_file_append)

lemma wal_last_prefix: "wal_last w d sw es (xs @ ys) \<Longrightarrow> wal_last w d sw es xs"
  by (auto simp: wal_last_def seg_file_length simp flip: append_assoc)

lemma rotate_working:
  assumes "w_active w = Some sw" "f_open (sw_f sw)" "\<not> sw_sealed sw" "d_faults d = []"
  obtains sw' d' where "rotateLocked None w d = (w\<lparr>w_active := Some sw'\<rparr>, d')" "d_faults d' = []"
    "OpenSegmentWriter (w_dir w) (w_term w) (wrap64 (sw_firstRev sw + sw_entryCount sw)) d = (Inr sw', d')"
proof -
  obtain sw1 where s: "sw_Seal sw d = (None, sw1, d)"
    using assms(2-4) by (simp add: sw_Seal_def f_Sync_def f_Close_def)
  obtain sw' d' where o: "OpenSegmentWriter (w_dir w) (w_term w) (wrap64 (sw_firstRev sw + sw_entryCount sw)) d = (Inr sw', d')"
    "d_faults d' = []"
    using assms(4) by (simp add: OpenSegmentWriter_def os_Create_def writeHeader_def f_Write_def Let_def)
  then show ?thesis using assms(1) s by (intro that [OF _ o(2,1)]) (simp add: rotateLocked_def Let_def)
qed
lemma rotate_good:
  assumes "wal_ready w d sw es" "wal_last w d sw es rest" "es \<noteq> []" "d_faults d = []" "\<not> w_syncUpload w"
    and "rotateLocked (None :: 'o uploader option) w d = (w', d')"
  shows "wal_good w' d' rest \<and> w_dir w' = w_dir w"
proof -
  have i: "w_active w = Some sw" "\<not> w_closed w" "f_open (sw_f sw)" "\<not> sw_sealed sw" "sw_entryCount sw = int (length es)"
    using assms(1) by (simp_all add: wal_ready_def sw_intact_def)
  obtain sw2 d2 where R: "rotateLocked (None :: 'o uploader option) w d = (w\<lparr>w_active := Some sw2\<rparr>, d2)" "d_faults d2 = []"
    "OpenSegmentWriter (w_dir w) (w_term w) (wrap64 (sw_firstRev sw + sw_entryCount sw)) d = (Inr sw2, d2)"
    by (rule rotate_working [OF i(1,3,4) assms(4)])
  then have out: "w' = w\<lparr>w_active := Some sw2\<rparr>" "d' = d2" using assms(6) by simp_all
  let ?r = "sw_firstRev sw + int (length es)"
  have b: "w_term w < 10 ^ 10" "0 \<le> sw_firstRev sw" "?r + int (length rest) < 2 ^ 63" "\<forall>q \<in> seg_set (w_dir w) d. q \<le> sw_path sw"
    "length (seg_file (sw_term sw) (sw_firstRev sw) (es @ rest)) < 2 ^ 63" "\<forall>e \<in> set rest. entry_ok e"
    "sw_path sw = path_join (w_dir w) (SegmentName (w_term w) (sw_firstRev sw))"
    using assms(1,2) by (auto simp: wal_last_def wal_ready_def)
  have wr: "wrap64 (sw_firstRev sw + sw_entryCount sw) = ?r" using b(2,3) i(5) by (simp add: wrap64_pos)
  note O = OpenSegmentWriter_ok [OF R(3) [unfolded wr]]
  have "seg_set (w_dir w) d2 = insert (sw_path sw2) (seg_set (w_dir w) d)" using seg_set_update O by auto
  moreover have "sw_path sw < sw_path sw2" using SegmentName_later [OF b(1,2), of "int (length es)" "w_dir w"] b O assms(3) by simp
  ultimately have "\<forall>q \<in> seg_set (w_dir w) d2. q \<le> sw_path sw2" using b(4) by force
  moreover have "length (seg_file t ?r rest) < 2 ^ 63" for t using b(5) by (simp add: seg_file_def)
  ultimately have "wal_last w' d' sw2 [] rest" using b O out by (simp add: wal_last_def)
  moreover have "wal_ready w' d' sw2 []" using O i(2) out by (simp add: wal_ready_def)
  ultimately show ?thesis using out R(2) assms(5) by (auto simp: wal_good_def)
qed

lemma wal_good_append:
  fixes ob :: 'o
  assumes "wal_good w d (es' @ rest)" "es' \<noteq> []"
  obtains w' d' where "AppendBatch None None es' w d ob = (None, w', d', ob)" "wal_good w' d' rest" "w_dir w' = w_dir w"
    "local_log (w_dir w) d' = local_log (w_dir w) d @ map normal es'"
proof -
  let ?up = "None :: 'o uploader option"
  obtain sw es where g: "d_faults d = []" "\<not> w_syncUpload w" "wal_ready w d sw es" "wal_last w d sw es (es' @ rest)"
    using assms(1) by (auto simp: wal_good_def)
  have l: "wal_last w d sw es es'" by (rule wal_last_prefix [OF g(4)])
  have act: "w_active w = Some sw" "\<not> w_closed w" "f_open (sw_f sw)" using g(3) by (simp_all add: wal_ready_def sw_intact_def)
  obtain sw1 d1 where a: "append_entries es' sw d = (None, sw1, d1)" "d_faults d1 = []" "f_open (sw_f sw1)"
    using append_entries_no_faults [OF g(1) act(3)] by blast
  have s: "sw_Sync sw1 d1 = (None, d1)" using a by (simp add: sw_Sync_def f_Sync_def)
  let ?w = "w\<lparr>w_active := Some sw1\<rparr>"
  obtain w' d' where r: "AppendBatch ?up None es' w d ob = (None, w', d', ob)"
    using AppendBatch_succeeds [OF g(3,1), where up = None and es' = es' and ob = ob] g(2) by auto
  note B = AppendBatch_appended [OF r g(3) l a(1) s]
  have ll: "local_log (w_dir w) d' = local_log (w_dir w) d @ map normal es'" by (rule AppendBatch_log [OF r g(3) l _ assms(2)]) simp
  have last: "wal_last ?w d1 sw1 (es @ es') rest" using g(4) B(4-7) by (simp add: wal_last_def)
  have out: "(w', d') = (if sw_size sw1 \<ge> w_segMaxSize w then rotateLocked ?up ?w d1 else (?w, d1))"
    using r act a s g(2) by (auto simp: AppendBatch_def Let_def split: prod.splits if_splits)
  have "wal_good w' d' rest \<and> w_dir w' = w_dir w"
  proof (cases "sw_size sw1 \<ge> w_segMaxSize w")
    case False
    then show ?thesis using out a(2) g(2) B(1) last by (auto simp: wal_good_def)
  next
    case True
    have "wal_good w' d' rest \<and> w_dir w' = w_dir ?w"
      by (rule rotate_good [OF B(1) last]) (use assms(2) a(2) g(2) True out in auto)
    then show ?thesis by simp
  qed
  then show ?thesis using that [OF r _ _ ll] by blast
qed
section \<open>The follower's state and callbacks\<close>

record ('db, 'o) world =
  o_node :: "('db, wal) node"
  o_sst :: "sst_uploader option"
  o_disk :: disk
  o_obj :: 'o
  o_closeOnce :: bool

record ('db, 'o) fstate = "('db, 'o) world" +
  f_fromRev :: int

definition bg_err :: "('db, 'w) node \<Rightarrow> goerr option" where
  "bg_err n = (if n_bgDone n then Some ErrCanceled else None)"

definition follow_wal :: "('db, 'o) fstate callback" where
  "follow_wal entries s =
     (if map Sequence entries \<noteq> map (\<lambda>i. wrap64 (f_fromRev s + int i)) [0..<length entries] then (Some errResync, s)
      else case AppendBatch None (bg_err (o_node s)) entries (n_wal (o_node s)) (o_disk s) (o_obj s) of (err, w, d, ob) \<Rightarrow>
        (err, s\<lparr>o_node := (o_node s)\<lparr>n_wal := w\<rparr>, o_disk := d, o_obj := ob\<rparr>))"

definition follow_apply :: "'db pebble \<Rightarrow> ('db, 'o) fstate callback" where
  "follow_apply P entries s = (case store_Apply P entries (n_db (o_node s)) of
       (Some err, db) \<Rightarrow> (Some err, s\<lparr>o_node := (o_node s)\<lparr>n_db := db\<rparr>\<rparr>)
     | (None, db) \<Rightarrow> (None, s\<lparr>o_node := observeTerm (e_Term (last entries)) ((o_node s)\<lparr>n_db := db\<rparr>),
                            f_fromRev := wrap64 (Sequence (last entries) + 1)\<rparr>))"

section \<open>A follower's history is a prefix of the leader's\<close>

text \<open>The follower has applied the first \<open>k\<close> entries of the log \<open>L\<close> that starts at sequence \<open>F\<close>.\<close>

definition at_prefix :: "('db \<Rightarrow> (bytes \<times> bytes) list) \<Rightarrow> ('db \<Rightarrow> bool) \<Rightarrow> change list \<Rightarrow> entry list \<Rightarrow> int \<Rightarrow> nat \<Rightarrow> ('db, 'o) fstate \<Rightarrow> bool" where
  "at_prefix contents healthy H L F k s \<longleftrightarrow> k \<le> length L \<and> healthy (s_db (n_db (o_node s))) \<and>
     store_inv contents (n_db (o_node s)) (H @ chg (take k L)) \<and> store_entries_ok (n_db (o_node s)) (drop k L) \<and> f_fromRev s = F + int k"

text \<open>What arrives on a stream of the leader of \<open>L\<close>: entries of \<open>L\<close>, or earlier ones.\<close>

definition from_leader :: "entry list \<Rightarrow> int \<Rightarrow> entry set" where
  "from_leader L F = set L \<union> {e. Sequence e < F}"

lemma batch_slice:
  assumes "map Sequence b = map (\<lambda>i. wrap64 (F + int k + int i)) [0..<length b]" "set b \<subseteq> from_leader L F" "contig F L" "0 < F"
    and "F + int (length L) < 2 ^ 63" "k \<le> length L"
  shows "prefix b (drop k L)"
proof -
  have nth: "b ! i = L ! (k + i) \<and> k + i < length L" if "i < length b" for i
    using that
  proof (induction i rule: less_induct)
    case (less i)
    have le: "k + i \<le> length L"
    proof (cases i)
      case (Suc j)
      then show ?thesis using less.IH [of j] less.prems by simp
    qed (use assms(6) in simp)
    have "Sequence (b ! i) = wrap64 (F + int k + int i)"
      using arg_cong [OF assms(1), of "\<lambda>xs. xs ! i"] less.prems by simp
    then have sq: "Sequence (b ! i) = F + int (k + i)" using assms(4,5) le by (simp add: wrap64_pos)
    then have "b ! i \<in> set L" using assms(2) nth_mem [OF less.prems] by (auto simp: from_leader_def)
    then obtain j where j: "j < length L" "L ! j = b ! i" by (auto simp: in_set_conv_nth)
    with contig_nth [OF assms(3), of j] sq have "j = k + i" by simp
    with j show ?case by simp
  qed
  have len: "length b \<le> length (drop k L)"
  proof (cases "b = []")
    case False
    then have "0 < length b" by simp
    moreover from this have "k + (length b - 1) < length L" using nth by simp
    ultimately show ?thesis unfolding length_drop by linarith
  qed simp
  then have "b = take (length b) (drop k L)" using nth by (intro nth_equalityI) simp_all
  then show ?thesis by (metis take_is_prefix)
qed
text \<open>What one call of the callbacks does, on whatever disk: the log may fail, the store advances by exactly the batch.\<close>

lemma follow_wal_frame:
  assumes "follow_wal b s = (err, s')"
  shows "n_db (o_node s') = n_db (o_node s)" "f_fromRev s' = f_fromRev s"
    "err = None \<Longrightarrow> map Sequence b = map (\<lambda>i. wrap64 (f_fromRev s + int i)) [0..<length b]"
  using assms by (auto simp: follow_wal_def split: if_splits prod.splits)

context pebble_db
begin

lemma follow_apply_prefix:
  assumes "at_prefix contents healthy H L F k s" "prefix b (drop k L)" "b \<noteq> []" "contig F L" "0 < F" "F + int (length L) < 2 ^ 63"
  obtains s' where "follow_apply P b s = (None, s')" "at_prefix contents healthy H L F (k + length b) s'"
    "n_wal (o_node s') = n_wal (o_node s)" "o_disk s' = o_disk s" "n_bgDone (o_node s') = n_bgDone (o_node s)"
proof -
  have i: "k \<le> length L" "healthy (s_db (n_db (o_node s)))" "store_inv contents (n_db (o_node s)) (H @ chg (take k L))"
    "store_entries_ok (n_db (o_node s)) (drop k L)" using assms(1) by (simp_all add: at_prefix_def)
  let ?s = "n_db (o_node s)"
  obtain rest where r: "drop k L = b @ rest" using assms(2) by (auto elim: prefixE)
  obtain T where T: "L = T @ b @ rest" "length T = k" using i append_take_drop_id [of k L] unfolding r by (intro that [of "take k L"]) simp_all
  have tk: "take (k + length b) L = take k L @ b" "drop (k + length b) L = rest" "k + length b \<le> length L" using T by auto
  have ok: "store_entries_ok ?s b" "entries_ok (last_rev (s_currentRev ?s) b) (last_compact (s_compactRev ?s) b) (last_seq (s_lastSeq ?s) b) rest"
    using i r by (simp_all add: store_entries_ok_def entries_ok_append)
  obtain db' where a: "store_Apply P b ?s = (None, db')" "healthy (s_db db')" "store_inv contents db' ((H @ chg (take k L)) @ concat (map entry_changes b))"
    "s_currentRev db' = last_rev (s_currentRev ?s) b" "s_compactRev db' = last_compact (s_compactRev ?s) b" "s_lastSeq db' = last_seq (s_lastSeq ?s) b"
    by (rule Apply_inv [OF i(2,3) ok(1)])
  have "Sequence (last b) = F + int (k + length b) - 1"
    using contig_last [OF _ assms(3), of "F + int k"] assms(4) T by (simp add: contig_append)
  then have "wrap64 (Sequence (last b) + 1) = F + int (k + length b)" using assms(5,6) tk(3) by (simp add: wrap64_pos)
  then show ?thesis using a ok(2) tk
    by (intro that [of "s\<lparr>o_node := observeTerm (e_Term (last b)) ((o_node s)\<lparr>n_db := db'\<rparr>), f_fromRev := F + int (k + length b)\<rparr>"])
      (simp_all add: follow_apply_def at_prefix_def observeTerm_def store_entries_ok_def)
qed

end

context pebble_db
begin

lemma follow_step_prefix:
  assumes "contig F L" "0 < F" "F + int (length L) < 2 ^ 63" "b \<noteq> []" "set b \<subseteq> from_leader L F"
    and "at_prefix contents healthy H L F k s" "follow_wal b s = (err, s1)"
  shows "at_prefix contents healthy H L F k s1"
    and "err = None \<Longrightarrow> prefix b (drop k L)"
    and "err = None \<Longrightarrow> at_prefix contents healthy H L F (k + length b) (snd (follow_apply P b s1))"
proof -
  note w = follow_wal_frame [OF assms(7)]
  show s1: "at_prefix contents healthy H L F k s1" using assms(6) w(1,2) by (simp add: at_prefix_def)
  show p: "prefix b (drop k L)" if "err = None"
    by (rule batch_slice [OF _ assms(5,1-3)]) (use w(3) [OF that] assms(6) in \<open>simp_all add: at_prefix_def\<close>)
  show "at_prefix contents healthy H L F (k + length b) (snd (follow_apply P b s1))" if "err = None"
    by (rule follow_apply_prefix [OF s1 p [OF that] assms(4,1-3)]) simp
qed

lemma client_Follow_prefix:
  assumes "at_prefix contents healthy H L F 0 s" "contig F L" "0 < F" "F + int (length L) < 2 ^ 63"
    and "\<forall>a \<in> set as. received (filter (\<lambda>m. \<not> m_Shutdown m) (attempt_msgs a)) \<subseteq> from_leader L F"
    and "client_Follow follow_wal (follow_apply P) maxRetries 0 F as s = (r, s')"
  obtains k where "at_prefix contents healthy H L F k s'"
proof -
  have "\<exists>k. at_prefix contents healthy H L F k s'"
  proof (rule client_Follow_inv [where I = "\<lambda>s acks. \<exists>k. at_prefix contents healthy H L F k s", OF _ _ assms(6,5)])
    fix b s acks assume b: "b \<noteq> []" "set b \<subseteq> from_leader L F" and "\<exists>k. at_prefix contents healthy H L F k s"
    then obtain k where k: "at_prefix contents healthy H L F k s" by blast
    obtain err s1 where w: "follow_wal b s = (err, s1)" by (cases "follow_wal b s")
    from follow_step_prefix [OF assms(2-4) b k w]
    show "(\<exists>k. at_prefix contents healthy H L F k (snd (follow_wal b s))) \<and> (fst (follow_wal b s) = None \<longrightarrow>
        (\<exists>k. at_prefix contents healthy H L F k (snd (follow_apply P b (snd (follow_wal b s))))))"
      unfolding w by auto
  qed (use assms(1) in auto)
  then show ?thesis using that by blast
qed

end

section \<open>What is acknowledged is in the log\<close>

text \<open>On one stream: \<open>I\<close> holds whenever the loop takes a message, \<open>Q\<close> also where a batch is half done.\<close>

lemma stream_inv:
  assumes step: "\<And>b n acks err n1. b \<noteq> [] \<Longrightarrow> set b \<subseteq> R \<Longrightarrow> I n acks \<Longrightarrow> walFn b n = (err, n1) \<Longrightarrow>
      Q n1 acks \<and> (err = None \<longrightarrow> Q (snd (applyFn b n1)) (acks @ [Sequence (last b)]) \<and>
        (fst (applyFn b n1) = None \<longrightarrow> I (snd (applyFn b n1)) (acks @ [Sequence (last b)])))"
    and weaken: "\<And>n acks. I n acks \<Longrightarrow> Q n acks"
    and "follow_msgs walFn applyFn ms endErr (staged, fromRev) (n, acks) = (rv, err, n', acks')"
    and "received (map fst ms) \<subseteq> R" "set staged \<subseteq> R" "I n acks"
  shows "Q n' acks'"
  using assms(3-6)
proof (induction ms arbitrary: staged fromRev n acks)
  case Nil
  then show ?case using weaken by simp
next
  case (Cons x ms)
  obtain m ackErr where x: "x = (m, ackErr)" by (cases x)
  obtain out n1 acks1 where o: "follow_msg walFn applyFn ackErr m (staged, fromRev) (n, acks) = (out, n1, acks1)"
    by (cases "follow_msg walFn applyFn ackErr m (staged, fromRev) (n, acks)")
  have r: "received [m] \<subseteq> R" "received (map fst ms) \<subseteq> R" using Cons.prems(2) x by (auto simp: received_def)
  have i: "Q n1 acks1 \<and> (\<forall>st fr. out = Continue (st, fr) \<longrightarrow> set st \<subseteq> R \<and> I n1 acks1)"
  proof (cases rule: follow_msg_batch [OF o])
    case 1
    then show ?thesis using Cons.prems(3,4) r(1) weaken by blast
  next
    case (2 b r1 m1)
    have s: "Q m1 acks \<and> (r1 = None \<longrightarrow> Q (snd (applyFn b m1)) (acks @ [Sequence (last b)]) \<and>
        (fst (applyFn b m1) = None \<longrightarrow> I (snd (applyFn b m1)) (acks @ [Sequence (last b)])))"
      by (rule step [OF 2(1) _ Cons.prems(4) 2(4)]) (use 2(3) Cons.prems(3) in auto)
    then have "Q n1 acks1" using 2(5) by auto
    moreover have "set st \<subseteq> R \<and> I n1 acks1" if "out = Continue (st, fr)" for st fr
      using s 2(5) 2(6,7) [OF that] Cons.prems(3) by auto
    ultimately show ?thesis by blast
  qed
  show ?case
  proof (cases out)
    case (Return r e)
    then show ?thesis using Cons.prems(1) o x i by simp
  next
    case (Continue st)
    obtain st' fr where st: "st = (st', fr)" by (cases st)
    show ?thesis by (rule Cons.IH) (use Cons.prems(1) o x i Continue st r(2) in auto)
  qed
qed

text \<open>The log holds the first \<open>j\<close> entries of \<open>L\<close> behind \<open>base\<close>, and everything acknowledged is among them.\<close>

definition logged :: "entry list \<Rightarrow> gostring \<Rightarrow> entry list \<Rightarrow> int \<Rightarrow> nat \<Rightarrow> int list \<Rightarrow> ('db, 'o) fstate \<Rightarrow> bool" where
  "logged base dir L F j acks s \<longleftrightarrow> j \<le> length L \<and> local_log dir (o_disk s) = base @ map normal (take j L) \<and> (\<forall>a \<in> set acks. a < F + int j)"

lemma follow_wal_logged:
  assumes "wal_good (n_wal (o_node s)) (o_disk s) (drop k L)" "w_dir (n_wal (o_node s)) = dir" "\<not> n_bgDone (o_node s)"
    and "logged base dir L F k acks s" "prefix b (drop k L)" "b \<noteq> []"
    and "map Sequence b = map (\<lambda>i. wrap64 (f_fromRev s + int i)) [0..<length b]"
  obtains s1 where "follow_wal b s = (None, s1)" "wal_good (n_wal (o_node s1)) (o_disk s1) (drop (k + length b) L)"
    "w_dir (n_wal (o_node s1)) = dir" "\<not> n_bgDone (o_node s1)" "logged base dir L F (k + length b) acks s1"
proof -
  obtain rest where r: "drop k L = b @ rest" using assms(5) by (auto elim: prefixE)
  have l: "k \<le> length L" "local_log dir (o_disk s) = base @ map normal (take k L)" using assms(4) by (simp_all add: logged_def)
  obtain T where T: "L = T @ b @ rest" "length T = k" using l(1) append_take_drop_id [of k L] unfolding r by (intro that [of "take k L"]) simp_all
  obtain w' d' where a: "AppendBatch None None b (n_wal (o_node s)) (o_disk s) (o_obj s) = (None, w', d', o_obj s)" "wal_good w' d' rest"
    "w_dir w' = w_dir (n_wal (o_node s))" "local_log (w_dir (n_wal (o_node s))) d' = local_log (w_dir (n_wal (o_node s))) (o_disk s) @ map normal b"
    by (rule wal_good_append [OF assms(1) [unfolded r] assms(6)])
  show ?thesis
    by (rule that [of "s\<lparr>o_node := (o_node s)\<lparr>n_wal := w'\<rparr>, o_disk := d'\<rparr>"])
      (use a assms(2-4,7) l T in \<open>simp_all add: follow_wal_def bg_err_def logged_def\<close>, fastforce+)
qed

definition sound :: "('db \<Rightarrow> (bytes \<times> bytes) list) \<Rightarrow> ('db \<Rightarrow> bool) \<Rightarrow> change list \<Rightarrow> entry list \<Rightarrow> gostring \<Rightarrow> entry list \<Rightarrow> int \<Rightarrow>
    ('db, 'o) fstate \<Rightarrow> int list \<Rightarrow> bool" where
  "sound contents healthy H base dir L F s acks \<longleftrightarrow> (\<exists>k. at_prefix contents healthy H L F k s \<and> logged base dir L F k acks s \<and>
     wal_good (n_wal (o_node s)) (o_disk s) (drop k L) \<and> w_dir (n_wal (o_node s)) = dir \<and> \<not> n_bgDone (o_node s))"

context pebble_db
begin

lemma follow_step_sound:
  assumes L: "contig F L" "0 < F" "F + int (length L) < 2 ^ 63"
    and b: "b \<noteq> []" "set b \<subseteq> from_leader L F" and "sound contents healthy H base dir L F s acks" "follow_wal b s = (err, s1)"
  defines "s2 \<equiv> snd (follow_apply P b s1)" and "Q \<equiv> \<lambda>s acks. \<exists>k j. k \<le> j \<and> at_prefix contents healthy H L F k s \<and> logged base dir L F j acks s"
  shows "Q s1 acks \<and> (err = None \<longrightarrow> Q s2 (acks @ [Sequence (last b)]) \<and>
    (fst (follow_apply P b s1) = None \<longrightarrow> sound contents healthy H base dir L F s2 (acks @ [Sequence (last b)])))"
proof -
  obtain k where k: "at_prefix contents healthy H L F k s" "logged base dir L F k acks s"
    "wal_good (n_wal (o_node s)) (o_disk s) (drop k L)" "w_dir (n_wal (o_node s)) = dir" "\<not> n_bgDone (o_node s)"
    using assms(6) by (auto simp: sound_def)
  show ?thesis
  proof (cases "map Sequence b = map (\<lambda>i. wrap64 (f_fromRev s + int i)) [0..<length b]")
    case False
    then have "s1 = s" "err = Some errResync" using assms(7) by (auto simp: follow_wal_def)
    then show ?thesis using k unfolding Q_def by blast
  next
    case True
    have p: "prefix b (drop k L)" by (rule batch_slice [OF _ b(2) L]) (use True k(1) in \<open>simp_all add: at_prefix_def\<close>)
    have w: "err = None" "wal_good (n_wal (o_node s1)) (o_disk s1) (drop (k + length b) L)"
      "w_dir (n_wal (o_node s1)) = dir" "\<not> n_bgDone (o_node s1)" "logged base dir L F (k + length b) acks s1"
      by (rule follow_wal_logged [OF k(3-5,2) p b(1) True], use assms(7) in simp)+
    have s1: "at_prefix contents healthy H L F k s1" by (rule follow_step_prefix [OF L b k(1) assms(7)])
    have a: "fst (follow_apply P b s1) = None" "at_prefix contents healthy H L F (k + length b) s2"
      "n_wal (o_node s2) = n_wal (o_node s1)" "o_disk s2 = o_disk s1" "n_bgDone (o_node s2) = n_bgDone (o_node s1)"
      by (rule follow_apply_prefix [OF s1 p b(1) L], simp add: s2_def)+
    obtain rest where "drop k L = b @ rest" using p by (auto elim: prefixE)
    then have "contig (F + int k) (b @ rest)"
      using L(1) k(1) contig_append [of F "take k L" "drop k L", unfolded append_take_drop_id] by (simp add: at_prefix_def)
    then have "Sequence (last b) < F + int (k + length b)" using contig_last [OF _ b(1), of "F + int k"] by (simp add: contig_append)
    then have l2: "logged base dir L F (k + length b) (acks @ [Sequence (last b)]) s2" using w(5) a(4) by (auto simp: logged_def)
    have "Q s1 acks" unfolding Q_def using s1 w(5) by (intro exI [of _ k] exI [of _ "k + length b"]) simp
    moreover have "Q s2 (acks @ [Sequence (last b)])" unfolding Q_def using a(2) l2 by blast
    moreover have "sound contents healthy H base dir L F s2 (acks @ [Sequence (last b)])"
      unfolding sound_def using a l2 w by (intro exI [of _ "k + length b"]) simp
    ultimately show ?thesis by blast
  qed
qed

lemma followOnce_logged:
  assumes "contig F L" "0 < F" "F + int (length L) < 2 ^ 63" "sound contents healthy H base dir L F s []"
    and "received (filter (\<lambda>m. \<not> m_Shutdown m) (attempt_msgs a)) \<subseteq> from_leader L F"
    and "followOnce follow_wal (follow_apply P) a fromRev s = (rv, err, s', acks)"
  shows "\<exists>k j. k \<le> j \<and> at_prefix contents healthy H L F k s' \<and> logged base dir L F j acks s'"
proof (cases "at_conn a")
  case (Inl e)
  then show ?thesis using assms(4,6) by (auto simp: followOnce_def sound_def)
next
  case (Inr ms)
  let ?ms = "take (at_taken a) (recv_msgs ms)"
  have "set ?ms \<subseteq> {x \<in> set ms. \<not> m_Shutdown (fst x)}"
    by (auto simp: recv_msgs_def dest!: in_set_takeD set_takeWhileD)
  then have r: "received (map fst ?ms) \<subseteq> from_leader L F"
    using assms(5) Inr by (force simp: received_def attempt_msgs_def)
  have "follow_msgs follow_wal (follow_apply P) ?ms (recv_err ms (at_end a)) ([], fromRev) (s, []) = (rv, err, s', acks)"
    using assms(6) Inr by (simp add: followOnce_def)
  then show ?thesis
    by (rule stream_inv [where I = "sound contents healthy H base dir L F", rotated 2, OF _ r _ assms(4)])
      (simp, rule follow_step_sound [OF assms(1-3)], auto simp: sound_def)
qed

end
section \<open>A torn append\<close>

text \<open>An append that fails after its first byte leaves that byte in the segment; the retry appends behind it.\<close>

lemma ReadAll_stop:
  assumes "\<forall>e \<in> set es. entry_ok e" and "ReadEntryVersion q 2 = Inl err"
    and "sr_r sr = frames es @ q" and "sr_version sr = 2"
  shows "fst (ReadAll sr) = map normal es"
  using assms(1,3,4)
proof (induction es arbitrary: sr)
  case Nil
  then show ?case using assms(2) by (subst ReadAll.simps) (simp add: sr_Next_def)
next
  case (Cons e es)
  have "sr_Next sr = Inr (normal e, sr\<lparr>sr_r := frames es @ q\<rparr>)"
    using Cons.prems ReadEntry_AppendEntry [of e "frames es @ q"] by (simp add: sr_Next_def normal_def)
  with Cons.IH [of "sr\<lparr>sr_r := frames es @ q\<rparr>"] Cons.prems show ?case
    by (subst ReadAll.simps) (auto split: prod.split)
qed

lemma read_seg_stop:
  assumes "\<forall>e \<in> set es. entry_ok e" "is_u64 t" "is_i64 r" "ReadEntryVersion q 2 = Inl err"
  shows "read_seg (seg_file t r es @ q) = map normal es"
proof -
  have "fst (ReadAll \<lparr>sr_r = frames es @ q, sr_Term = t, sr_FirstRev = r, sr_version = 2\<rparr>) = map normal es"
    by (rule ReadAll_stop [OF assms(1,4)]) simp_all
  then show ?thesis by (simp add: read_seg_def seg_file_def newSegmentReader_header assms)
qed

lemma torn_frame:
  assumes "length (marshalEntry e) < 256"
  shows "\<exists>err. ReadEntryVersion (take 1 (AppendEntry [] e) @ AppendEntry [] e) 2 = Inl err"
proof -
  let ?n = "length (marshalEntry e)" and ?p = "marshalEntry e"
  have u: "rev [0..<4] = [3, 2, 1, 0 :: nat]" by (simp add: upt_rec)
  obtain c1 c2 c3 c4 where c: "put_be 4 (unat (crc32c ?p)) = [c1, c2, c3, c4]" unfolding put_be_def u by simp
  have "?n div 256 ^ 3 = 0" "?n div 256 ^ 2 = 0" "?n div 256 ^ 1 = 0" using assms by (auto intro: div_less)
  then have p: "put_be 4 ?n = [0, 0, 0, word_of_nat ?n]" unfolding put_be_def u list.map by (simp only: power_0 div_by_1) simp
  have "m < 256 \<Longrightarrow> unat (word_of_nat m :: byte) = m" for m by (simp add: unat_of_nat)
  then have n: "unat (word_of_nat ?n :: byte) = ?n" using assms by blast
  have f: "take 1 (AppendEntry [] e) @ AppendEntry [] e = [0, 0, 0, 0, word_of_nat ?n, c1, c2, c3] @ c4 # ?p"
    unfolding AppendEntry_def Let_def p c by simp
  have "get_be [word_of_nat ?n, c1, c2, c3] \<noteq> 0" using n by (simp add: get_be_def)
  then show ?thesis unfolding f
    by (simp add: ReadEntryVersion_def gslice_def Let_def get_be_def crc32c_def)
qed
lemma torn_append:
  fixes ob :: 'o
  assumes "wal_ready w d sw es" "wal_last w d sw es [e]" "d_faults d = [Some 1]" "\<not> w_syncUpload w"
    and "length (marshalEntry e) < 256" "sw_size sw + int (length (AppendEntry [] e)) < w_segMaxSize w"
  shows "\<exists>w1 d1 w2 d2. AppendBatch None None [e] w d ob = (Some (ErrIO 3), w1, d1, ob) \<and>
    AppendBatch None None [e] w1 d1 ob = (None, w2, d2, ob) \<and> local_log (w_dir w) d2 = local_log (w_dir w) d"
proof -
  let ?f = "AppendEntry [] e" and ?seg = "seg_file (sw_term sw) (sw_firstRev sw) es"
  have act: "w_active w = Some sw" "\<not> w_closed w" "content d (sw_path sw) = Some ?seg" "f_path (sw_f sw) = sw_path sw" "f_open (sw_f sw)"
    "int (f_off (sw_f sw)) = sw_size sw" "sw_size sw = int (length ?seg)" "sw_path sw = path_join (w_dir w) (SegmentName (sw_term sw) (sw_firstRev sw))"
    using assms(1) unfolding wal_ready_def sw_intact_def by blast+
  have off: "f_off (sw_f sw) = length ?seg" using act(6,7) by simp
  let ?d0 = "d\<lparr>d_faults := []\<rparr>" and ?sw1 = "sw\<lparr>sw_f := (sw_f sw)\<lparr>f_off := Suc (length ?seg)\<rparr>\<rparr>"
  let ?d1 = "set_content (sw_path sw) (?seg @ take 1 ?f) ?d0"
  have c0: "content ?d0 = content d" by (simp add: content_def fun_eq_iff)
  have l1: "length (take 1 ?f) = 1" by (simp add: AppendEntry_def Let_def put_be_def)
  have a1: "append_entries [e] sw d = (Some (ErrIO 3), ?sw1, ?d1)"
    using act off l1 c0 assms(3)
    by (simp add: sw_AppendNoSync_def f_Write_def next_fault_def put_at_def Let_def del: One_nat_def)
  then have r1: "AppendBatch (None :: 'o uploader option) None [e] w d ob = (Some (ErrIO 3), w\<lparr>w_active := Some ?sw1\<rparr>, ?d1, ob)"
    using act by (simp add: AppendBatch_def)
  let ?sw2 = "?sw1\<lparr>sw_f := (sw_f sw)\<lparr>f_off := Suc (length ?seg) + length ?f\<rparr>, sw_size := wrap64 (sw_size sw + int (length ?f)),
      sw_entryCount := wrap64 (sw_entryCount sw + 1)\<rparr>"
  let ?d2 = "set_content (sw_path sw) ((?seg @ take 1 ?f) @ ?f) ?d1"
  have "length (?seg @ take 1 ?f) = Suc (length ?seg)" using l1 by simp
  then have "overwrite (?seg @ take 1 ?f) (Suc (length ?seg)) ?f = (?seg @ take 1 ?f) @ ?f" by (metis overwrite_end)
  then have a2: "append_entries [e] ?sw1 ?d1 = (None, ?sw2, ?d2)"
    using act by (simp add: sw_AppendNoSync_def f_Write_def next_fault_def put_at_def set_content_def [of _ _ "set_content _ _ _"] Let_def)
  have ok: "is_u64 (sw_term sw)" "is_i64 (sw_firstRev sw)" "\<forall>e \<in> set es. entry_ok e" "\<forall>q \<in> seg_set (w_dir w) d. q \<le> sw_path sw"
    "sw_size sw + int (length ?f) < 2 ^ 63"
    using assms(1,2) act(7) by (auto simp: wal_last_def wal_ready_def is_u64_def is_i64_def seg_file_length)
  have "\<not> w_segMaxSize w \<le> sw_size ?sw2" using assms(6) ok(5) act(7) by (simp add: wrap64_pos)
  then have r2: "AppendBatch (None :: 'o uploader option) None [e] (w\<lparr>w_active := Some ?sw1\<rparr>) ?d1 ob = (None, w\<lparr>w_active := Some ?sw2\<rparr>, ?d2, ob)"
    using act(1,2,5) a2 by (simp add: AppendBatch_def sw_Sync_def f_Sync_def Let_def)
  have c2: "content ?d2 = (content d)(sw_path sw \<mapsto> ?seg @ take 1 ?f @ ?f)" "content d = (content d)(sw_path sw \<mapsto> ?seg)"
    using c0 act(3) by (auto simp: fun_eq_iff)
  have le: "\<forall>q \<in> seg_set (w_dir w) d. q \<noteq> sw_path sw \<longrightarrow> q < sw_path sw" using ok(4) by fastforce
  obtain err where t: "ReadEntryVersion (take 1 ?f @ ?f) 2 = Inl err" using torn_frame [OF assms(5)] by blast
  have "local_log (w_dir w) ?d2 = local_log (w_dir w) d"
    unfolding local_log_update [OF c2(1) act(8) le] local_log_update [OF c2(2) act(8) le] read_seg_stop [OF ok(3,1,2) t] read_seg_file [OF ok(3,1,2)] ..
  with r1 r2 show ?thesis by blast
qed
section \<open>Properties\<close>

text \<open>C4: A follower's store is always the leader's at some point of its log. Whatever the streams deliver (entries of the
  leader's log, repeated, reordered or cut off, and older ones), however many attempts there are and whichever appends to
  the local log fail, following leaves the store with exactly the changes of the first \<open>k\<close> entries of the log, and the
  next sequence that the follower asks for is the one behind them.\<close>

theorem follower_prefix:
  assumes "pebble_db P contents healthy" "healthy (s_db (n_db (o_node s)))" "store_inv contents (n_db (o_node s)) H"
    and "store_entries_ok (n_db (o_node s)) L" "contig F L" "0 < F" "F + int (length L) < 2 ^ 63" "f_fromRev s = F"
    and "\<forall>a \<in> set as. received (filter (\<lambda>m. \<not> m_Shutdown m) (attempt_msgs a)) \<subseteq> from_leader L F"
    and "client_Follow follow_wal (follow_apply P) maxRetries 0 F as s = (r, s')"
  shows "\<exists>k \<le> length L. store_inv contents (n_db (o_node s')) (H @ chg (take k L)) \<and> f_fromRev s' = F + int k"
proof -
  have "at_prefix contents healthy H L F 0 s" using assms(2-4,8) by (simp add: at_prefix_def)
  then obtain k where "at_prefix contents healthy H L F k s'"
    by (rule pebble_db.client_Follow_prefix [OF assms(1) _ assms(5-7,9,10)])
  then show ?thesis by (auto simp: at_prefix_def)
qed

definition demo_fstate :: "wal \<Rightarrow> disk \<Rightarrow> (memdb, unit) fstate" where
  "demo_fstate w d = \<lparr>o_node = new_node 1 fresh w 0 0 WaitNone, o_sst = None, o_disk = d, o_obj = (), o_closeOnce = False, f_fromRev = 1\<rparr>"

definition demo_stream :: attempt where
  "demo_stream = \<lparr>at_conn = Inr (map (\<lambda>m. (m, None)) (batch_msgs demo_entries)), at_end = IoEOF, at_taken = 3, at_done = True, at_pauseDone = False\<rparr>"

lemma demo_received: "received (filter (\<lambda>m. \<not> m_Shutdown m) (attempt_msgs demo_stream)) \<subseteq> from_leader demo_entries 1"
proof -
  have m: "map (MsgToEntry \<circ> EntryToMsg) demo_entries = demo_entries"
    by (simp add: demo_entries_def demo_entry_def MsgToEntry_def EntryToMsg_def msg0_def Sequence_def)
  have "received (attempt_msgs demo_stream) \<subseteq> set demo_entries"
    by (subst m [symmetric]) (auto simp: received_def demo_stream_def attempt_msgs_def batch_msgs_def comp_def commit_msg_def)
  then show ?thesis by (auto simp: received_def from_leader_def)
qed

lemma demo_contig: "contig 1 demo_entries" "length demo_entries = 2"
  by (simp_all add: demo_entries_def demo_entry_def Sequence_def)

theorem follower_prefix_witness:
  "\<exists>r s' k. client_Follow follow_wal (follow_apply mem_pebble) 5 0 1 [demo_stream]
       (demo_fstate (wal_New 1000 False) \<lparr>d_files = [], d_dirs = [], d_faults = []\<rparr>) = (r, s') \<and>
     k \<le> 2 \<and> store_inv mdb_contents (n_db (o_node s')) (chg (take k demo_entries)) \<and> f_fromRev s' = 1 + int k"
proof -
  let ?s = "demo_fstate (wal_New 1000 False) \<lparr>d_files = [], d_dirs = [], d_faults = []\<rparr>"
  obtain r s' where c: "client_Follow follow_wal (follow_apply mem_pebble) 5 0 1 [demo_stream] ?s = (r, s')" by fastforce
  from follower_prefix [OF mem_pebble_laws _ _ _ demo_contig(1) _ _ _ _ c, of "[]"] c demo_contig(2) demo_received
    fresh_inv fresh_healthy demo_entries_ok
  show ?thesis by (simp add: demo_fstate_def new_node_def)
qed

text \<open>C6: What a follower acknowledges is durable on it. On a working disk, after a stream (cut off anywhere, or ended by an acknowledgement that
  cannot be sent) the follower's segment files hold, behind what they held before, exactly the first \<open>j\<close> entries of the leader's log; every sequence
  that was acknowledged is among them, and the store is at most as far as the log.\<close>

theorem follower_ack_durable:
  assumes "pebble_db P contents healthy" "healthy (s_db (n_db (o_node s)))" "store_inv contents (n_db (o_node s)) H"
    and "store_entries_ok (n_db (o_node s)) L" "contig F L" "0 < F" "F + int (length L) < 2 ^ 63" "f_fromRev s = F"
    and "wal_good (n_wal (o_node s)) (o_disk s) L" "w_dir (n_wal (o_node s)) = dir" "\<not> n_bgDone (o_node s)"
    and "received (filter (\<lambda>m. \<not> m_Shutdown m) (attempt_msgs a)) \<subseteq> from_leader L F"
    and "followOnce follow_wal (follow_apply P) a fromRev s = (rv, err, s', acks)"
  shows "\<exists>k j. k \<le> j \<and> j \<le> length L \<and> store_inv contents (n_db (o_node s')) (H @ chg (take k L)) \<and>
    local_log dir (o_disk s') = local_log dir (o_disk s) @ map normal (take j L) \<and> (\<forall>x \<in> set acks. x < F + int j)"
proof -
  have "sound contents healthy H (local_log dir (o_disk s)) dir L F s []"
    using assms(2-4,8-11) by (auto simp: sound_def at_prefix_def logged_def intro!: exI [of _ 0])
  from pebble_db.followOnce_logged [OF assms(1,5-7) this assms(12,13)] show ?thesis by (auto simp: at_prefix_def logged_def)
qed

theorem follower_ack_durable_witness:
  "\<exists>w d s' k j rv err acks. wal_Open (str ''wal'') 1 1 (wal_New 1000 False) \<lparr>d_files = [], d_dirs = [], d_faults = []\<rparr> = (None, w, d) \<and>
     followOnce follow_wal (follow_apply mem_pebble) demo_stream 1 (demo_fstate w d) = (rv, err, s', acks) \<and> acks = [2] \<and> j = 2 \<and>
     store_inv mdb_contents (n_db (o_node s')) (chg (take k demo_entries)) \<and>
     local_log (str ''wal'') (o_disk s') = map normal (take j demo_entries)"
proof -
  obtain w d where o: "wal_Open (str ''wal'') 1 1 (wal_New 1000 False) \<lparr>d_files = [], d_dirs = [], d_faults = []\<rparr> = (None, w, d)"
    and nf: "d_faults d = []" using wal_Open_succeeds by (metis disk.select_convs(3))
  have dir: "w_dir w = str ''wal''" "\<not> w_syncUpload w" using wal_Open_ready [OF o] by (auto simp: wal_New_def)
  obtain sw where "wal_ready w d sw []" "wal_last w d sw [] demo_entries" and e: "local_log (str ''wal'') d = []"
    using wal_Open_empty [OF o, of demo_entries]
    by (auto simp: demo_entries_def demo_entry_def entry_ok_def is_i64_def is_u64_def seg_file_def length_AppendEntry)
  then have g: "wal_good w d demo_entries" using nf dir by (auto simp: wal_good_def)
  let ?s = "demo_fstate w d"
  have i: "mdb_healthy (s_db (n_db (o_node ?s)))" "store_inv mdb_contents (n_db (o_node ?s)) []" "store_entries_ok (n_db (o_node ?s)) demo_entries"
    "f_fromRev ?s = 1" "n_wal (o_node ?s) = w" "o_disk ?s = d" "\<not> n_bgDone (o_node ?s)"
    using fresh_inv fresh_healthy demo_entries_ok by (simp_all add: demo_fstate_def new_node_def)
  obtain rv err s' acks where f: "followOnce follow_wal (follow_apply mem_pebble) demo_stream 1 ?s = (rv, err, s', acks)"
    by (cases "followOnce follow_wal (follow_apply mem_pebble) demo_stream 1 ?s")
  have ne: "demo_entries \<noteq> []" by (simp add: demo_entries_def)
  obtain s1 where s1: "follow_wal demo_entries ?s = (None, s1)"
    by (rule follow_wal_logged [of ?s 0 demo_entries "str ''wal''" "[]" 1 "[]" demo_entries])
      (use i g dir e ne in \<open>simp_all add: logged_def demo_entries_def demo_entry_def Sequence_def wrap64_def\<close>)
  have p: "at_prefix mdb_contents mdb_healthy [] demo_entries 1 0 ?s" using i by (simp add: at_prefix_def)
  have p1: "at_prefix mdb_contents mdb_healthy [] demo_entries 1 0 s1"
    by (rule memdb.follow_step_prefix [OF demo_contig(1) _ _ ne _ p s1]) (simp_all add: demo_contig(2) from_leader_def)
  have a: "fst (follow_apply mem_pebble demo_entries s1) = None"
    by (rule memdb.follow_apply_prefix [OF p1 _ ne demo_contig(1)]) (simp_all add: demo_contig(2))
  have r: "recv_msgs (map (\<lambda>m. (m, None)) (batch_msgs demo_entries)) = map (\<lambda>m. (m, None)) (batch_msgs demo_entries @ [])"
    "length (batch_msgs demo_entries) = 3"
    by (simp_all add: recv_msgs_def batch_msgs_def demo_entries_def EntryToMsg_def commit_msg_def msg0_def)
  have b: "\<forall>e \<in> set demo_entries. e_ID e = Sequence e" "Sequence (last demo_entries) = 2"
    by (simp_all add: demo_entries_def demo_entry_def Sequence_def)
  have "acks = [2]"
    using f r a s1 b demo_contig ne follow_batch [of demo_entries 1 follow_wal ?s "follow_apply mem_pebble" "[]" "recv_err (map (\<lambda>m. (m, None)) (batch_msgs demo_entries)) IoEOF" "[]"]
    by (simp add: followOnce_def demo_stream_def)
  with follower_ack_durable [OF mem_pebble_laws i(1-3) demo_contig(1) _ _ i(4) _ _ i(7) demo_received f, of "str ''wal''"] g dir e i(5,6)
  obtain k j where "k \<le> j" "j \<le> 2" "store_inv mdb_contents (n_db (o_node s')) (chg (take k demo_entries))"
    "local_log (str ''wal'') (o_disk s') = map normal (take j demo_entries)" "2 < 1 + int j"
    using demo_contig(2) by auto
  moreover from this have "j = 2" by simp
  ultimately show ?thesis using o f \<open>acks = [2]\<close> by blast
qed
text \<open>C33: An append that fails after writing a byte makes a follower lose what it acknowledges afterwards. The failed batch is not rolled back; the client
  retries it, the retry is written behind the torn byte and succeeds, so the leader gets its acknowledgement, but the log as replay reads it has
  not grown: reading stops at the torn byte.\<close>

theorem follower_torn_append:
  assumes "wal_ready (n_wal (o_node s)) (o_disk s) sw es" "wal_last (n_wal (o_node s)) (o_disk s) sw es [e]"
    and "d_faults (o_disk s) = [Some 1]" "\<not> w_syncUpload (n_wal (o_node s))" "\<not> n_bgDone (o_node s)"
    and "length (e_Key e) + length (e_Value e) < 191" "sw_size sw + int (length (AppendEntry [] e)) < w_segMaxSize (n_wal (o_node s))"
    and "Sequence e = f_fromRev s" "is_i64 (f_fromRev s)" "w_dir (n_wal (o_node s)) = dir"
  shows "\<exists>err s1 s2. follow_wal [e] s = (Some err, s1) \<and> follow_wal [e] s1 = (None, s2) \<and>
    local_log dir (o_disk s2) = local_log dir (o_disk s)"
proof -
  obtain w1 d1 w2 d2 where t: "AppendBatch None None [e] (n_wal (o_node s)) (o_disk s) (o_obj s) = (Some (ErrIO 3), w1, d1, o_obj s)"
    "AppendBatch None None [e] w1 d1 (o_obj s) = (None, w2, d2, o_obj s)" "local_log dir d2 = local_log dir (o_disk s)"
    using torn_append [OF assms(1-4) _ assms(7), of "o_obj s"] assms(6,10) by auto
  let ?s1 = "s\<lparr>o_node := (o_node s)\<lparr>n_wal := w1\<rparr>, o_disk := d1\<rparr>"
  have "follow_wal [e] s = (Some (ErrIO 3), ?s1)" "follow_wal [e] ?s1 = (None, ?s1\<lparr>o_node := (o_node s)\<lparr>n_wal := w2\<rparr>, o_disk := d2\<rparr>)"
    using t(1,2) assms(5,8,9) by (simp_all add: follow_wal_def bg_err_def wrap64_id)
  with t(3) show ?thesis by fastforce
qed

theorem follower_torn_append_witness:
  "\<exists>w d err s1 s2. wal_Open (str ''wal'') 1 1 (wal_New 1000 False) \<lparr>d_files = [], d_dirs = [], d_faults = []\<rparr> = (None, w, d) \<and>
     follow_wal [hd demo_entries] (demo_fstate w (d\<lparr>d_faults := [Some 1]\<rparr>)) = (Some err, s1) \<and> follow_wal [hd demo_entries] s1 = (None, s2) \<and>
     local_log (str ''wal'') (o_disk s2) = []"
proof -
  obtain w d where o: "wal_Open (str ''wal'') 1 1 (wal_New 1000 False) \<lparr>d_files = [], d_dirs = [], d_faults = []\<rparr> = (None, w, d)"
    using wal_Open_succeeds by (metis disk.select_convs(3))
  let ?d = "d\<lparr>d_faults := [Some 1]\<rparr>" and ?e = "hd demo_entries"
  have c: "content ?d = content d" by (simp add: content_def fun_eq_iff)
  have l: "length (AppendEntry [] ?e) = 75" by (simp add: demo_entries_def demo_entry_def length_AppendEntry)
  obtain sw where sw: "wal_ready w d sw []" "wal_last w d sw [] [?e]" "local_log (str ''wal'') d = []"
    using wal_Open_empty [OF o, of "[?e]"] l by (auto simp: demo_entries_def demo_entry_def entry_ok_def is_i64_def is_u64_def seg_file_def)
  have w: "w_dir w = str ''wal''" "\<not> w_syncUpload w" "w_segMaxSize w = 1000" using wal_Open_ready [OF o] o
    by (auto simp: wal_New_def wal_Open_def Let_def split: prod.splits sum.splits option.splits)
  have r: "wal_ready w ?d sw []" "wal_last w ?d sw [] [?e]" "local_log (str ''wal'') ?d = []" "sw_size sw = 20"
    using sw c by (auto simp: wal_ready_def sw_intact_def wal_last_def seg_set_def local_log_def seg_file_def)
  from follower_torn_append [of "demo_fstate w ?d" sw "[]" ?e "str ''wal''"] r w l o show ?thesis
    by (auto simp: demo_fstate_def new_node_def demo_entries_def demo_entry_def Sequence_def is_i64_def)
qed

end
