(* ===== verification/Lifecycle.thy ===== *)
theory Lifecycle
  imports Follower
begin

text \<open>
  The life of a node: its configuration (\<open>src/config.go\<close>), \<open>Open\<close> and \<open>Close\<close> (\<open>src/node.go\<close>), the election at
  start-up, promotion and resynchronisation of a follower (\<open>src/follower.go\<close>, \<open>src/wal_replay.go\<close>), the leader's
  watch on the lock and the periodic checkpoint (\<open>src/leader.go\<close>).

  Operations take and return the \<open>world\<close> of the node: its state, the local disk and the object store. The database
  library's operations on files (open, close, flush, checkpoint) are the parameter \<open>IO\<close>; other nodes act on the
  object store between two attempts of a retry loop, which is the parameter \<open>env\<close>. Time-outs and pauses are not modelled.
\<close>

section \<open>Configuration\<close>

text \<open>Durations are in nanoseconds; \<open>cfg_ObjectStore\<close> says whether an object store is configured.\<close>

record config =
  cfg_ReadConsistency :: gostring
  cfg_DataDir :: gostring
  cfg_ObjectStore :: bool
  cfg_SegmentMaxSize :: int
  cfg_SegmentMaxAge :: int
  cfg_WALSyncUpload :: "bool option"
  cfg_CheckpointInterval :: int
  cfg_CheckpointEntries :: int
  cfg_NodeID :: gostring
  cfg_PeerListenAddr :: gostring
  cfg_AdvertisePeerAddr :: gostring
  cfg_LeaderWatchInterval :: int
  cfg_FollowerMaxRetries :: int
  cfg_FollowerWaitMode :: gostring
  cfg_PeerBufferSize :: int
  cfg_WatchSendTimeout :: int

definition second :: int where "second = 10 ^ 9"

definition or_default :: "int \<Rightarrow> int \<Rightarrow> int" where
  "or_default dflt x = (if x = 0 then dflt else x)"

definition setDefaults :: "gostring res \<Rightarrow> config \<Rightarrow> config" where
  "setDefaults hostname c = c\<lparr>
     cfg_ReadConsistency := (if cfg_ReadConsistency c = [] then str ''linearizable'' else cfg_ReadConsistency c),
     cfg_SegmentMaxSize := or_default (50 * 2 ^ 20) (cfg_SegmentMaxSize c),
     cfg_SegmentMaxAge := or_default (10 * second) (cfg_SegmentMaxAge c),
     cfg_CheckpointInterval := or_default (15 * 60 * second) (cfg_CheckpointInterval c),
     cfg_WALSyncUpload := (if cfg_WALSyncUpload c = None then Some True else cfg_WALSyncUpload c),
     cfg_NodeID := (if cfg_NodeID c = [] then (case hostname of Inr h \<Rightarrow> h | Inl _ \<Rightarrow> str ''node-0'') else cfg_NodeID c),
     cfg_AdvertisePeerAddr := (if cfg_AdvertisePeerAddr c = [] then cfg_PeerListenAddr c else cfg_AdvertisePeerAddr c),
     cfg_LeaderWatchInterval := or_default (5 * 60 * second) (cfg_LeaderWatchInterval c),
     cfg_FollowerMaxRetries := or_default 5 (cfg_FollowerMaxRetries c),
     cfg_FollowerWaitMode := (if cfg_FollowerWaitMode c = [] then str ''quorum'' else cfg_FollowerWaitMode c),
     cfg_PeerBufferSize := or_default 10000 (cfg_PeerBufferSize c),
     cfg_WatchSendTimeout := or_default (30 * second) (cfg_WatchSendTimeout c)\<rparr>"

text \<open>The mode as the peer server reads it.\<close>

definition wait_mode :: "gostring \<Rightarrow> waitmode" where
  "wait_mode s = (if s = str ''none'' then WaitNone else if s = str ''quorum'' then WaitQuorum
     else if s = str ''all'' then WaitAll else WaitOther)"

definition db_dir :: "config \<Rightarrow> gostring" where "db_dir cfg = path_join (cfg_DataDir cfg) (str ''db'')"
definition wal_dir :: "config \<Rightarrow> gostring" where "wal_dir cfg = path_join (cfg_DataDir cfg) (str ''wal'')"

section \<open>The database's files\<close>

text \<open>\<open>pio_Open\<close> gives the outcomes of the attempts to open a directory, each with whether the deadline has passed;
  \<open>pio_Flush\<close> also gives the tables that the flush has written.\<close>

record 'db pebbleio =
  pio_Open :: "gostring \<Rightarrow> disk \<Rightarrow> ('db res \<times> bool) list \<times> disk"
  pio_Close :: "'db \<Rightarrow> disk \<Rightarrow> goerr option \<times> disk"
  pio_Flush :: "'db \<Rightarrow> disk \<Rightarrow> (goerr option \<times> gostring list) \<times> 'db \<times> disk"
  pio_Checkpoint :: "'db \<Rightarrow> gostring \<Rightarrow> disk \<Rightarrow> goerr option \<times> disk"

text \<open>\<open>istore.Open\<close>: a list of attempts that all find the database locked stands for the wait until the deadline.\<close>

definition open_db :: "'db pebble \<Rightarrow> 'db pebbleio \<Rightarrow> gostring \<Rightarrow> disk \<Rightarrow> 'db sstore res \<times> disk" where
  "open_db P IO dir d = (case pio_Open IO dir d of (attempts, d) \<Rightarrow>
     (case store_Open P attempts of Some r \<Rightarrow> r | None \<Rightarrow> Inl (errStore ''open pebble''), d))"

definition close_db :: "'db pebbleio \<Rightarrow> 'db sstore \<Rightarrow> disk \<Rightarrow> goerr option \<times> 'db sstore \<times> disk" where
  "close_db IO s d = (case pio_Close IO (s_db s) d of (e, d) \<Rightarrow> (e, SignalClose s, d))"

section \<open>The local log at start-up\<close>

text \<open>The sequence that the next entry follows: the store's last one, or a later one found in the local log.\<close>

definition scan_seq :: "gostring \<Rightarrow> int \<Rightarrow> disk \<Rightarrow> int \<times> disk" where
  "scan_seq dir lastSeq d = (case MaxSequence dir d of ((maxSeq, _), d) \<Rightarrow> (if maxSeq > lastSeq then maxSeq else lastSeq, d))"

text \<open>The uploader of the node's log: leaders and single nodes upload their segments.\<close>

definition wal_uploader :: "('o, 'm) store_scheme \<Rightarrow> config \<Rightarrow> noderole \<Rightarrow> 'o uploader option" where
  "wal_uploader S cfg role = (if cfg_ObjectStore cfg \<and> (cfg_PeerListenAddr cfg = [] \<or> role = roleLeader) then Some (makeUploader S) else None)"

text \<open>\<open>Open\<close>'s middle part: open the log behind everything that exists and replay the local segments.\<close>

definition open_wal :: "'db pebble \<Rightarrow> 'db pebbleio \<Rightarrow> 'o uploader option \<Rightarrow> gostring \<Rightarrow> nat \<Rightarrow> wal \<Rightarrow> 'db sstore \<Rightarrow> disk \<Rightarrow> 'o \<Rightarrow>
    ('db sstore \<times> wal \<times> int) res \<times> disk \<times> 'o" where
  "open_wal P IO up walDir term w db d ob =
     (case scan_seq walDir (s_lastSeq db) d of (nextSeq, d) \<Rightarrow>
        (case wal_Open walDir term (wrap64 (nextSeq + 1)) w d of
           (Some e, w, d) \<Rightarrow> (case close_db IO db d of (_, db, d) \<Rightarrow> (Inl e, d, ob))
         | (None, w, d) \<Rightarrow>
             (case ReplayLocal (store_Recover P) (s_lastSeq db) w db d of
                (Some e, db, d) \<Rightarrow>
                  (case wal_Close up w d ob of (_, w, d, ob) \<Rightarrow>
                     (case close_db IO db d of (_, db, d) \<Rightarrow> (Inl e, d, ob)))
              | (None, db, d) \<Rightarrow> (Inr (db, w, nextSeq), d, ob))))"

section \<open>Restoring in place\<close>

definition errDisappeared :: goerr where "errDisappeared = Err ''manifest disappeared during restore''"

text \<open>The attempts to restore a checkpoint into a temporary directory; \<open>rem\<close> more are allowed when the checkpoint is
  not found, each after reading the manifest again.\<close>

fun restore_loop :: "('o, 'm) store_scheme \<Rightarrow> ('o \<Rightarrow> 'o) \<Rightarrow> gostring \<Rightarrow> nat \<Rightarrow> Manifest \<Rightarrow> disk \<Rightarrow> 'o \<Rightarrow> nat res \<times> disk \<times> 'o" where
  "restore_loop S env tmpDir rem m d ob =
     (case os_RemoveAll tmpDir d of (_, d) \<Rightarrow>
        (case checkpoint_Restore S (mf_CheckpointKey m) tmpDir d ob of
           (Inr (t, _), d, ob) \<Rightarrow> (Inr t, d, ob)
         | (Inl err, d, ob) \<Rightarrow>
             if err \<noteq> ErrNotFound \<or> rem = 0 then (Inl err, snd (os_RemoveAll tmpDir d), ob)
             else (case ReadManifest S (env ob) of
                     (Inl e, ob) \<Rightarrow> (Inl e, snd (os_RemoveAll tmpDir d), ob)
                   | (Inr None, ob) \<Rightarrow> (Inl errDisappeared, snd (os_RemoveAll tmpDir d), ob)
                   | (Inr (Some m), ob) \<Rightarrow> restore_loop S env tmpDir (rem - 1) m d ob)))"

declare restore_loop.simps [simp del]

text \<open>The swap of the database directories, under both locks.\<close>

definition swap_db :: "'db pebble \<Rightarrow> 'db pebbleio \<Rightarrow> gostring \<Rightarrow> gostring \<Rightarrow> 'db sstore \<Rightarrow> disk \<Rightarrow> goerr option \<times> 'db sstore \<times> disk" where
  "swap_db P IO tmpDir pebbleDir db d =
     (case close_db IO db d of
        (Some e, db, d) \<Rightarrow> (Some e, db, snd (os_RemoveAll tmpDir d))
      | (None, db, d) \<Rightarrow>
          (case os_RemoveAll pebbleDir d of
             (Some e, d) \<Rightarrow> (Some e, db, snd (os_RemoveAll tmpDir d))
           | (None, d) \<Rightarrow>
               (case os_Rename tmpDir pebbleDir d of
                  (Some e, d) \<Rightarrow> (Some e, db, snd (os_RemoveAll tmpDir d))
                | (None, d) \<Rightarrow>
                    (case open_db P IO pebbleDir d of
                       (Inl e, d) \<Rightarrow> (Some e, db, d)
                     | (Inr db, d) \<Rightarrow> (None, db, d)))))"

definition restoreDBIfBehindCheckpoint :: "'db pebble \<Rightarrow> 'db pebbleio \<Rightarrow> ('o, 'm) store_scheme \<Rightarrow> ('o \<Rightarrow> 'o) \<Rightarrow> config \<Rightarrow>
    ('db, 'o) world \<Rightarrow> bool res \<times> ('db, 'o) world" where
  "restoreDBIfBehindCheckpoint P IO S env cfg w =
     (let n = o_node w; pebbleDir = db_dir cfg; tmpDir = pebbleDir @ str ''.resync'' in
      case ReadManifest S (o_obj w) of
        (Inl e, ob) \<Rightarrow> (Inl e, w\<lparr>o_obj := ob\<rparr>)
      | (Inr None, ob) \<Rightarrow> (Inr False, w\<lparr>o_obj := ob\<rparr>)
      | (Inr (Some m), ob) \<Rightarrow>
          if mf_Revision m \<le> s_currentRev (n_db n) then (Inr False, w\<lparr>o_obj := ob\<rparr>)
          else (case restore_loop S env tmpDir 4 m (o_disk w) ob of
                  (Inl e, d, ob) \<Rightarrow> (Inl e, w\<lparr>o_disk := d, o_obj := ob\<rparr>)
                | (Inr newTerm, d, ob) \<Rightarrow>
                    (case swap_db P IO tmpDir pebbleDir (n_db n) d of
                       (Some e, db, d) \<Rightarrow> (Inl e, w\<lparr>o_node := n\<lparr>n_db := db\<rparr>, o_disk := d, o_obj := ob\<rparr>)
                     | (None, db, d) \<Rightarrow> (Inr True, w\<lparr>o_node := n\<lparr>n_db := db, n_term := newTerm\<rparr>, o_disk := d, o_obj := ob\<rparr>))))"
definition resyncFromCheckpoint :: "'db pebble \<Rightarrow> 'db pebbleio \<Rightarrow> ('o, 'm) store_scheme \<Rightarrow> ('o \<Rightarrow> 'o) \<Rightarrow> config \<Rightarrow>
    ('db, 'o) world \<Rightarrow> goerr option \<times> ('db, 'o) world" where
  "resyncFromCheckpoint P IO S env cfg w =
     (case restoreDBIfBehindCheckpoint P IO S env cfg w of
        (Inl e, w) \<Rightarrow> (Some e, w)
      | (Inr False, w) \<Rightarrow> (None, w)
      | (Inr True, w) \<Rightarrow>
          let n = o_node w; newRev = s_currentRev (n_db n) in
          (case wal_Close None (n_wal n) (o_disk w) (o_obj w) of (_, wal, d, ob) \<Rightarrow>
             (case os_RemoveAll (wal_dir cfg) d of (_, d) \<Rightarrow>
                (case wal_Open (wal_dir cfg) (n_term n) (wrap64 (newRev + 1)) (wal_New (cfg_SegmentMaxSize cfg) False) d of
                   (Some e, _, d) \<Rightarrow> (Some e, w\<lparr>o_node := n\<lparr>n_wal := wal\<rparr>, o_disk := d, o_obj := ob\<rparr>)
                 | (None, newWal, d) \<Rightarrow>
                     (None, w\<lparr>o_node := n\<lparr>n_wal := newWal, n_nextRev := newRev\<rparr>, o_disk := d, o_obj := ob\<rparr>)))))"

text \<open>The follower's answer to a gap: restore the latest checkpoint, then replay the remote log. A failed restore
  cancels the node; a failed replay leaves \<open>fromRev\<close> for the next round.\<close>

definition follow_resync :: "'db pebble \<Rightarrow> 'db pebbleio \<Rightarrow> ('o, 'm) store_scheme \<Rightarrow> ('o \<Rightarrow> 'o) \<Rightarrow> config \<Rightarrow>
    ('db, 'o) world \<Rightarrow> int \<Rightarrow> bool \<times> ('db, 'o) world \<times> int" where
  "follow_resync P IO S env cfg w fromRev =
     (case resyncFromCheckpoint P IO S env cfg w of
        (Some e, w) \<Rightarrow> (False, w\<lparr>o_node := (o_node w)\<lparr>n_bgDone := True\<rparr>\<rparr>, fromRev)
      | (None, w) \<Rightarrow>
          (case replayRemote S (store_Recover P) (s_lastSeq (n_db (o_node w))) (n_db (o_node w)) (o_obj w) of
             (Some e, db, ob) \<Rightarrow> (True, w\<lparr>o_node := (o_node w)\<lparr>n_db := db\<rparr>, o_obj := ob\<rparr>, fromRev)
           | (None, db, ob) \<Rightarrow>
               (True, w\<lparr>o_node := (o_node w)\<lparr>n_db := NotifyRevision db\<rparr>, o_obj := ob\<rparr>, wrap64 (s_lastSeq db + 1))))"

section \<open>Becoming leader\<close>

text \<open>\<open>lisErr\<close> is the outcome of listening on the peer address. Only nodes with an object store stand for election.\<close>

definition becomeLeader :: "'db pebble \<Rightarrow> 'db pebbleio \<Rightarrow> ('o, 'm) store_scheme \<Rightarrow> ('o \<Rightarrow> 'o) \<Rightarrow> config \<Rightarrow> goerr option \<Rightarrow>
    LockRecord \<Rightarrow> ('db, 'o) world \<Rightarrow> goerr option \<times> ('db, 'o) world" where
  "becomeLeader P IO S env cfg lisErr rec w =
     (case wal_Close None (n_wal (o_node w)) (o_disk w) (o_obj w) of (_, wal, d, ob) \<Rightarrow>
      case uploadLocalWALSegments S (wal_dir cfg) d ob of (d, ob) \<Rightarrow>
      case restoreDBIfBehindCheckpoint P IO S env cfg (w\<lparr>o_node := (o_node w)\<lparr>n_wal := wal\<rparr>, o_disk := d, o_obj := ob\<rparr>) of
        (Inl e, w) \<Rightarrow> (Some e, w)
      | (Inr _, w) \<Rightarrow>
          let n = o_node w in
          (case replayRemote S (store_Recover P) (s_lastSeq (n_db n)) (n_db n) (o_obj w) of
             (Some e, db, ob) \<Rightarrow> (Some e, w\<lparr>o_node := n\<lparr>n_db := db\<rparr>, o_obj := ob\<rparr>)
           | (None, db, ob) \<Rightarrow>
               (case scan_seq (wal_dir cfg) (s_lastSeq db) (o_disk w) of (nextSeq, d) \<Rightarrow>
                  let w = w\<lparr>o_node := n\<lparr>n_db := db\<rparr>, o_obj := ob, o_disk := d\<rparr> in
                  (case wal_Open (wal_dir cfg) (lr_Term rec) (wrap64 (nextSeq + 1)) (wal_New (cfg_SegmentMaxSize cfg) False) d of
                     (Some e, _, d) \<Rightarrow> (Some e, w\<lparr>o_disk := d\<rparr>)
                   | (None, w2, d) \<Rightarrow>
                       (case lisErr of
                          Some e \<Rightarrow> (case wal_Close (Some (makeUploader S)) w2 d ob of (_, _, d, ob) \<Rightarrow> (Some e, w\<lparr>o_disk := d, o_obj := ob\<rparr>))
                        | None \<Rightarrow>
                            (None, w\<lparr>o_disk := d, o_node := n\<lparr>n_db := db, n_wal := w2, n_term := lr_Term rec,
                               n_peerSrv := Some (SetStartRev (wrap64 (s_lastSeq db + 1)) (NewServer (nat (cfg_PeerBufferSize cfg)))),
                               n_peerGRPC := True, n_leaderCli := None, n_role := roleLeader, n_nextRev := s_currentRev db,
                               n_nextSeq := nextSeq, n_pending := Map.empty\<rparr>\<rparr>))))))"

definition node_lock :: "bool \<Rightarrow> config \<Rightarrow> lock" where
  "node_lock conditional cfg = \<lparr>lk_nodeID = cfg_NodeID cfg, lk_advertiseAddr = cfg_AdvertisePeerAddr cfg, lk_conditional = conditional\<rparr>"

text \<open>\<open>other\<close> acts between the write and the verifying read of an election without conditional writes.\<close>

definition electAndStart :: "'db pebble \<Rightarrow> 'db pebbleio \<Rightarrow> ('o, 'm) cstore_scheme \<Rightarrow> ('o \<Rightarrow> 'o) \<Rightarrow> ('o \<Rightarrow> 'o) \<Rightarrow> bool \<Rightarrow> config \<Rightarrow>
    goerr option \<Rightarrow> int \<Rightarrow> ('db, 'o) world \<Rightarrow> goerr option \<times> ('db, 'o) world" where
  "electAndStart P IO S other env conditional cfg lisErr now w =
     (let n = o_node w in
      case TryAcquire S other (node_lock conditional cfg) now (n_term n) (s_currentRev (n_db n)) (o_obj w) of
        (Inl e, ob) \<Rightarrow> (Some e, w\<lparr>o_obj := ob\<rparr>)
      | (Inr (None, _), ob) \<Rightarrow> (Some nil_active, w\<lparr>o_obj := ob\<rparr>)
      | (Inr (Some rec, True), ob) \<Rightarrow> becomeLeader P IO S env cfg lisErr rec (w\<lparr>o_obj := ob\<rparr>)
      | (Inr (Some rec, False), ob) \<Rightarrow>
          (None, w\<lparr>o_obj := ob, o_node := (observeTerm (lr_Term rec) n)\<lparr>n_role := roleFollower, n_leaderCli := Some (lr_LeaderAddr rec)\<rparr>\<rparr>))"

section \<open>Periodic checkpoints\<close>

text \<open>\<open>Wait\<close>: every queued and running upload has run. An upload that fails is only logged.\<close>

fun run_uploads :: "('o, 'm) store_scheme \<Rightarrow> gostring list \<Rightarrow> sst_uploader \<Rightarrow> disk \<Rightarrow> 'o \<Rightarrow> sst_uploader \<times> disk \<times> 'o" where
  "run_uploads S [] u d ob = (u, d, ob)"
| "run_uploads S (p # ps) u d ob = (case uploadOne S p u d ob of (_, u, d, ob) \<Rightarrow> run_uploads S ps u d ob)"

definition sst_Wait :: "('o, 'm) store_scheme \<Rightarrow> sst_uploader \<Rightarrow> disk \<Rightarrow> 'o \<Rightarrow> sst_uploader \<times> disk \<times> 'o" where
  "sst_Wait S u d ob = (case run_uploads S (su_running u @ su_uploadC u) u d ob of (u, d, ob) \<Rightarrow>
     (u\<lparr>su_running := [], su_uploadC := [], su_pending := 0\<rparr>, d, ob))"

fun queue_tables :: "('o, 'm) store_scheme \<Rightarrow> gostring list \<Rightarrow> sst_uploader \<Rightarrow> disk \<Rightarrow> 'o \<Rightarrow> sst_uploader \<times> disk \<times> 'o" where
  "queue_tables S [] u d ob = (u, d, ob)"
| "queue_tables S (t # ts) u d ob = (case queueTable S t u d ob of (u, d, ob) \<Rightarrow> queue_tables S ts u d ob)"

text \<open>What both kinds of checkpoint do under the fence: seal the log, flush the database, write the checkpoint. The
  result is the revision and the sequence written, if it was.\<close>

definition write_checkpoint :: "'db pebbleio \<Rightarrow> ('o, 'm) store_scheme \<Rightarrow> gostring \<Rightarrow> gostring list res option \<Rightarrow> ('db, 'o) world \<Rightarrow>
    (int \<times> int) option \<times> ('db, 'o) world" where
  "write_checkpoint IO S tmpDir ancestor w =
     (let n = o_node w; db = n_db n; rv = s_currentRev db; sq = s_lastSeq db in
      if rv = 0 then (None, w)
      else (case SealAndFlush (Some (makeUploader S)) (wrap64 (sq + 1)) (n_wal n) (o_disk w) of
        (Some e, wal, d) \<Rightarrow> (None, w\<lparr>o_node := n\<lparr>n_wal := wal\<rparr>, o_disk := d\<rparr>)
      | (None, wal, d) \<Rightarrow>
          (case pio_Flush IO (s_db db) d of ((err, tables), pdb, d) \<Rightarrow>
             let n = n\<lparr>n_wal := wal, n_db := db\<lparr>s_db := pdb\<rparr>\<rparr> in
             (case (case o_sst w of None \<Rightarrow> (None, d, o_obj w)
                    | Some u \<Rightarrow> (case queue_tables S tables u d (o_obj w) of (u, d, ob) \<Rightarrow> (Some u, d, ob))) of (sst, d, ob) \<Rightarrow>
                if err \<noteq> None then (None, w\<lparr>o_node := n, o_sst := sst, o_disk := d, o_obj := ob\<rparr>)
                else (case sst of
                        Some u \<Rightarrow>
                          (case sst_Wait S u d ob of (u, d, ob) \<Rightarrow>
                             (case WriteWithRegistryAtSequence S (pio_Checkpoint IO pdb) tmpDir (n_term n) rv sq [] (Registry u) (InheritedRegistry u) d ob of
                                (e, d, ob) \<Rightarrow> (if e = None then Some (rv, sq) else None, w\<lparr>o_node := n, o_sst := Some u, o_disk := d, o_obj := ob\<rparr>)))
                      | None \<Rightarrow>
                          (case WriteAtSequence S (pio_Checkpoint IO pdb) tmpDir ancestor (n_term n) rv sq [] d ob of
                             (e, d, ob) \<Rightarrow> (if e = None then Some (rv, sq) else None, w\<lparr>o_node := n, o_disk := d, o_obj := ob\<rparr>)))))))"

definition forceCheckpoint :: "'db pebbleio \<Rightarrow> ('o, 'm) store_scheme \<Rightarrow> gostring \<Rightarrow> gostring list res option \<Rightarrow> ('db, 'o) world \<Rightarrow> ('db, 'o) world" where
  "forceCheckpoint IO S tmpDir ancestor w =
     (case write_checkpoint IO S tmpDir ancestor w of
        (None, w) \<Rightarrow> w
      | (Some _, w) \<Rightarrow> w\<lparr>o_node := (o_node w)\<lparr>n_entriesSinceCheckpoint := 0\<rparr>\<rparr>)"

text \<open>The collections after a checkpoint at sequence \<open>sq\<close>: the log up to what every connected follower has, old
  checkpoints, and the files that only they used.\<close>

definition gc_seq :: "server option \<Rightarrow> int \<Rightarrow> int" where
  "gc_seq srv sq = (case srv of None \<Rightarrow> sq | Some s \<Rightarrow> if MinFollowerAppliedRev s < sq then MinFollowerAppliedRev s else sq)"

definition collect :: "('o, 'm) store_scheme \<Rightarrow> int \<Rightarrow> 'o \<Rightarrow> 'o" where
  "collect S gcSeq ob =
     (case GCSegments S gcSeq ob of (_, ob) \<Rightarrow>
        (case GCCheckpoints S 2 ob of ((deleted, orphans, _), ob) \<Rightarrow>
           if deleted > 0 \<and> orphans \<noteq> [] then snd (GCOrphanSSTs S orphans ob) else ob))"

definition maybeCheckpoint :: "'db pebbleio \<Rightarrow> ('o, 'm) store_scheme \<Rightarrow> gostring \<Rightarrow> gostring list res option \<Rightarrow> ('db, 'o) world \<Rightarrow> ('db, 'o) world" where
  "maybeCheckpoint IO S tmpDir ancestor w =
     (if n_entriesSinceCheckpoint (o_node w) = 0 then w
      else (case write_checkpoint IO S tmpDir ancestor w of
        (None, w) \<Rightarrow> w
      | (Some (_, sq), w) \<Rightarrow>
          w\<lparr>o_node := (o_node w)\<lparr>n_entriesSinceCheckpoint := 0\<rparr>, o_obj := collect S (gc_seq (n_peerSrv (o_node w)) sq) (o_obj w)\<rparr>))"

text \<open>\<open>checkpointLoop\<close>: a checkpoint at once, then one attempt per tick of the timer or trigger; \<open>works\<close> is what the rest of
  the node does between two ticks.\<close>

fun checkpoint_ticks :: "'db pebbleio \<Rightarrow> ('o, 'm) store_scheme \<Rightarrow> gostring \<Rightarrow> gostring list res option \<Rightarrow> (('db, 'o) world \<Rightarrow> ('db, 'o) world) list \<Rightarrow>
    ('db, 'o) world \<Rightarrow> ('db, 'o) world" where
  "checkpoint_ticks IO S tmpDir ancestor [] w = w"
| "checkpoint_ticks IO S tmpDir ancestor (work # works) w = checkpoint_ticks IO S tmpDir ancestor works (maybeCheckpoint IO S tmpDir ancestor (work w))"

definition checkpointLoop :: "'db pebbleio \<Rightarrow> ('o, 'm) store_scheme \<Rightarrow> gostring \<Rightarrow> gostring list res option \<Rightarrow> (('db, 'o) world \<Rightarrow> ('db, 'o) world) list \<Rightarrow>
    ('db, 'o) world \<Rightarrow> ('db, 'o) world" where
  "checkpointLoop IO S tmpDir ancestor works w = checkpoint_ticks IO S tmpDir ancestor works (forceCheckpoint IO S tmpDir ancestor w)"

section \<open>Promotion\<close>

definition LeaderLivenessTTL :: int where "LeaderLivenessTTL = 6 * second"

text \<open>A new leader registers its files and writes a checkpoint at once.\<close>

definition promoted :: "'db pebbleio \<Rightarrow> ('o, 'm) store_scheme \<Rightarrow> config \<Rightarrow> gostring \<Rightarrow> gostring list res option \<Rightarrow> ('db, 'o) world \<Rightarrow> ('db, 'o) world" where
  "promoted IO S cfg tmpDir ancestor w =
     (let w = (case o_sst w of
                 None \<Rightarrow> w
               | Some u \<Rightarrow> (case Reconcile S u (o_disk w) (o_obj w) of (_, u, d, ob) \<Rightarrow> w\<lparr>o_sst := Some u, o_disk := d, o_obj := ob\<rparr>))
      in if cfg_ObjectStore cfg \<and> cfg_CheckpointInterval cfg > 0 then forceCheckpoint IO S tmpDir ancestor w else w)"

text \<open>Where the lock refers a follower that does not take over.\<close>

definition refer :: "LockRecord \<Rightarrow> ('db, 'o) world \<Rightarrow> (gostring option \<times> bool) \<times> ('db, 'o) world" where
  "refer rec w = (if lr_LeaderAddr rec \<noteq> [] then ((Some (lr_LeaderAddr rec), False), w\<lparr>o_node := observeTerm (lr_Term rec) (o_node w)\<rparr>)
     else ((None, False), w))"

definition takeover :: "'db pebble \<Rightarrow> 'db pebbleio \<Rightarrow> ('o, 'm) cstore_scheme \<Rightarrow> ('o \<Rightarrow> 'o) \<Rightarrow> ('o \<Rightarrow> 'o) \<Rightarrow> bool \<Rightarrow> config \<Rightarrow>
    gostring \<Rightarrow> gostring list res option \<Rightarrow> goerr option \<Rightarrow> int \<Rightarrow> ('db, 'o) world \<Rightarrow> (gostring option \<times> bool) \<times> ('db, 'o) world" where
  "takeover P IO S other env conditional cfg tmpDir ancestor lisErr now w =
     (let n = o_node w in
      case TakeOver S other (node_lock conditional cfg) now (n_term n) (s_currentRev (n_db n)) (o_obj w) of
        (Inl e, ob) \<Rightarrow> ((None, False), w\<lparr>o_obj := ob\<rparr>)
      | (Inr (None, _), ob) \<Rightarrow> ((None, False), w\<lparr>o_obj := ob\<rparr>)
      | (Inr (Some rec, True), ob) \<Rightarrow>
          (case becomeLeader P IO S env cfg lisErr rec (w\<lparr>o_obj := ob\<rparr>) of
             (Some e, w) \<Rightarrow> ((None, False), w)
           | (None, w) \<Rightarrow> ((None, True), promoted IO S cfg tmpDir ancestor w))
      | (Inr (Some rec, False), ob) \<Rightarrow> refer rec (w\<lparr>o_obj := ob\<rparr>))"

text \<open>The result: the address of a leader to follow instead, and whether the node was promoted. \<open>env\<close> is what other nodes do to
  the object store between the read of the lock and the election.\<close>

definition attemptPromotion :: "'db pebble \<Rightarrow> 'db pebbleio \<Rightarrow> ('o, 'm) cstore_scheme \<Rightarrow> ('o \<Rightarrow> 'o) \<Rightarrow> ('o \<Rightarrow> 'o) \<Rightarrow> bool \<Rightarrow> config \<Rightarrow>
    gostring \<Rightarrow> gostring list res option \<Rightarrow> goerr option \<Rightarrow> int \<Rightarrow> bool \<Rightarrow> ('db, 'o) world \<Rightarrow> (gostring option \<times> bool) \<times> ('db, 'o) world" where
  "attemptPromotion P IO S other env conditional cfg tmpDir ancestor lisErr now graceful w =
     (case lock_Read S (node_lock conditional cfg) (o_obj w) of
        (Inl e, ob) \<Rightarrow> ((None, False), w\<lparr>o_obj := ob\<rparr>)
      | (Inr existing, ob) \<Rightarrow>
          let w = w\<lparr>o_obj := env ob\<rparr>; go = takeover P IO S other env conditional cfg tmpDir ancestor lisErr now in
          (case existing of
             None \<Rightarrow> go w
           | Some rec \<Rightarrow>
               if \<not> graceful \<and> lr_LastSeenNano rec > 0 \<and> now - lr_LastSeenNano rec < LeaderLivenessTTL then refer rec w
               else if lr_CommittedRev rec > s_currentRev (n_db (o_node w)) then
                 (if graceful \<and> cfg_ObjectStore cfg then
                    (case replayRemote S (store_Recover P) (s_lastSeq (n_db (o_node w))) (n_db (o_node w)) (o_obj w) of
                       (Some e, db, ob) \<Rightarrow> ((None, False), w\<lparr>o_node := (o_node w)\<lparr>n_db := db\<rparr>, o_obj := ob\<rparr>)
                     | (None, db, ob) \<Rightarrow>
                         let w = w\<lparr>o_node := (o_node w)\<lparr>n_db := db\<rparr>, o_obj := ob\<rparr> in
                         if lr_CommittedRev rec > s_currentRev db then ((None, False), w) else go w)
                  else refer rec w)
               else go w))"

section \<open>The follow loop\<close>

datatype round = RoundEnd | RoundNext

definition with_from :: "int \<Rightarrow> ('db, 'o) world \<Rightarrow> ('db, 'o) fstate" where
  "with_from fromRev w = world.extend w (fstate.fields fromRev)"

text \<open>One round of \<open>followLoop\<close>: the attempts \<open>as\<close> of \<open>Follow\<close>, then what its error calls for. \<open>bgDone\<close>: the node's context ended meanwhile.\<close>

definition follow_round :: "'db pebble \<Rightarrow> 'db pebbleio \<Rightarrow> ('o, 'm) cstore_scheme \<Rightarrow> ('o \<Rightarrow> 'o) \<Rightarrow> ('o \<Rightarrow> 'o) \<Rightarrow> bool \<Rightarrow> config \<Rightarrow>
    gostring \<Rightarrow> gostring list res option \<Rightarrow> goerr option \<Rightarrow> int \<Rightarrow> attempt list \<Rightarrow> bool \<Rightarrow> ('db, 'o) world \<Rightarrow> int \<Rightarrow>
    (round \<times> ('db, 'o) world \<times> int) option" where
  "follow_round P IO S other env conditional cfg tmpDir ancestor lisErr now as bgDone w fromRev =
     (case client_Follow follow_wal (follow_apply P) (nat (cfg_FollowerMaxRetries cfg)) 0 fromRev as (with_from fromRev w) of
        (None, s) \<Rightarrow> None
      | (Some err, s) \<Rightarrow>
          let fromRev = f_fromRev s; w = world.truncate s in
          Some (if bgDone then (RoundEnd, w, fromRev)
            else if err = errResync then
              (if \<not> cfg_ObjectStore cfg then (RoundEnd, w\<lparr>o_node := (o_node w)\<lparr>n_bgDone := True\<rparr>\<rparr>, fromRev)
               else (case follow_resync P IO S env cfg w fromRev of (goOn, w, fromRev) \<Rightarrow> (if goOn then RoundNext else RoundEnd, w, fromRev)))
            else if err = errLeaderUnreachable \<or> err = errLeaderShutdown then
              (case attemptPromotion P IO S other env conditional cfg tmpDir ancestor lisErr now (err = errLeaderShutdown) w of
                 ((_, True), w) \<Rightarrow> (RoundEnd, w, fromRev)
               | ((Some addr, False), w) \<Rightarrow> (RoundNext, w\<lparr>o_node := (o_node w)\<lparr>n_leaderCli := Some addr\<rparr>\<rparr>, fromRev)
               | ((None, False), w) \<Rightarrow> (RoundNext, w, fromRev))
            else (RoundNext, w, fromRev)))"

section \<open>The leader's watch\<close>

datatype watch_event = WatchTick | WatchDisconnect | WatchPoll | WatchDone

definition watch_check :: "('o, 'm) cstore_scheme \<Rightarrow> lock \<Rightarrow> int \<Rightarrow> nat \<Rightarrow> bool \<Rightarrow> ('db, 'o) world \<Rightarrow> bool \<times> ('db, 'o) world" where
  "watch_check S l now term touch w =
     (let n = o_node w in
      case fencedCheck S l now (n_closed n) (touch \<and> n_peerSrv n \<noteq> None) term (s_currentRev (n_db n)) (o_obj w) of (ok, ob) \<Rightarrow>
        (ok, w\<lparr>o_obj := ob, o_node := (if ok \<or> n_closed n then n else n\<lparr>n_bgDone := True, n_peerGRPC := False\<rparr>)\<rparr>))"

text \<open>One event of \<open>watchLoop\<close>; \<open>polling\<close> says whether the poll timer runs, and the first result whether the loop goes on. A poll
  cannot happen while the timer does not run.\<close>

definition watch_step :: "('o, 'm) cstore_scheme \<Rightarrow> lock \<Rightarrow> int \<Rightarrow> nat \<Rightarrow> watch_event \<Rightarrow> bool \<Rightarrow> ('db, 'o) world \<Rightarrow> bool \<times> bool \<times> ('db, 'o) world" where
  "watch_step S l now term ev polling w = (case ev of
       WatchTick \<Rightarrow> (case watch_check S l now term False w of (ok, w) \<Rightarrow> (ok, polling, w))
     | WatchDisconnect \<Rightarrow> (case watch_check S l now term True w of (ok, w) \<Rightarrow> (ok, ok \<or> polling, w))
     | WatchPoll \<Rightarrow>
         if \<not> polling then (True, polling, w)
         else (case watch_check S l now term True w of (ok, w) \<Rightarrow>
                 (ok, ok \<and> \<not> (case n_peerSrv (o_node w) of None \<Rightarrow> False | Some s \<Rightarrow> ConnectedFollowers s > 0), w))
     | WatchDone \<Rightarrow> (False, False, w))"

definition watch_start :: "('db, 'o) world \<Rightarrow> bool" where
  "watch_start w \<longleftrightarrow> n_peerSrv (o_node w) \<noteq> None"

section \<open>Shutting down\<close>

definition gracefulLeaderShutdown :: "('o, 'm) cstore_scheme \<Rightarrow> bool \<Rightarrow> config \<Rightarrow> int \<Rightarrow> ('db, 'o) world \<Rightarrow> ('db, 'o) world" where
  "gracefulLeaderShutdown S conditional cfg now w =
     (let n = o_node w in
      case wal_Close (wal_uploader S cfg (n_role n)) (n_wal n) (o_disk w) (o_obj w) of (_, wal, d, ob) \<Rightarrow>
        let ob = (if cfg_ObjectStore cfg
                  then snd (Touch S (node_lock conditional cfg) now (n_term n) (cfg_AdvertisePeerAddr cfg) (s_currentRev (n_db n)) ob) else ob)
        in w\<lparr>o_node := n\<lparr>n_wal := wal, n_peerSrv := map_option BroadcastShutdown (n_peerSrv n)\<rparr>, o_disk := d, o_obj := ob\<rparr>)"

text \<open>\<open>Close\<close>; the background loops end between the cancellation and the stop of the peer server. A follower's goodbye is a call at the leader.\<close>

definition node_Close :: "'db pebbleio \<Rightarrow> ('o, 'm) cstore_scheme \<Rightarrow> bool \<Rightarrow> config \<Rightarrow> int \<Rightarrow> ('db, 'o) world \<Rightarrow> goerr option \<times> ('db, 'o) world" where
  "node_Close IO S conditional cfg now w =
     (if o_closeOnce w then (None, w)
      else
        let w = w\<lparr>o_closeOnce := True, o_node := (o_node w)\<lparr>n_closed := True\<rparr>\<rparr>;
            w = (if n_role (o_node w) = roleLeader then gracefulLeaderShutdown S conditional cfg now w else w);
            n = (o_node w)\<lparr>n_bgDone := True, n_peerGRPC := False\<rparr>
        in case wal_Close (wal_uploader S cfg (n_role n)) (n_wal n) (o_disk w) (o_obj w) of (werr, wal, d, ob) \<Rightarrow>
             (case close_db IO (n_db n) d of (dberr, db, d) \<Rightarrow>
                (if dberr \<noteq> None then dberr else werr, w\<lparr>o_node := n\<lparr>n_wal := wal, n_db := db\<rparr>, o_disk := d, o_obj := ob\<rparr>)))"

section \<open>Opening a node\<close>

text \<open>Where a node's first data come from: a pinned restore point, the checkpoint of a source store, or the latest
  checkpoint of its own store. The stores of the first two are their own.\<close>

record 'r restorepoint =
  rp_S :: "'r store"
  rp_ob :: 'r
  rp_getv :: "gostring \<Rightarrow> gostring \<Rightarrow> bytes res"
  rp_CheckpointArchive :: "gostring \<times> gostring"
  rp_CheckpointFiles :: "(gostring \<times> gostring) list"
  rp_WALSegments :: "(gostring \<times> gostring) list"

record 'r branchpoint =
  bp_S :: "'r store"
  bp_ob :: 'r
  bp_CheckpointKey :: gostring

datatype 'r boot = BootLatest | BootRestore "'r restorepoint" | BootBranch "'r branchpoint"

text \<open>\<open>os.Stat\<close> finds nothing.\<close>

definition os_missing :: "gostring \<Rightarrow> disk \<Rightarrow> bool \<times> disk" where
  "os_missing p d = (case next_fault d of (Some _, d) \<Rightarrow> (False, d) | (None, d) \<Rightarrow> (p \<notin> set (d_dirs d) \<and> content d p = None, d))"

definition err_pin :: goerr where "err_pin = Err ''t4: RestorePoint.CheckpointFiles''"

text \<open>The pinned versions by key; an empty key or version and two versions of a key are refused.\<close>

fun pin_versions :: "(gostring \<times> gostring) list \<Rightarrow> (gostring \<times> gostring) list \<Rightarrow> (gostring \<times> gostring) list res" where
  "pin_versions [] m = Inr m"
| "pin_versions ((k, v) # fs) m =
     (if k = [] \<or> v = [] then Inl err_pin
      else if map_of m k \<noteq> None \<and> map_of m k \<noteq> Some v then Inl err_pin
      else pin_versions fs (AList.update k v m))"

definition boot_restore :: "'r restorepoint \<Rightarrow> gostring \<Rightarrow> disk \<Rightarrow> (nat \<times> int) option res \<times> disk" where
  "boot_restore rp pebbleDir d =
     (case os_missing pebbleDir d of (missing, d) \<Rightarrow>
        if \<not> missing \<or> fst (rp_CheckpointArchive rp) = [] then (Inr None, d)
        else (case pin_versions (rp_CheckpointFiles rp) [] of
          Inl e \<Rightarrow> (Inl e, d)
        | Inr versions \<Rightarrow>
            (case RestoreVersioned (rp_S rp) (rp_getv rp) (fst (rp_CheckpointArchive rp)) (snd (rp_CheckpointArchive rp)) versions pebbleDir d (rp_ob rp) of
               (Inl e, d, _) \<Rightarrow> (Inl e, d)
             | (Inr tr, d, _) \<Rightarrow> (Inr (Some tr), d))))"

text \<open>Besides the restored term, a branch learns which SST files are its source's.\<close>

definition boot_branch :: "'r branchpoint \<Rightarrow> bool \<Rightarrow> gostring \<Rightarrow> disk \<Rightarrow> ((nat \<times> int) option \<times> (gostring \<times> gostring) list) res \<times> disk" where
  "boot_branch bp hasStore pebbleDir d =
     (case os_missing pebbleDir d of (missing, d) \<Rightarrow>
        if \<not> missing then (Inr (None, []), d)
        else (case RestoreBranch (bp_S bp) None (bp_CheckpointKey bp) pebbleDir d (bp_ob bp) of
          (Inl e, d, _) \<Rightarrow> (Inl e, d)
        | (Inr tr, d, ob) \<Rightarrow>
            (Inr (Some tr, if \<not> hasStore then [] else (case ReadCheckpointIndex (bp_S bp) (bp_CheckpointKey bp) ob of
                  (Inl _, _) \<Rightarrow> []
                | (Inr idx, _) \<Rightarrow> foldl (\<lambda>m key. AList.update (path_base key) key m) [] (ci_SSTFiles idx))), d)))"

fun boot_loop :: "('o, 'm) store_scheme \<Rightarrow> ('o \<Rightarrow> 'o) \<Rightarrow> gostring \<Rightarrow> nat \<Rightarrow> Manifest \<Rightarrow> disk \<Rightarrow> 'o \<Rightarrow> (nat \<times> int) option res \<times> disk \<times> 'o" where
  "boot_loop S env pebbleDir rem m d ob =
     (case checkpoint_Restore S (mf_CheckpointKey m) pebbleDir d ob of
        (Inr tr, d, ob) \<Rightarrow> (Inr (Some tr), d, ob)
      | (Inl err, d, ob) \<Rightarrow>
          if err \<noteq> ErrNotFound \<or> rem = 0 then (Inl err, d, ob)
          else (case ReadManifest S (env ob) of
                  (Inl e, ob) \<Rightarrow> (Inl e, d, ob)
                | (Inr None, ob) \<Rightarrow> (Inr None, d, ob)
                | (Inr (Some m), ob) \<Rightarrow> boot_loop S env pebbleDir (rem - 1) m d ob))"

declare boot_loop.simps [simp del]

definition boot_latest :: "('o, 'm) store_scheme \<Rightarrow> ('o \<Rightarrow> 'o) \<Rightarrow> gostring \<Rightarrow> disk \<Rightarrow> 'o \<Rightarrow> (nat \<times> int) option res \<times> disk \<times> 'o" where
  "boot_latest S env pebbleDir d ob =
     (case ReadManifest S ob of
        (Inl e, ob) \<Rightarrow> (Inl e, d, ob)
      | (Inr None, ob) \<Rightarrow> (Inr None, d, ob)
      | (Inr (Some m), ob) \<Rightarrow>
          (case os_missing pebbleDir d of (missing, d) \<Rightarrow> if missing then boot_loop S env pebbleDir 4 m d ob else (Inr None, d, ob)))"

text \<open>The first part of \<open>Open\<close>: the term to start with and the inherited files.\<close>

definition boot_data :: "('o, 'm) store_scheme \<Rightarrow> ('o \<Rightarrow> 'o) \<Rightarrow> 'r boot \<Rightarrow> config \<Rightarrow> disk \<Rightarrow> 'o \<Rightarrow> (nat \<times> (gostring \<times> gostring) list) res \<times> disk \<times> 'o" where
  "boot_data S env bt cfg d ob =
     (let term_of = (\<lambda>tr. case tr of None \<Rightarrow> 1 | Some (t, _) \<Rightarrow> t) in
      case bt of
        BootRestore rp \<Rightarrow> (case boot_restore rp (db_dir cfg) d of (Inl e, d) \<Rightarrow> (Inl e, d, ob) | (Inr tr, d) \<Rightarrow> (Inr (term_of tr, []), d, ob))
      | BootBranch bp \<Rightarrow> (case boot_branch bp (cfg_ObjectStore cfg) (db_dir cfg) d of
            (Inl e, d) \<Rightarrow> (Inl e, d, ob) | (Inr (tr, inh), d) \<Rightarrow> (Inr (term_of tr, inh), d, ob))
      | BootLatest \<Rightarrow>
          if \<not> cfg_ObjectStore cfg then (Inr (1, []), d, ob)
          else (case boot_latest S env (db_dir cfg) d ob of (Inl e, d, ob) \<Rightarrow> (Inl e, d, ob) | (Inr tr, d, ob) \<Rightarrow> (Inr (term_of tr, []), d, ob)))"

text \<open>What \<open>Open\<close> holds while it replays: the store, the term, the next sequence, the log and the uploader of database files.\<close>

record 'db open_state =
  op_db :: "'db sstore"
  op_term :: nat
  op_nextSeq :: int
  op_wal :: wal
  op_sst :: "sst_uploader option"

fun gap_restore :: "('o, 'm) store_scheme \<Rightarrow> ('o \<Rightarrow> 'o) \<Rightarrow> gostring \<Rightarrow> nat \<Rightarrow> Manifest \<Rightarrow> disk \<Rightarrow> 'o \<Rightarrow> nat res \<times> disk \<times> 'o" where
  "gap_restore S env pebbleDir rem m d ob =
     (case checkpoint_Restore S (mf_CheckpointKey m) pebbleDir d ob of
        (Inr (t, _), d, ob) \<Rightarrow> (Inr t, d, ob)
      | (Inl err, d, ob) \<Rightarrow>
          if err \<noteq> ErrNotFound \<or> rem = 0 then (Inl err, d, ob)
          else (case ReadManifest S (env ob) of
                  (Inl e, ob) \<Rightarrow> (Inl e, d, ob)
                | (Inr None, ob) \<Rightarrow> (Inl errDisappeared, d, ob)
                | (Inr (Some m), ob) \<Rightarrow> gap_restore S env pebbleDir (rem - 1) m d ob))"

declare gap_restore.simps [simp del]

definition reconcile_opt :: "('o, 'm) store_scheme \<Rightarrow> sst_uploader option \<Rightarrow> disk \<Rightarrow> 'o \<Rightarrow> sst_uploader option \<times> disk \<times> 'o" where
  "reconcile_opt S sst d ob = (case sst of None \<Rightarrow> (None, d, ob)
     | Some u \<Rightarrow> (case Reconcile S u d ob of (_, u, d, ob) \<Rightarrow> (Some u, d, ob)))"

text \<open>A checkpoint that has advanced past the store: restore it and open the log again behind everything that exists.\<close>

definition gap_reopen :: "'db pebble \<Rightarrow> 'db pebbleio \<Rightarrow> ('o, 'm) store_scheme \<Rightarrow> ('o \<Rightarrow> 'o) \<Rightarrow> config \<Rightarrow> Manifest \<Rightarrow> 'db open_state \<Rightarrow>
    disk \<Rightarrow> 'o \<Rightarrow> 'db open_state res \<times> disk \<times> 'o" where
  "gap_reopen P IO S env cfg m st d ob =
     (let up = wal_uploader S cfg roleSingle; fail = (\<lambda>e d ob. case wal_Close up (op_wal st) d ob of (_, _, d, ob) \<Rightarrow> (Inl e, d, ob)) in
      case close_db IO (op_db st) d of (_, _, d) \<Rightarrow>
        (case os_RemoveAll (db_dir cfg) d of
           (Some e, d) \<Rightarrow> fail e d ob
         | (None, d) \<Rightarrow>
             (case gap_restore S env (db_dir cfg) 4 m d ob of
                (Inl e, d, ob) \<Rightarrow> fail e d ob
              | (Inr newTerm, d, ob) \<Rightarrow>
                  (case open_db P IO (db_dir cfg) d of
                     (Inl e, d) \<Rightarrow> fail e d ob
                   | (Inr db, d) \<Rightarrow>
                       (case reconcile_opt S (op_sst st) d ob of (sst, d, ob) \<Rightarrow>
                        (case wal_Close up (op_wal st) d ob of (_, wal, d, ob) \<Rightarrow>
                         (case scan_seq (wal_dir cfg) (s_lastSeq db) d of (reopenSeq, d) \<Rightarrow>
                          (case wal_Open (wal_dir cfg) newTerm (wrap64 (reopenSeq + 1)) wal d of
                             (Some e, _, d) \<Rightarrow> (case close_db IO db d of (_, _, d) \<Rightarrow> (Inl e, d, ob))
                           | (None, wal, d) \<Rightarrow>
                               (Inr \<lparr>op_db = db, op_term = newTerm, op_nextSeq = reopenSeq, op_wal = wal, op_sst = sst\<rparr>, d, ob)))))))))"

text \<open>Replay the remote log until the checkpoint has not advanced meanwhile, at most \<open>k\<close> times.\<close>

fun gap_loop :: "'db pebble \<Rightarrow> 'db pebbleio \<Rightarrow> ('o, 'm) store_scheme \<Rightarrow> ('o \<Rightarrow> 'o) \<Rightarrow> config \<Rightarrow> nat \<Rightarrow> 'db open_state \<Rightarrow> disk \<Rightarrow> 'o \<Rightarrow>
    'db open_state res \<times> disk \<times> 'o" where
  "gap_loop P IO S env cfg 0 st d ob = (Inr st, d, ob)"
| "gap_loop P IO S env cfg (Suc k) st d ob =
     (let before = s_currentRev (op_db st) in
      case replayRemote S (store_Recover P) (s_lastSeq (op_db st)) (op_db st) ob of (replayErr, db, ob) \<Rightarrow>
      case ReadManifest S (env ob) of (man, ob) \<Rightarrow>
        let st = st\<lparr>op_db := db\<rparr>;
            fresh = (case man of Inr (Some m) \<Rightarrow> if mf_Revision m \<le> (if replayErr = None then s_currentRev db else before) then None else Some m | _ \<Rightarrow> None)
        in case fresh of
             None \<Rightarrow>
               (case replayErr of
                  None \<Rightarrow> (Inr st, d, ob)
                | Some e \<Rightarrow> (case wal_Close (wal_uploader S cfg roleSingle) (op_wal st) d ob of (_, _, d, ob) \<Rightarrow>
                              (case close_db IO db d of (_, _, d) \<Rightarrow> (Inl e, d, ob))))
           | Some m \<Rightarrow>
               (case gap_reopen P IO S env cfg m st d ob of
                  (Inl e, d, ob) \<Rightarrow> (Inl e, d, ob)
                | (Inr st, d, ob) \<Rightarrow> gap_loop P IO S env cfg k st d ob))"

text \<open>The replay behind the local one, by where the data came from.\<close>

definition replay_boot :: "'db pebble \<Rightarrow> 'db pebbleio \<Rightarrow> ('o, 'm) store_scheme \<Rightarrow> ('o \<Rightarrow> 'o) \<Rightarrow> 'r boot \<Rightarrow> config \<Rightarrow> 'db open_state \<Rightarrow> disk \<Rightarrow> 'o \<Rightarrow>
    'db open_state res \<times> disk \<times> 'o" where
  "replay_boot P IO S env bt cfg st d ob =
     (let db = op_db st;
          fail = (\<lambda>e d ob. case wal_Close (wal_uploader S cfg roleSingle) (op_wal st) d ob of (_, _, d, ob) \<Rightarrow>
                     (case close_db IO db d of (_, _, d) \<Rightarrow> (Inl e, d, ob)))
      in case bt of
           BootRestore rp \<Rightarrow> (case replayPinned (rp_getv rp) (store_Recover P) (rp_WALSegments rp) (s_lastSeq db) db of
               (Some e, db) \<Rightarrow> fail e d ob | (None, db) \<Rightarrow> (Inr (st\<lparr>op_db := db\<rparr>), d, ob))
         | BootBranch bp \<Rightarrow>
             if \<not> cfg_ObjectStore cfg then (Inr st, d, ob)
             else (case replayRemote S (store_Recover P) (s_lastSeq db) db ob of
               (Some e, db, ob) \<Rightarrow> fail e d ob | (None, db, ob) \<Rightarrow> (Inr (st\<lparr>op_db := db\<rparr>), d, ob))
         | BootLatest \<Rightarrow> if \<not> cfg_ObjectStore cfg then (Inr st, d, ob) else gap_loop P IO S env cfg 10 st d ob)"

definition node_Open :: "'db pebble \<Rightarrow> 'db pebbleio \<Rightarrow> ('o, 'm) cstore_scheme \<Rightarrow> ('o \<Rightarrow> 'o) \<Rightarrow> ('o \<Rightarrow> 'o) \<Rightarrow> bool \<Rightarrow> 'r boot \<Rightarrow>
    gostring res \<Rightarrow> goerr option \<Rightarrow> int \<Rightarrow> config \<Rightarrow> disk \<Rightarrow> 'o \<Rightarrow> ('db, 'o) world res \<times> disk \<times> 'o" where
  "node_Open P IO S other env conditional bt hostname lisErr now cfg0 d ob =
     (let cfg = setDefaults hostname cfg0; up = wal_uploader S cfg roleSingle in
      case boot_data S env bt cfg d ob of
        (Inl e, d, ob) \<Rightarrow> (Inl e, d, ob)
      | (Inr (term, inherited), d, ob) \<Rightarrow>
      (case open_db P IO (db_dir cfg) d of
        (Inl e, d) \<Rightarrow> (Inl e, d, ob)
      | (Inr db, d) \<Rightarrow>
          (case reconcile_opt S (if cfg_ObjectStore cfg then Some (SetInherited inherited (NewSSTUploader (db_dir cfg))) else None) d ob of (sst, d, ob) \<Rightarrow>
          (case open_wal P IO up (wal_dir cfg) term (wal_New (cfg_SegmentMaxSize cfg) (cfg_ObjectStore cfg \<and> cfg_WALSyncUpload cfg = Some True)) db d ob of
             (Inl e, d, ob) \<Rightarrow> (Inl e, d, ob)
           | (Inr (db, wal, nextSeq), d, ob) \<Rightarrow>
               (case replay_boot P IO S env bt cfg \<lparr>op_db = db, op_term = term, op_nextSeq = nextSeq, op_wal = wal, op_sst = sst\<rparr> d ob of
                  (Inl e, d, ob) \<Rightarrow> (Inl e, d, ob)
                | (Inr st, d, ob) \<Rightarrow>
                    let w = \<lparr>o_node = new_node (op_term st) (op_db st) (op_wal st) (op_nextSeq st) (cfg_CheckpointEntries cfg) (wait_mode (cfg_FollowerWaitMode cfg)),
                             o_sst = op_sst st, o_disk = d, o_obj = ob, o_closeOnce = False\<rparr>
                    in if cfg_PeerListenAddr cfg = [] \<or> \<not> cfg_ObjectStore cfg then (Inr w, d, ob)
                       else (case electAndStart P IO S other env conditional cfg lisErr now w of
                               (None, w) \<Rightarrow> (Inr w, o_disk w, o_obj w)
                             | (Some e, w) \<Rightarrow>
                                 (case wal_Close up (n_wal (o_node w)) (o_disk w) (o_obj w) of (_, _, d, ob) \<Rightarrow>
                                    (case close_db IO (op_db st) d of (_, _, d) \<Rightarrow> (Inl e, d, ob)))))))))"

section \<open>Recovery after a crash\<close>

text \<open>A segment file as a crash leaves it: whole entries from its first sequence on, then perhaps a torn frame.\<close>

definition seg_ok :: "gostring \<Rightarrow> disk \<Rightarrow> gostring \<Rightarrow> bool" where
  "seg_ok dir d p \<longleftrightarrow> (\<exists>t r es q. p = path_join dir (SegmentName t r) \<and> content d p = Some (seg_file t r es @ q) \<and> is_u64 t \<and> is_i64 r \<and>
     (\<forall>e \<in> set es. entry_ok e \<and> r \<le> Sequence e) \<and> ReadEntryVersion q 2 = Inl IoEOF)"

definition segments_ok :: "gostring \<Rightarrow> disk \<Rightarrow> bool" where
  "segments_ok dir d \<longleftrightarrow> d_faults d = [] \<and> dir \<in> set (d_dirs d) \<and> (\<forall>p \<in> seg_set dir d. seg_ok dir d p)"

lemma seg_ok_reads:
  assumes "seg_ok dir d p" "d_faults d = []"
  obtains sr where "OpenSegmentFile p d = (Inr sr, d)" "ReadAll sr = (read_seg (the (content d p)), None)"
proof -
  obtain t r es q where s: "content d p = Some (seg_file t r es @ q)" "is_u64 t" "is_i64 r"
    "\<forall>e \<in> set es. entry_ok e" "ReadEntryVersion q 2 = Inl IoEOF"
    using assms(1) by (auto simp: seg_ok_def)
  let ?sr = "\<lparr>sr_r = frames es @ q, sr_Term = t, sr_FirstRev = r, sr_version = 2\<rparr>"
  have n: "newSegmentReader (seg_file t r es @ q) = Inr ?sr" using s(2,3) by (simp add: seg_file_def newSegmentReader_header)
  have a: "ReadAll ?sr = (map normal es, None)" by (rule ReadAll_frames [OF s(4,5)]) simp_all
  have "OpenSegmentFile p d = (Inr ?sr, d)" using s(1) assms(2) n by (simp add: OpenSegmentFile_def os_ReadFile_def)
  moreover have "read_seg (the (content d p)) = map normal es" using s(1) n a by (simp add: read_seg_def)
  ultimately show ?thesis using that a by simp
qed

definition max_from :: "int \<Rightarrow> entry list \<Rightarrow> int" where
  "max_from m es = foldl (\<lambda>m e. if Sequence e > m then Sequence e else m) m es"

lemma max_from_simps [simp]: "max_from m [] = m" "max_from m (e # es) = max_from (max m (Sequence e)) es"
  by (simp_all add: max_from_def max_def if_distrib cong: if_cong)

lemma max_from_bounds:
  "m \<le> max_from m es \<and> (\<forall>e \<in> set es. Sequence e \<le> max_from m es) \<and> (max_from m es = m \<or> max_from m es \<in> Sequence ` set es)"
proof (induction es arbitrary: m)
  case (Cons e es)
  from Cons [of "max m (Sequence e)"] show ?case by (auto simp: max_def split: if_splits)
qed simp

lemma maxseq_loop_ok:
  assumes "\<forall>p \<in> set ps. seg_ok dir d p" "d_faults d = []"
  shows "maxseq_loop ps m None d = ((max_from m (concat (map (\<lambda>p. read_seg (the (content d p))) ps)), None), d)"
  using assms(1)
proof (induction ps arbitrary: m)
  case (Cons p ps)
  have "seg_ok dir d p" using Cons.prems by simp
  then obtain sr where sr: "OpenSegmentFile p d = (Inr sr, d)" "ReadAll sr = (read_seg (the (content d p)), None)" by (rule seg_ok_reads [OF _ assms(2)])
  then show ?case using Cons by (simp add: max_from_def)
qed (simp add: max_from_def)

lemma MaxSequence_ok: "segments_ok dir d \<Longrightarrow> MaxSequence dir d = ((max_from 0 (local_log dir d), None), d)"
  by (simp add: MaxSequence_def segments_ok_def os_ReadDir_no_faults local_log_def maxseq_loop_ok [where dir = dir])

context pebble_db
begin

lemma replay_loop_inv:
  assumes "\<forall>p \<in> set ps. seg_ok dir d p" "d_faults d = []" "healthy (s_db db)" "store_inv contents db H"
    and "store_entries_ok db (filter (\<lambda>e. afterSeq < Sequence e) (concat (map (\<lambda>p. read_seg (the (content d p))) ps)))"
  obtains db' where "replay_loop (store_Recover P) afterSeq ps db d = (None, db', d)" "healthy (s_db db')"
    "store_inv contents db' (H @ chg (filter (\<lambda>e. afterSeq < Sequence e) (concat (map (\<lambda>p. read_seg (the (content d p))) ps))))"
    "s_lastSeq db' = last_seq (s_lastSeq db) (filter (\<lambda>e. afterSeq < Sequence e) (concat (map (\<lambda>p. read_seg (the (content d p))) ps)))"
    "s_currentRev db' = last_rev (s_currentRev db) (filter (\<lambda>e. afterSeq < Sequence e) (concat (map (\<lambda>p. read_seg (the (content d p))) ps)))"
  using assms(1,3-5)
proof (induction ps arbitrary: db H thesis)
  case Nil
  then show ?case by (simp add: last_seq_def)
next
  case (Cons p ps)
  have "seg_ok dir d p" using Cons.prems by simp
  then obtain sr where sr: "OpenSegmentFile p d = (Inr sr, d)" "ReadAll sr = (read_seg (the (content d p)), None)" by (rule seg_ok_reads [OF _ assms(2)])
  let ?f = "filter (\<lambda>e. afterSeq < Sequence e)" and ?r = "\<lambda>p. read_seg (the (content d p))"
  let ?a = "?f (?r p)" and ?b = "?f (concat (map ?r ps))"
  have ok: "store_entries_ok db ?a" "entries_ok (last_rev (s_currentRev db) ?a) (last_compact (s_compactRev db) ?a) (last_seq (s_lastSeq db) ?a) ?b"
    using Cons.prems(5) by (simp_all add: store_entries_ok_def entries_ok_append)
  obtain db1 where d1: "store_Recover P ?a db = (None, db1)" "healthy (s_db db1)" "store_inv contents db1 (H @ chg ?a)"
    "s_currentRev db1 = last_rev (s_currentRev db) ?a" "s_compactRev db1 = last_compact (s_compactRev db) ?a" "s_lastSeq db1 = last_seq (s_lastSeq db) ?a"
    by (rule Recover_inv [OF Cons.prems(3,4) ok(1)])
  have e: "?a = [] \<Longrightarrow> db1 = db" using d1(1) by (simp add: store_Recover_def)
  obtain db' where d': "replay_loop (store_Recover P) afterSeq ps db1 d = (None, db', d)" "healthy (s_db db')"
    "store_inv contents db' ((H @ chg ?a) @ chg ?b)" "s_lastSeq db' = last_seq (s_lastSeq db1) ?b" "s_currentRev db' = last_rev (s_currentRev db1) ?b"
    by (rule Cons.IH [of db1 "H @ chg ?a"]) (use Cons.prems(2) d1 ok(2) in \<open>auto simp: store_entries_ok_def\<close>)
  have "replay_loop (store_Recover P) afterSeq (p # ps) db d = (None, db', d)"
    using sr d1(1) d'(1) e by (cases "?a = []") (simp_all add: Let_def)
  then show ?case using d' d1 by (intro Cons.prems(1) [of db']) (simp_all add: last_append_simps)
qed

end

lemma concat_insort: "f p = [] \<Longrightarrow> concat (map f (insort p xs)) = concat (map f xs)"
  by (induction xs) auto

lemma Sequence_normal [simp]: "Sequence (normal e) = Sequence e"
  by (simp add: normal_def Sequence_def)

lemma seg_name_eq: "path_join dir a = path_join dir b \<Longrightarrow> a = b"
  by (simp add: path_join_def)

lemma wal_Open_keeps_log:
  assumes "segments_ok dir d" "wal_Open dir t r w d = (None, w', d')" "d_faults d' = []" "is_u64 t" "is_i64 r"
    and "\<forall>e \<in> set (local_log dir d). Sequence e < r"
  shows "local_log dir d' = local_log dir d" "segments_ok dir d'"
proof -
  let ?p = "path_join dir (SegmentName t r)" and ?A = "seg_set dir d"
  let ?f = "\<lambda>p. read_seg (the (content d p))" and ?f' = "\<lambda>p. read_seg (the (content d' p))"
  have c: "content d' = (content d)(?p \<mapsto> seg_file t r [])" "dir \<in> set (d_dirs d')" using wal_Open_ready [OF assms(2)] by auto
  have A: "seg_set dir d' = insert ?p ?A" using seg_set_update [OF c(1)] .
  have new: "?f' ?p = []" using c(1) read_seg_torn [of 20] by (simp add: seg_file_def)
  have old: "?f ?p = []" if "?p \<in> ?A"
  proof -
    have "seg_ok dir d ?p" using assms(1) that by (simp add: segments_ok_def)
    then obtain t' r' es q where s: "path_join dir (SegmentName t r) = path_join dir (SegmentName t' r')" "content d ?p = Some (seg_file t' r' es @ q)"
      "is_u64 t'" "is_i64 r'" "\<forall>e \<in> set es. entry_ok e \<and> r' \<le> Sequence e" "ReadEntryVersion q 2 = Inl IoEOF"
      unfolding seg_ok_def by blast
    have "r' = r" using arg_cong [OF seg_name_eq [OF s(1)], of ParseSegmentName] unfolding ParseSegmentName_SegmentName [OF assms(4,5)] ParseSegmentName_SegmentName [OF s(3,4)] by simp
    have rd: "?f ?p = map normal es" using read_seg_stop [OF _ s(3,4,6)] s(2,5) by simp
    have "set (?f ?p) \<subseteq> set (local_log dir d)" using that by (auto simp: local_log_def)
    then have "es = []" using rd assms(6) s(5) \<open>r' = r\<close> by (cases es) force+
    then show ?thesis using rd by simp
  qed
  have "concat (map ?f' (sorted_list_of_set ?A)) = concat (map ?f (sorted_list_of_set ?A))"
    using new old c(1) by (intro arg_cong [of _ _ concat] map_cong) auto
  moreover have "concat (map ?f' (sorted_list_of_set (insert ?p ?A))) = concat (map ?f' (sorted_list_of_set ?A))"
    using concat_insort [of ?f' ?p, OF new] by (cases "?p \<in> ?A") (simp_all add: insert_absorb)
  ultimately show "local_log dir d' = local_log dir d" by (simp add: local_log_def A)
  have "seg_ok dir d' ?p"
    unfolding seg_ok_def using c(1) assms(4,5) ReadEntry_short [of "[]" 2]
    by (intro exI [of _ t] exI [of _ r] exI [of _ "[]"]) simp
  moreover have "seg_ok dir d' p" if "p \<in> ?A" "p \<noteq> ?p" for p
    using that c(1) assms(1) by (simp add: segments_ok_def seg_ok_def)
  ultimately show "segments_ok dir d'" using A c(2) assms(3) by (auto simp: segments_ok_def)
qed

section \<open>Properties\<close>


definition crashed_disk :: disk where
  "crashed_disk = \<lparr>d_files = [(path_join (str ''wal'') (SegmentName 1 1), seg_file 1 1 demo_entries @ [0, 0, 0])], d_dirs = [str ''wal''], d_faults = []\<rparr>"

lemma crashed_disk_ok: "segments_ok (str ''wal'') crashed_disk" "local_log (str ''wal'') crashed_disk = demo_entries"
proof -
  let ?p = "path_join (str ''wal'') (SegmentName 1 1)"
  have c: "content crashed_disk = [?p \<mapsto> seg_file 1 1 demo_entries @ [0, 0, 0]]" by (simp add: crashed_disk_def content_def fun_eq_iff)
  have "content \<lparr>d_files = [], d_dirs = [], d_faults = []\<rparr> = Map.empty" by (simp add: content_def fun_eq_iff)
  then have A: "seg_set (str ''wal'') crashed_disk = {?p}"
    using seg_set_update [of crashed_disk "\<lparr>d_files = [], d_dirs = [], d_faults = []\<rparr>" "str ''wal''" 1 1 "seg_file 1 1 demo_entries @ [0, 0, 0]"] c
    by (simp add: seg_set_empty)
  have ok: "\<forall>e \<in> set demo_entries. entry_ok e \<and> 1 \<le> Sequence e" "map normal demo_entries = demo_entries"
    by (simp_all add: demo_entries_def demo_entry_def entry_ok_def is_i64_def is_u64_def Sequence_def normal_def)
  have q: "ReadEntryVersion [0, 0, 0] 2 = Inl IoEOF" by (simp add: ReadEntry_short)
  have "seg_ok (str ''wal'') crashed_disk ?p"
    unfolding seg_ok_def using c ok q
    by (intro exI [of _ 1] exI [of _ "1 :: int"] exI [of _ demo_entries] exI [of _ "[0, 0, 0]"]) (simp add: is_u64_def is_i64_def)
  then show "segments_ok (str ''wal'') crashed_disk" using A by (simp add: segments_ok_def crashed_disk_def)
  have "read_seg (seg_file 1 1 demo_entries @ [0, 0, 0]) = map normal demo_entries"
    by (rule read_seg_stop [OF _ _ _ q]) (use ok in \<open>simp_all add: is_u64_def is_i64_def\<close>)
  then show "local_log (str ''wal'') crashed_disk = demo_entries" using A c ok(2) by (simp add: local_log_def)
qed

definition demo_io :: "memdb pebbleio" where
  "demo_io = \<lparr>pio_Open = (\<lambda>_ d. ([(Inr ([], None), False)], d)), pio_Close = (\<lambda>_ d. (None, d)), pio_Flush = (\<lambda>db d. ((None, []), db, d)),
     pio_Checkpoint = (\<lambda>_. demo_ckpt [])\<rparr>"


text \<open>C11: A follower becomes leader only where it may: unless the leader announced its shutdown, only when the leader's last sign of life is older than the time to
  live; and always with a store that has reached the revision that the lock says was committed.\<close>

theorem promotion_fenced:
  assumes "attemptPromotion P IO S other env conditional cfg tmpDir ancestor lisErr now graceful w = ((x, True), w')"
    and "lock_Read S (node_lock conditional cfg) (o_obj w) = (Inr (Some rec), ob)"
  shows "(graceful \<or> lr_LastSeenNano rec \<le> 0 \<or> LeaderLivenessTTL \<le> now - lr_LastSeenNano rec) \<and>
    (\<exists>w1 rec1 w2. becomeLeader P IO S env cfg lisErr rec1 w1 = (None, w2) \<and> w' = promoted IO S cfg tmpDir ancestor w2 \<and>
       lr_CommittedRev rec \<le> s_currentRev (n_db (o_node w1)))"
proof -
  have t: "\<exists>rec1 ob1 w2. becomeLeader P IO S env cfg lisErr rec1 (w0\<lparr>o_obj := ob1\<rparr>) = (None, w2) \<and> w' = promoted IO S cfg tmpDir ancestor w2"
    if "takeover P IO S other env conditional cfg tmpDir ancestor lisErr now w0 = ((x, True), w')" for w0
    using that by (auto simp: takeover_def refer_def Let_def split: prod.splits sum.splits option.splits bool.splits if_splits)
  have r: "refer rec w0 \<noteq> ((x, True), w')" for w0 by (simp add: refer_def)
  from assms r show ?thesis
    by (auto simp: attemptPromotion_def Let_def split: prod.splits sum.splits option.splits if_splits dest!: t) force+
qed

definition demo_cfg :: config where
  "demo_cfg = \<lparr>cfg_ReadConsistency = [], cfg_DataDir = str ''data'', cfg_ObjectStore = True, cfg_SegmentMaxSize = 1000, cfg_SegmentMaxAge = 0, cfg_WALSyncUpload = None,
     cfg_CheckpointInterval = 0, cfg_CheckpointEntries = 0, cfg_NodeID = [98], cfg_PeerListenAddr = [98], cfg_AdvertisePeerAddr = [98], cfg_LeaderWatchInterval = 0,
     cfg_FollowerMaxRetries = 5, cfg_FollowerWaitMode = [], cfg_PeerBufferSize = 10, cfg_WatchSendTimeout = 0\<rparr>"

abbreviation demo_rec :: LockRecord where
  "demo_rec \<equiv> new_record (demo_lock [97]) 5 1 [97] 0"

definition locked_mem :: mem where
  "locked_mem = [(LockKey, \<lparr>mo_data = marshalLock demo_rec, mo_etag = [1]\<rparr>)]"

definition demo_world :: "(memdb, mem) world" where
  "demo_world = \<lparr>o_node = (new_node 1 fresh (wal_New 1000 False) 0 0 WaitNone)\<lparr>n_role := roleFollower\<rparr>, o_sst = None, o_disk = demo_disk, o_obj = locked_mem,
     o_closeOnce = False\<rparr>"

lemma locked_read:
  "readWithETag mem_store (node_lock True demo_cfg) locked_mem = (Inr \<lparr>lw_rec = Some demo_rec, lw_etag = [1]\<rparr>, locked_mem)"
proof -
  have "decodeLock (marshalLock demo_rec) = Inr demo_rec"
    by (rule decode_marshal_lock) (simp add: rec_ok_def new_record_def demo_lock_def ascii_def is_i64_def)
  then show ?thesis by (simp add: readWithETag_def node_lock_def mem_store_sel mem_GetETag_def locked_mem_def)
qed

lemma demo_becomes_leader:
  assumes "map_of m ManifestKey = None" "wal_keys m = []"
  shows "\<exists>w'. becomeLeader mem_pebble demo_io mem_store id demo_cfg None rec (demo_world\<lparr>o_obj := m\<rparr>) = (None, w')"
proof -
  have c: "wal_Close None (wal_New 1000 False) demo_disk m = (None, (wal_New 1000 False)\<lparr>w_closed := True\<rparr>, demo_disk, m)"
    by (simp add: wal_Close_def wal_New_def)
  have l: "LocalSegments (wal_dir demo_cfg) demo_disk = (Inl ErrNotExist, demo_disk)"
    by (simp add: LocalSegments_def os_ReadDir_def demo_disk_def)
  have u: "uploadLocalWALSegments mem_store (wal_dir demo_cfg) demo_disk m = (demo_disk, m)" by (simp add: uploadLocalWALSegments_def l)
  have r: "ReadManifest mem_store m = (Inr None, m)" using assms(1) by (simp add: ReadManifest_def mem_store_sel mem_Get_def)
  have p: "replayRemote mem_store rc sq db m = (None, db, m)" for rc sq and db :: "memdb sstore"
    using assms(2) by (simp add: replayRemote_def mem_store_sel wal_keys_List)
  have q: "scan_seq (wal_dir demo_cfg) sq demo_disk = (if 0 > sq then 0 else sq, demo_disk)" for sq
    by (simp add: scan_seq_def MaxSequence_def l)
  obtain w2 d2 where o: "wal_Open (wal_dir demo_cfg) (lr_Term rec) (wrap64 (s_lastSeq fresh + 1)) (wal_New 1000 False) demo_disk = (None, w2, d2)"
    using wal_Open_succeeds [of demo_disk] by (metis demo_disk_def disk.select_convs(3))
  have z: "\<not> s_lastSeq fresh < 0" by (simp add: fresh_def new_store_def)
  show ?thesis
    using c u r p q o z by (simp add: becomeLeader_def demo_world_def new_node_def restoreDBIfBehindCheckpoint_def demo_cfg_def Let_def)
qed

theorem promotion_fenced_witness:
  "\<exists>x w'. attemptPromotion mem_pebble demo_io mem_store id id True demo_cfg (str ''/tmp/t4'') None None (7 * second) False demo_world = ((x, True), w') \<and>
     LeaderLivenessTTL \<le> 7 * second - 5"
proof -
  let ?r = "new_record (node_lock True demo_cfg) (7 * second) 2 [98] 0"
  let ?m = "[(LockKey, \<lparr>mo_data = marshalLock ?r, mo_etag = memETag (marshalLock ?r)\<rparr>)]"
  have rd: "lock_Read mem_store (node_lock True demo_cfg) (o_obj demo_world) = (Inr (Some demo_rec), locked_mem)"
    using locked_read by (simp add: lock_Read_def demo_world_def)
  have z: "s_currentRev fresh = 0" by (simp add: fresh_def new_store_def)
  have nt: "next_term 1 \<lparr>lw_rec = Some demo_rec, lw_etag = [1]\<rparr> = 2" by (simp add: next_term_def new_record_def)
  have lk: "lk_advertiseAddr (node_lock True demo_cfg) = [98]" "lk_conditional (node_lock True demo_cfg)" "lk_nodeID (node_lock True demo_cfg) = [98]"
    by (simp_all add: node_lock_def demo_cfg_def)
  have to: "takeOver_write mem_store id (node_lock True demo_cfg) (7 * second) 1 0 \<lparr>lw_rec = Some demo_rec, lw_etag = [1]\<rparr> locked_mem =
      writeAtomic mem_store id (node_lock True demo_cfg) (7 * second) 2 0 \<lparr>lw_rec = Some demo_rec, lw_etag = [1]\<rparr> locked_mem"
    unfolding takeOver_write_def nt by (simp add: new_record_def)
  have wa: "writeAtomic mem_store id (node_lock True demo_cfg) (7 * second) 2 0 \<lparr>lw_rec = Some demo_rec, lw_etag = [1]\<rparr> locked_mem = (Inr (Some ?r, True), ?m)"
    by (simp add: writeAtomic_def lk Let_def mem_store_sel mem_PutIfMatch_def locked_mem_def)
  have t: "TakeOver mem_store id (node_lock True demo_cfg) (7 * second) 1 0 locked_mem = (Inr (Some ?r, True), ?m)"
    unfolding TakeOver_def locked_read prod.case sum.case to wa ..
  have "map_of ?m ManifestKey = None" "wal_keys ?m = []"
    by (simp_all add: LockKey_def ManifestKey_def wal_keys_def str_def HasPrefix_def)
  then obtain w' where b: "becomeLeader mem_pebble demo_io mem_store id demo_cfg None ?r (demo_world\<lparr>o_obj := ?m\<rparr>) = (None, w')"
    using demo_becomes_leader by blast
  have n: "n_term (o_node demo_world) = 1" "n_db (o_node demo_world) = fresh" "demo_world\<lparr>o_obj := locked_mem\<rparr> = demo_world" "o_obj demo_world = locked_mem"
    by (simp_all add: demo_world_def new_node_def)
  have p: "attemptPromotion mem_pebble demo_io mem_store id id True demo_cfg (str ''/tmp/t4'') None None (7 * second) False demo_world =
      ((None, True), promoted demo_io mem_store demo_cfg (str ''/tmp/t4'') None w')"
    using rd t b n z by (simp add: attemptPromotion_def takeover_def new_record_def demo_lock_def LeaderLivenessTTL_def second_def)
  from promotion_fenced [OF p rd] p show ?thesis by (auto simp: new_record_def demo_lock_def)
qed

text \<open>C12: A superseded leader stops. When the lock names another owner or term, the next check of the watch (by timer, poll or after a disconnect) leaves the lock as it is,
  ends the loop, cancels the node and stops its peer server; linearizable reads are refused from then on.\<close>

theorem superseded_leader_stops:
  assumes "ReadETag S l (o_obj w) = (Inr (cur, tag), ob)" "case cur of None \<Rightarrow> True | Some rec \<Rightarrow> lr_Term rec \<noteq> term \<or> lr_NodeID rec \<noteq> lk_nodeID l"
    and "\<not> n_closed (o_node w)" "n_leaderCli (o_node w) = None" "ev \<noteq> WatchDone" "ev = WatchPoll \<longrightarrow> polling"
    and "watch_step S l now term ev polling w = (goOn, polling', w')"
  shows "\<not> goOn \<and> o_obj w' = ob \<and> n_bgDone (o_node w') \<and> \<not> n_peerGRPC (o_node w') \<and> syncWithLeader call states (o_node w') = Some (Some ErrClosed)"
proof -
  have c: "watch_check S l now term touch w = (False, w\<lparr>o_obj := ob, o_node := (o_node w)\<lparr>n_bgDone := True, n_peerGRPC := False\<rparr>\<rparr>)" for touch
    using assms(1-3) by (cases cur) (auto simp: watch_check_def fencedCheck_def)
  show ?thesis using assms(4-7) c by (cases ev) (auto simp: watch_step_def syncWithLeader_def)
qed

theorem superseded_leader_stops_witness:
  "\<exists>goOn polling' w'. watch_step mem_store (node_lock True demo_cfg) 9 2 WatchTick False demo_world = (goOn, polling', w') \<and> n_bgDone (o_node w')"
proof -
  obtain goOn polling' w' where s: "watch_step mem_store (node_lock True demo_cfg) 9 2 WatchTick False demo_world = (goOn, polling', w')"
    by (cases "watch_step mem_store (node_lock True demo_cfg) 9 2 WatchTick False demo_world")
  have "ReadETag mem_store (node_lock True demo_cfg) (o_obj demo_world) = (Inr (Some demo_rec, [1]), locked_mem)"
    using locked_read by (simp add: ReadETag_def demo_world_def)
  from superseded_leader_stops [OF this _ _ _ _ _ s] s show ?thesis
    by (auto simp: demo_world_def new_node_def new_record_def demo_lock_def)
qed

end
