(* ===== verification/Resync.thy ===== *)
theory Resync
  imports Lifecycle
begin

text \<open>
  What \<open>restoreDBIfBehindCheckpoint\<close> (\<open>src/wal_replay.go\<close>) and \<open>resyncFromCheckpoint\<close> (\<open>src/follower.go\<close>) do to a running
  node: the database directory is replaced by the files of the latest checkpoint, and the registry of uploaded files is not.
\<close>

section \<open>What a restore in place does\<close>

lemma streamToFile_frame: "d_faults d = [] \<Longrightarrow> streamToFile b p d = (e, d') \<Longrightarrow> d_faults d' = [] \<and> d_dirs d' = d_dirs d"
  by (auto simp: streamToFile_def os_Create_def f_Write_def f_Close_def)

lemma downloadFile_frame:
  assumes "d_faults d = []" "downloadFile S key p d ob = (e, d', ob')"
  shows "d_faults d' = [] \<and> d_dirs d' = d_dirs d"
proof (cases "st_Get S key ob")
  case (Pair g ob1)
  obtain e2 d2 where "streamToFile (projr g) p d = (e2, d2)" by (cases "streamToFile (projr g) p d")
  with Pair assms streamToFile_frame [OF assms(1)] show ?thesis by (cases g) (auto simp: downloadFile_def)
qed

lemma download_frame:
  "d_faults d = [] \<Longrightarrow> download_all (downloadFile S) target items d ob = (e, d', ob') \<Longrightarrow> d_faults d' = [] \<and> d_dirs d' = d_dirs d"
proof (induction items arbitrary: d ob)
  case (Cons x items)
  obtain key name where x: "x = (key, name)" by (cases x)
  obtain e1 d1 ob1 where g: "downloadFile S key (path_join target name) d ob = (e1, d1, ob1)" by (rule prod_cases3)
  note f = downloadFile_frame [OF Cons.prems(1) g]
  show ?case
  proof (cases e1)
    case None
    then have "download_all (downloadFile S) target items d1 ob1 = (e, d', ob')" using Cons.prems(2) by (simp add: x g)
    then show ?thesis using Cons.IH [of d1 ob1] f by simp
  next
    case (Some a)
    then have "d' = d1" using Cons.prems(2) by (simp add: x g)
    then show ?thesis using f by simp
  qed
qed simp

lemma restore_frame:
  assumes "checkpoint_Restore S key target d ob = (Inr x, d', ob')" "d_faults d = []"
  shows "d_faults d' = [] \<and> target \<in> set (d_dirs d')"
proof -
  have suf: "HasSuffix key (str ''manifest.json'')" using assms(1) by (auto simp: checkpoint_Restore_def restoreFromIndex_def split: if_splits)
  note R = assms(1) [unfolded checkpoint_Restore_def restoreFromIndex_def Let_def, simplified suf, simplified]
  obtain idx ob1 where i: "ReadCheckpointIndex S key ob = (Inr idx, ob1)" using R by (auto split: prod.splits sum.splits)
  obtain d1 where 1: "os_MkdirAll target d = (None, d1)" using R i by (auto split: prod.splits option.splits)
  obtain d2 ob2 where 2: "download_all (downloadFile S) target (base_items (ci_SSTFiles idx)) d1 ob1 = (None, d2, ob2)"
    using R i 1 by (auto split: prod.splits option.splits)
  obtain d3 ob3 where 3: "download_all (downloadFile S) target (base_items (ci_AncestorSSTFiles idx)) d2 ob2 = (None, d3, ob3)"
    using R i 1 2 by (auto split: prod.splits option.splits)
  obtain items where 4: "download_all (downloadFile S) target items d3 ob3 = (None, d', ob')"
    using R i 1 2 3 by (auto split: prod.splits option.splits)
  have d1: "d_faults d1 = []" "target \<in> set (d_dirs d1)" using 1 assms(2) by (auto simp: os_MkdirAll_def)
  with download_frame [OF _ 2] have d2: "d_faults d2 = []" "d_dirs d2 = d_dirs d1" by auto
  with download_frame [OF _ 3] have d3: "d_faults d3 = []" "d_dirs d3 = d_dirs d1" by auto
  with download_frame [OF _ 4] d1 show ?thesis by auto
qed

lemma renamed_content:
  assumes "\<forall>f \<in> set fs. \<not> under new (fst f)"
  shows "map_of (map (\<lambda>f. (rename_path old new (fst f), snd f)) fs) (path_join new n) = map_of fs (path_join old n)"
  using assms
proof (induction fs)
  case (Cons f fs)
  have e: "path_join new n = rename_path old new (fst f) \<longleftrightarrow> path_join old n = fst f"
  proof (cases "under old (fst f)")
    case True
    then show ?thesis by (auto simp: rename_path_def under_def path_join_def HasPrefix_iff prefix_def)
  next
    case False
    have "\<not> under new (fst f)" using Cons.prems by simp
    with False show ?thesis unfolding rename_path_def under_def path_join_def HasPrefix_iff prefix_def append_Nil append_Cons append_assoc by metis
  qed
  show ?case using Cons.IH Cons.prems e by (simp del: split_paired_All)
qed simp

lemma uploadOne_registered: "uploadOne S p u d ob = (r, u', d', ob') \<Longrightarrow> map_of (su_local u) name = Some key \<Longrightarrow> map_of (su_local u') name = Some key"
  by (auto simp: uploadOne_def Let_def update_conv' split: if_splits prod.splits sum.splits option.splits)

lemma reconcile_registered:
  "reconcile_loop S names u d ob = (r, u', d', ob') \<Longrightarrow> map_of (su_local u) name = Some key \<Longrightarrow>
   map_of (su_local u') name = Some key \<and> su_inherited u' = su_inherited u"
proof (induction names arbitrary: u d ob)
  case (Cons n names)
  have i: "su_inherited u1 = su_inherited u" if "uploadOne S p u dd ob = (r1, u1, d1, ob1)" for p dd r1 u1 d1 ob1
    using that by (auto simp: uploadOne_def Let_def split: if_splits prod.splits sum.splits option.splits)
  obtain f d1 where f: "next_fault d = (f, d1)" by (cases "next_fault d")
  show ?case
  proof (cases "HasSuffix n (str ''.sst'') \<and> f = None \<and> \<not> (content d1 (path_join (su_pebbleDir u) n) = None \<or> content d1 (path_join (su_pebbleDir u) n) = Some []) \<and>
      \<not> (map_of (su_local u) n \<noteq> None \<or> map_of (su_inherited u) n \<noteq> None)")
    case False
    then have "\<exists>d2. reconcile_loop S names u d2 ob = (r, u', d', ob')" using Cons.prems(1) f by (auto simp: Let_def split: if_splits option.splits)
    then show ?thesis using Cons.IH Cons.prems(2) by blast
  next
    case True
    obtain r1 u1 d2 ob1 where u: "uploadOne S (path_join (su_pebbleDir u) n) u d1 ob = (r1, u1, d2, ob1)" by (rule prod_cases4)
    note k = uploadOne_registered [OF u Cons.prems(2)] i [OF u]
    show ?thesis
    proof (cases r1)
      case None
      then have "reconcile_loop S names u1 d2 ob1 = (r, u', d', ob')" using Cons.prems(1) f True u by (simp add: Let_def)
      then show ?thesis using Cons.IH k by simp
    next
      case (Some e)
      then have "u' = u1" using Cons.prems(1) f True u by (simp add: Let_def)
      then show ?thesis using k by simp
    qed
  qed
qed simp

lemma under_join [simp]: "under dir (path_join dir n)"
  by (simp add: under_def path_join_def HasPrefix_iff)

lemma under_resync: "\<not> under dir (dir @ str ''.resync'')" "\<not> under dir (path_join (dir @ str ''.resync'') n)"
  by (auto simp: under_def path_join_def HasPrefix_iff str_def)

lemma filter_under: "map_of (filter (\<lambda>f. \<not> under dir (fst f)) fs) p = (if under dir p then None else map_of fs p)"
  by (induction fs) auto

lemma content_filtered: "content (d\<lparr>d_files := filter (\<lambda>f. \<not> under dir (fst f)) (d_files d), d_dirs := x\<rparr>) p = (if under dir p then None else content d p)"
  by (simp add: content_def filter_under)

lemma RemoveAll_working:
  assumes "d_faults d = []"
  obtains d' where "os_RemoveAll dir d = (None, d')" "d_faults d' = []" "\<forall>p. content d' p = (if under dir p then None else content d p)"
    "\<forall>p. p \<in> set (d_dirs d') \<longleftrightarrow> p \<in> set (d_dirs d) \<and> \<not> under dir p" "\<forall>f \<in> set (d_files d'). \<not> under dir (fst f)"
proof -
  let ?d = "d\<lparr>d_files := filter (\<lambda>f. \<not> under dir (fst f)) (d_files d), d_dirs := filter (\<lambda>p. \<not> under dir p) (d_dirs d)\<rparr>"
  show ?thesis by (rule that [of ?d]) (use assms in \<open>auto simp: os_RemoveAll_def content_filtered\<close>)
qed

text \<open>What the restore relies on of the database library: closing the database works and touches nothing but the database's
  own directory; opening a directory with exactly the files of the checkpoint gives the database \<open>pdb\<close> it was made of.\<close>

definition closes_own :: "'db pebbleio \<Rightarrow> gostring \<Rightarrow> 'db \<Rightarrow> bool" where
  "closes_own IO dir pdb \<longleftrightarrow> (\<forall>d. d_faults d = [] \<longrightarrow> (\<exists>d'. pio_Close IO pdb d = (None, d') \<and> d_faults d' = [] \<and>
     (\<forall>p. \<not> under dir p \<longrightarrow> content d' p = content d p \<and> (p \<in> set (d_dirs d') \<longleftrightarrow> p \<in> set (d_dirs d)))))"

definition opens_files :: "'db pebbleio \<Rightarrow> gostring \<Rightarrow> (gostring \<times> bytes) list \<Rightarrow> 'db \<Rightarrow> bool" where
  "opens_files IO dir fs pdb \<longleftrightarrow> (\<forall>d. d_faults d = [] \<and> dir \<in> set (d_dirs d) \<and> (\<forall>f \<in> set fs. content d (path_join dir (fst f)) = Some (snd f)) \<and>
     (\<forall>n. n \<notin> fst ` set fs \<longrightarrow> content d (path_join dir n) = None) \<longrightarrow> (\<exists>late d'. pio_Open IO dir d = ([(Inr pdb, late)], d') \<and> d_faults d' = []))"

lemma swap_db_installs:
  assumes "d_faults d = []" "tmp = dir @ str ''.resync''" "tmp \<in> set (d_dirs d)" "closes_own IO dir (s_db db)" "opens_files IO dir fs pdb"
    and "\<forall>f \<in> set fs. content d (path_join tmp (fst f)) = Some (snd f)" "\<forall>n. n \<notin> fst ` set fs \<longrightarrow> content d (path_join tmp n) = None"
    and "\<And>late. store_Open P [(Inr pdb, late)] = Some (Inr db')"
  obtains d' where "swap_db P IO tmp dir db d = (None, db', d')" "d_faults d' = []"
proof -
  obtain d1 where 1: "pio_Close IO (s_db db) d = (None, d1)" "d_faults d1 = []"
    "\<forall>p. \<not> under dir p \<longrightarrow> content d1 p = content d p \<and> (p \<in> set (d_dirs d1) \<longleftrightarrow> p \<in> set (d_dirs d))"
    using assms(1,4) unfolding closes_own_def by blast
  obtain d2 where 2: "os_RemoveAll dir d1 = (None, d2)" "d_faults d2 = []" "\<forall>p. content d2 p = (if under dir p then None else content d1 p)"
    "\<forall>p. p \<in> set (d_dirs d2) \<longleftrightarrow> p \<in> set (d_dirs d1) \<and> \<not> under dir p" "\<forall>f \<in> set (d_files d2). \<not> under dir (fst f)"
    by (rule RemoveAll_working [OF 1(2)])
  have t: "tmp \<in> set (d_dirs d2)" "dir \<notin> set (d_dirs d2)" using 1(3) 2(4) assms(3) under_resync(1) [of dir] unfolding assms(2) by (auto simp: under_def)
  let ?d3 = "d2\<lparr>d_files := map (\<lambda>f. (rename_path tmp dir (fst f), snd f)) (d_files d2), d_dirs := map (rename_path tmp dir) (d_dirs d2)\<rparr>"
  have 3: "os_Rename tmp dir d2 = (None, ?d3)" using 2(2) t by (simp add: os_Rename_def)
  have c: "content ?d3 (path_join dir n) = content d (path_join tmp n)" for n
  proof -
    have "content ?d3 (path_join dir n) = content d2 (path_join tmp n)"
      using renamed_content [OF 2(5), of tmp n] by (simp add: content_def)
    also have "\<dots> = content d (path_join tmp n)" using 2(3) 1(3) under_resync(2) [of dir n] unfolding assms(2) by simp
    finally show ?thesis .
  qed
  have "dir \<in> set (d_dirs ?d3)" using t(1) by (auto simp: rename_path_def under_def image_iff intro!: bexI [of _ tmp])
  then obtain late d4 where 4: "pio_Open IO dir ?d3 = ([(Inr pdb, late)], d4)" "d_faults d4 = []"
    using assms(5) [unfolded opens_files_def, rule_format, of ?d3] assms(6,7) c 2(2) by auto
  show ?thesis by (rule that [OF _ 4(2)]) (use 1(1) 2(1) 3 4(1) assms(8) in \<open>simp add: swap_db_def close_db_def open_db_def\<close>)
qed

lemma wal_Close_working:
  fixes ob :: 'o
  assumes "d_faults d = []"
  obtains e w' d' where "wal_Close None w d ob = (e, w', d', ob)" "d_faults d' = []"
proof -
  obtain e w' d' ob' where c: "wal_Close None w d ob = (e, w', d', ob')" by (rule prod_cases4)
  then have "ob' = ob \<and> d_faults d' = []"
    using assms by (auto simp: wal_Close_def sw_Seal_def sw_Close_def f_Sync_def f_Close_def os_Remove_def Let_def split: if_splits option.splits prod.splits)
  with c show ?thesis using that by blast
qed

lemma restoreDB_installs:
  assumes "ReadManifest S (o_obj w) = (Inr (Some (manifest_of b)), ob1)" "restores S (index_key b) b ob1"
    and "s_currentRev (n_db (o_node w)) < at_rev b" "d_faults (o_disk w) = []" "closes_own IO (db_dir cfg) (s_db (n_db (o_node w)))"
    and "opens_files IO (db_dir cfg) (at_files b) pdb" "\<And>late. store_Open P [(Inr pdb, late)] = Some (Inr db')"
  obtains d' ob' where "restoreDBIfBehindCheckpoint P IO S env cfg w =
      (Inr True, w\<lparr>o_node := (o_node w)\<lparr>n_db := db', n_term := at_term b\<rparr>, o_disk := d', o_obj := ob'\<rparr>)" "d_faults d' = []"
proof -
  let ?tmp = "db_dir cfg @ str ''.resync''"
  obtain d1 where 1: "os_RemoveAll ?tmp (o_disk w) = (None, d1)" "d_faults d1 = []" "\<forall>p. content d1 p = (if under ?tmp p then None else content (o_disk w) p)"
    by (rule RemoveAll_working [OF assms(4)])
  obtain d2 ob2 where 2: "checkpoint_Restore S (index_key b) ?tmp d1 ob1 = (Inr (at_term b, at_rev b), d2, ob2)"
    "\<forall>f \<in> set (at_files b). content d2 (path_join ?tmp (fst f)) = Some (snd f)"
    "\<forall>p. (\<forall>f \<in> set (at_files b). p \<noteq> path_join ?tmp (fst f)) \<longrightarrow> content d2 p = content d1 p"
    using assms(2) 1(2) unfolding restores_def by blast
  have d2: "d_faults d2 = []" "?tmp \<in> set (d_dirs d2)" using restore_frame [OF 2(1) 1(2)] by auto
  have none: "content d2 (path_join ?tmp n) = None" if "n \<notin> fst ` set (at_files b)" for n
  proof -
    have "path_join ?tmp n \<noteq> path_join ?tmp (fst f)" if "f \<in> set (at_files b)" for f
      using seg_name_eq [of ?tmp n "fst f"] \<open>n \<notin> _\<close> that by auto
    then show ?thesis using 2(3) 1(3) by simp
  qed
  obtain d3 where 3: "swap_db P IO ?tmp (db_dir cfg) (n_db (o_node w)) d2 = (None, db', d3)" "d_faults d3 = []"
    by (rule swap_db_installs [OF d2(1) refl d2(2) assms(5,6) 2(2) _ assms(7)]) (use none in blast)
  have l: "restore_loop S env ?tmp 4 (manifest_of b) (o_disk w) ob1 = (Inr (at_term b), d2, ob2)"
    using 1(1) 2(1) by (simp add: restore_loop.simps manifest_of_def)
  show ?thesis
    by (rule that [OF _ 3(2), of ob2]) (use assms(1,3) l 3(1) in \<open>simp add: restoreDBIfBehindCheckpoint_def manifest_of_def Let_def\<close>)
qed

section \<open>Properties\<close>

text \<open>C10: A follower that has lost the stream is brought back to the latest checkpoint. When the manifest names an intact checkpoint beyond the follower's
  revision, resynchronisation replaces the database by the one the checkpoint was made of: the store implements that history with its counters, the
  node has the checkpoint's term, and its log is a new one without entries that accepts appends.\<close>

theorem resync_restores:
  assumes "pebble_db P contents healthy" "healthy (s_db s0)" "store_inv contents s0 H"
    and "ReadManifest S (o_obj w) = (Inr (Some (manifest_of b)), ob1)" "restores S (index_key b) b ob1"
    and "s_currentRev (n_db (o_node w)) < at_rev b" "d_faults (o_disk w) = []" "closes_own IO (db_dir cfg) (s_db (n_db (o_node w)))"
    and "opens_files IO (db_dir cfg) (at_files b) (s_db s0)"
  shows "\<exists>w' sw. resyncFromCheckpoint P IO S env cfg w = (None, w') \<and> store_inv contents (n_db (o_node w')) H \<and>
    s_currentRev (n_db (o_node w')) = s_currentRev s0 \<and> s_lastSeq (n_db (o_node w')) = s_lastSeq s0 \<and> n_nextRev (o_node w') = s_currentRev s0 \<and>
    n_term (o_node w') = at_term b \<and> wal_ready (n_wal (o_node w')) (o_disk w') sw []"
proof -
  let ?db = "(new_store (s_db s0))\<lparr>s_currentRev := s_currentRev s0, s_compactRev := s_compactRev s0, s_lastSeq := s_lastSeq s0\<rparr>"
  have op: "store_Open P [(Inr (s_db s0), late)] = Some (Inr ?db)" for late using pebble_db.loadMeta_inv [OF assms(1-3)] by simp
  obtain d1 ob2 where 1: "restoreDBIfBehindCheckpoint P IO S env cfg w =
      (Inr True, w\<lparr>o_node := (o_node w)\<lparr>n_db := ?db, n_term := at_term b\<rparr>, o_disk := d1, o_obj := ob2\<rparr>)" "d_faults d1 = []"
    by (rule restoreDB_installs [OF assms(4-9) op])
  obtain e w2 d2 where 2: "wal_Close None (n_wal (o_node w)) d1 ob2 = (e, w2, d2, ob2)" "d_faults d2 = []" by (rule wal_Close_working [OF 1(2)])
  obtain d3 where 3: "os_RemoveAll (wal_dir cfg) d2 = (None, d3)" "d_faults d3 = []" by (rule RemoveAll_working [OF 2(2)])
  obtain w3 d4 where 4: "wal_Open (wal_dir cfg) (at_term b) (wrap64 (s_currentRev s0 + 1)) (wal_New (cfg_SegmentMaxSize cfg) False) d3 = (None, w3, d4)"
    using wal_Open_succeeds [OF 3(2)] by blast
  obtain sw where "wal_ready w3 d4 sw []" using wal_Open_ready [OF 4] by blast
  moreover have "store_inv contents ?db H" using assms(3) by (simp add: store_inv_def new_store_def)
  ultimately show ?thesis using 1(1) 2(1) 3(1) 4
    by (intro exI [of _ "w\<lparr>o_node := (o_node w)\<lparr>n_db := ?db, n_term := at_term b, n_wal := w3, n_nextRev := s_currentRev s0\<rparr>, o_disk := d4, o_obj := ob2\<rparr>"] exI [of _ sw])
      (simp add: resyncFromCheckpoint_def Let_def)
qed

definition restored_io :: "memdb \<Rightarrow> memdb pebbleio" where
  "restored_io pdb = demo_io\<lparr>pio_Open := (\<lambda>_ d. ([(Inr pdb, False)], d))\<rparr>"

lemma demo_manifest:
  "\<exists>ob ob1. ReadManifest mem_store ob = (Inr (Some (manifest_of demo_attempt)), ob1) \<and> restores mem_store (index_key demo_attempt) demo_attempt ob1"
proof -
  obtain ob where r: "ckpt_run mem_store mem_abs (set demo_files) [(demo_attempt, True)] [] ob" using demo_run by blast
  from object_store.run_manifest [OF mem_is_store r mem_reads_ok demo_attempt_ok(2)] obtain pre b ok post ob1
    where m: "[(demo_attempt, True)] = pre @ (b, ok) # post" "ReadManifest mem_store ob = (Inr (Some (manifest_of b)), ob1)"
      "restores mem_store (mf_CheckpointKey (manifest_of b)) b ob1" by auto
  from m(1) have "b = demo_attempt" by (cases pre) auto
  with m(2,3) show ?thesis by (auto simp: manifest_of_def)
qed

lemma restored_io_laws: "closes_own (restored_io pdb) dir db" "opens_files (restored_io pdb) dir fs pdb"
  by (auto simp: closes_own_def opens_files_def restored_io_def demo_io_def)

lemma demo_world_behind: "s_currentRev (n_db (o_node demo_world)) < at_rev demo_attempt" "d_faults (o_disk demo_world) = []"
  by (simp_all add: demo_world_def new_node_def fresh_def new_store_def demo_attempt_def demo_disk_def)

theorem resync_restores_witness:
  "\<exists>s0 ob w' sw. store_Apply mem_pebble demo_entries fresh = (None, s0) \<and>
     resyncFromCheckpoint mem_pebble (restored_io (s_db s0)) mem_store id demo_cfg (demo_world\<lparr>o_obj := ob\<rparr>) = (None, w') \<and>
     store_inv mdb_contents (n_db (o_node w')) (chg demo_entries) \<and> wal_ready (n_wal (o_node w')) (o_disk w') sw []"
proof -
  obtain s0 where s: "store_Apply mem_pebble demo_entries fresh = (None, s0)" "mdb_healthy (s_db s0)"
    "store_inv mdb_contents s0 ([] @ concat (map entry_changes demo_entries))"
    by (rule memdb.Apply_inv [OF fresh_healthy fresh_inv demo_entries_ok])
  obtain ob ob1 where m: "ReadManifest mem_store ob = (Inr (Some (manifest_of demo_attempt)), ob1)" "restores mem_store (index_key demo_attempt) demo_attempt ob1"
    using demo_manifest by blast
  have n: "o_node (demo_world\<lparr>o_obj := ob\<rparr>) = o_node demo_world" "o_disk (demo_world\<lparr>o_obj := ob\<rparr>) = o_disk demo_world" "o_obj (demo_world\<lparr>o_obj := ob\<rparr>) = ob"
    by simp_all
  from resync_restores [OF mem_pebble_laws s(2,3), of mem_store "demo_world\<lparr>o_obj := ob\<rparr>", unfolded n, OF m demo_world_behind restored_io_laws, of id demo_cfg] s(1)
  show ?thesis by auto
qed

text \<open>C34: The registry of uploaded files outlives the files. After an in-place restore has replaced the database directory, a name that was registered
  for the old files still stands for the old object: reconciling does not upload the new file of that name, and the next checkpoint lists the old
  object for it, whatever the new file holds.\<close>

theorem restored_names_stale:
  assumes "restoreDBIfBehindCheckpoint P IO S env cfg w = (r, w')" "o_sst w = Some u" "map_of (Registry u) name = Some key"
    and "map_of (InheritedRegistry u) name = None" "HasSuffix name (str ''.sst'')"
    and "Reconcile S (the (o_sst w')) (o_disk w') (o_obj w') = (r2, u', d', ob')"
  shows "map_of (Registry u') name = Some key \<and>
    write_file_registry S (Registry u') (InheritedRegistry u') term rv cpDir name d ob = (Inr (SstFile key), d, ob)"
proof -
  have "o_sst w' = Some u"
    using assms(1,2) by (auto simp: restoreDBIfBehindCheckpoint_def Let_def split: prod.splits sum.splits option.splits if_splits)
  then have "Reconcile S u (o_disk w') (o_obj w') = (r2, u', d', ob')" using assms(6) by simp
  then have "map_of (su_local u') name = Some key \<and> su_inherited u' = su_inherited u"
    using assms(3) by (auto simp: Reconcile_def Registry_def split: prod.splits sum.splits dest: reconcile_registered)
  then show ?thesis using assms(4,5) by (simp add: write_file_registry_def Registry_def InheritedRegistry_def)
qed

theorem restored_names_stale_witness:
  "\<exists>w w' u' r2 d' ob'. restoreDBIfBehindCheckpoint mem_pebble (restored_io ([], None)) mem_store id demo_cfg w = (Inr True, w') \<and>
     Reconcile mem_store (the (o_sst w')) (o_disk w') (o_obj w') = (r2, u', d', ob') \<and> map_of (Registry u') (str ''000001.sst'') = Some (str ''sst/old'')"
proof -
  obtain ob ob1 where m: "ReadManifest mem_store ob = (Inr (Some (manifest_of demo_attempt)), ob1)" "restores mem_store (index_key demo_attempt) demo_attempt ob1"
    using demo_manifest by blast
  let ?u = "(NewSSTUploader (db_dir demo_cfg))\<lparr>su_local := [(str ''000001.sst'', str ''sst/old'')]\<rparr>"
  let ?w = "demo_world\<lparr>o_obj := ob, o_sst := Some ?u\<rparr>"
  have n: "o_node ?w = o_node demo_world" "o_disk ?w = o_disk demo_world" "o_obj ?w = ob" by simp_all
  have h: "store_Open mem_pebble [(Inr ([], None), late)] = Some (Inr fresh)" for late
    using memdb.loadMeta_inv [OF fresh_healthy fresh_inv] by (simp add: fresh_def new_store_def)
  obtain w' where r: "restoreDBIfBehindCheckpoint mem_pebble (restored_io ([], None)) mem_store id demo_cfg ?w = (Inr True, w')"
    by (rule restoreDB_installs [of mem_store ?w, unfolded n, OF m demo_world_behind restored_io_laws h, of id])
  obtain r2 u' d' ob' where c: "Reconcile mem_store (the (o_sst w')) (o_disk w') (o_obj w') = (r2, u', d', ob')" by (rule prod_cases4)
  have l: "o_sst ?w = Some ?u" "map_of (Registry ?u) (str ''000001.sst'') = Some (str ''sst/old'')" "map_of (InheritedRegistry ?u) (str ''000001.sst'') = None"
    "HasSuffix (str ''000001.sst'') (str ''.sst'')"
    by (simp_all add: Registry_def InheritedRegistry_def NewSSTUploader_def HasSuffix_def str_def)
  from restored_names_stale [OF r l c] r c show ?thesis by blast
qed

end
