(* ===== verification/Spec2Isabelle.thy ===== *)
theory Spec2Isabelle
  imports Resync
begin

text \<open>
  A verification development of t4, an etcd-like key-value database that keeps its data in an embedded
  database and makes it durable in object storage.

  \<^bold>\<open>The program.\<close> A write on the leader (\<open>src/writes.go\<close>) reads the key through the optimistic state of writes
  that are not committed yet, gets a revision and a sequence and waits. The commit loop (\<open>src/leader.go\<close>) takes a batch of
  waiting writes, appends it to the write-ahead log (\<open>src/internal/wal\<close>), streams it to the followers
  (\<open>src/internal/peer\<close>), waits for their acknowledgements and applies it to the state machine
  (\<open>src/internal/store\<close>). Log segments and checkpoints (\<open>src/internal/checkpoint\<close>) go to object storage
  (\<open>src/pkg/object\<close>), where old ones are collected. The leader is the owner of a lock object
  (\<open>src/internal/election\<close>); followers (\<open>src/follower.go\<close>) apply the stream, resynchronise from a checkpoint after a
  gap and stand for election when the leader is gone. \<open>src/node.go\<close> opens and closes a node.

  \<^bold>\<open>The theories.\<close> Definitions keep the names of the source; a method whose name would clash carries its type
  (\<open>wal_Open\<close>, \<open>store_Open\<close>, \<open>node_Open\<close>).
  \<^item> \<open>T4_Prelude\<close>, \<open>Go_Strings\<close>, \<open>Json\<close>, \<open>Disk\<close>: what is used of Go and its library: 64-bit integers with their
    wrap-around, byte encodings, decimal formatting and parsing, JSON, and files on a disk on which every operation may fail.
  \<^item> \<open>Wal_Entry\<close>, \<open>Wal_Segment\<close>, \<open>Wal_Log\<close>: records (\<open>entry.go\<close>), segment files (\<open>segment.go\<close>) and the log
    (\<open>wal.go\<close>). A record reads back and a corrupted one is noticed; a file cut anywhere reads back as its complete entries; an acknowledged
    batch extends the local log by exactly its entries, or, with synchronous upload, has been uploaded.
  \<^item> \<open>Object_Store\<close>: the interface (\<open>object.go\<close>) as the locales \<open>object_store\<close> and \<open>conditional_store\<close>, interpreted
    on the in-memory store (\<open>mem.go\<close>).
  \<^item> \<open>Wal_Remote\<close>: uploader, collection of segments (\<open>gc.go\<close>), remote and pinned replay (\<open>wal_replay.go\<close>). A successful replay
    applied a gapless run; collecting what a checkpoint covers does not change what replay gives.
  \<^item> \<open>Election\<close>: the lock (\<open>election.go\<close>) and the leader's check of it. The step relation \<open>lock_run\<close> interleaves the reads and writes of any
    number of nodes; the winners' terms strictly increase.
  \<^item> \<open>Pebble_DB\<close>: the embedded database, a third-party package, as the locale \<open>pebble_db\<close>, interpreted on a database that is a
    sorted list.
  \<^item> \<open>Store_Keys\<close>, \<open>Store_State\<close>, \<open>Store_Read\<close>: the state machine (\<open>keys.go\<close>, \<open>store.go\<close>): keys and records, applying entries and
    compaction, reads and watches.
  \<^item> \<open>Store_Spec\<close>, \<open>Store_Refine\<close>, \<open>Store_Apply\<close>, \<open>Store_Watch\<close>: its specification, a store that keeps every change, and the refinement: applying
    extends the history by the entries' changes, reads and listings return what the history says, compaction loses nothing
    that may still be read, recovery equals application, a watch delivers every matching change once, and no wake-up is lost.
  \<^item> \<open>Peer_Messages\<close>, \<open>Peer_Server\<close>, \<open>Peer_Client\<close>: codec (\<open>peer.go\<close>), leader's side (\<open>server.go\<close>) and follower's side (\<open>client.go\<close>)
    of the stream.
  \<^item> \<open>Node_State\<close>, \<open>Node_Writes\<close>, \<open>Node_Lin\<close>: the node's reads (\<open>node.go\<close>), writes (\<open>writes.go\<close>), commit rounds and forwarding
    (\<open>leader.go\<close>). The step relation of \<open>Node_Lin\<close> interleaves writers with the steps of the commit loop; every write
    returns what a sequential store returns at the point where it was submitted, and a forwarded write what a local one does.
  \<^item> \<open>Checkpoint\<close>, \<open>Checkpoint_Write\<close>, \<open>Checkpoint_GC\<close>, \<open>Checkpoint_Run\<close>: checkpoints (\<open>checkpoint.go\<close>), branches (\<open>branch.go\<close>, \<open>fork.go\<close>) and
    the uploader of database files (\<open>sstuploader.go\<close>). The step relation \<open>ckpt_run\<close> runs writers, collections and forks with any failures;
    the manifest always names a checkpoint that restores to the files it was made of, and so does every fork.
  \<^item> \<open>Follower\<close>: the callbacks of \<open>followLoop\<close> on the follower's log and store. A follower's store is a prefix of the leader's log, whatever the
    streams deliver, and what it acknowledges is in its log.
  \<^item> \<open>Lifecycle\<close>: configuration (\<open>config.go\<close>), \<open>Open\<close>, \<open>Close\<close>, election, promotion, the follow loop's rounds, the leader's watch and the
    checkpoint loop. Opening the log after a crash recovers every complete entry; promotion is fenced; a superseded leader stops.
  \<^item> \<open>Resync\<close>: a restore in place gives the store that the checkpoint was made of.

  Some properties show where the code does not do what it means to: a torn append that is retried (\<open>Follower\<close>), file names that outlive their
  files in the registry (\<open>Resync\<close>, \<open>Checkpoint_Run\<close>), checkpoints of a branch (\<open>Checkpoint_Run\<close>), a cancelled batch (\<open>Node_Lin\<close>), a follower that
  joins during a commit (\<open>Peer_Client\<close>), an unconditional touch of the lock (\<open>Election\<close>), a torn segment header (\<open>Wal_Log\<close>).

  \<^bold>\<open>State, errors, concurrency.\<close> An operation takes the state and returns it updated, next to an error or a result; a wrapped Go error is the
  error it wraps. What a mutex protects is one step. Goroutines are step relations or
  lists of events; the object store may change between two requests of a node, by a step of another node or by the parameter \<open>env\<close>.

  \<^bold>\<open>Bounds and fuel.\<close> Recursion is structural or has a termination proof. Loops that the source bounds have its bounds: five attempts to restore a
  checkpoint (one and \<open>rem = 4\<close> more) and ten rounds of replay at start-up. Loops that run until the node
  ends are modelled by one round, or by a list of the events they meet: the attempts of \<open>client_Follow\<close>, the attempts to open a
  database, the ticks of the checkpoint loop; the result \<open>None\<close> says that the list ended before the loop did. Revisions and sequences are assumed below
  \<open>2^63\<close> and terms below \<open>10^10\<close> where the order of names depends on it.

  \<^bold>\<open>Not modelled.\<close> The S3 client and encryption of objects (library calls around the interface of \<open>Object_Store\<close>), the etcd gRPC adapter and its
  authentication (\<open>src/etcd\<close>), the command line, metrics, logging, TLS, a write-ahead log supplied by the caller, benchmarks
  and test programs. Time-outs and pauses are not modelled; clock readings are arguments. Pebble, gRPC and the file system
  are parameters or, for files, the model of \<open>Disk\<close>.
\<close>

end
